theory Spec2Isabelle
  imports Complex_Main "HOL-Library.Tree"
begin

section \<open>Results of pointer programs\<close>

text \<open>
  The scapegoat tree of \<^verbatim>\<open>src/Tree.hpp\<close> is a pointer structure: every node holds
  raw pointers to its parent and its two children. The model keeps the pointers: a node
  lives at an address of an explicit store, and every statement of the source that
  follows a pointer reads the store at that address. Following a null pointer, or a
  pointer to a node that has been deleted, is undefined behaviour in C++; the model
  makes it the error value of that name. A loop or recursion over the store need not
  end when the store is cyclic, so such functions are defined with
  \<^theory_text>\<open>partial_function (option)\<close>: \<open>None\<close> is a run that never returns,
  \<open>Some (Inl e)\<close> a run that reaches undefined behaviour \<open>e\<close>, and
  \<open>Some (Inr x)\<close> a run that returns \<open>x\<close>.
\<close>

datatype error = NullDeref | DanglingDeref

type_synonym 'a res = "(error + 'a) option"

definition ret :: "'a \<Rightarrow> 'a res" where
  "ret x = Some (Inr x)"

definition fail :: "error \<Rightarrow> 'a res" where
  "fail e = Some (Inl e)"

definition bindE :: "'a res \<Rightarrow> ('a \<Rightarrow> 'b res) \<Rightarrow> 'b res" where
  "bindE m f = (case m of None \<Rightarrow> None | Some (Inl e) \<Rightarrow> Some (Inl e) | Some (Inr x) \<Rightarrow> f x)"

lemma bindE_mono [partial_function_mono]:
  assumes mf: "mono_option B" and mg: "\<And>y. mono_option (\<lambda>f. C y f)"
  shows "mono_option (\<lambda>f. bindE (B f) (\<lambda>y. C y f))"
proof -
  have eq: "\<And>m g. bindE m g = Option.bind m (\<lambda>r. case r of Inl e \<Rightarrow> Some (Inl e) | Inr x \<Rightarrow> g x)"
    by (auto simp: bindE_def split: option.splits sum.splits)
  have "mono_option (\<lambda>f. case r of Inl e \<Rightarrow> Some (Inl e) | Inr x \<Rightarrow> C x f)" for r
    by (cases r) (simp_all add: mg option.const_mono)
  then show ?thesis unfolding eq by (intro bind_mono mf)
qed

section \<open>Nodes and the store\<close>

type_synonym addr = nat

text \<open>\<^verbatim>\<open>struct Node { Node* parent; Node* left; Node* right; std::pair<const Key, Value>* pair; }\<close>.
  A null pointer is \<open>None\<close>. The pair is owned by its node alone, so it is a field.\<close>

record ('k, 'v) node =
  parent :: "addr option"
  left :: "addr option"
  right :: "addr option"
  pair :: "'k \<times> 'v"

type_synonym ('k, 'v) heap = "addr \<Rightarrow> ('k, 'v) node option"

text \<open>Reading through a pointer: \<^verbatim>\<open>p->...\<close>.\<close>

definition get :: "('k, 'v) heap \<Rightarrow> addr option \<Rightarrow> ('k, 'v) node res" where
  "get h p = (case p of None \<Rightarrow> fail NullDeref
              | Some a \<Rightarrow> (case h a of None \<Rightarrow> fail DanglingDeref | Some n \<Rightarrow> ret n))"

text \<open>Writing through a pointer: \<^verbatim>\<open>p->field = ...\<close>.\<close>

definition upd :: "('k, 'v) heap \<Rightarrow> addr option \<Rightarrow> (('k, 'v) node \<Rightarrow> ('k, 'v) node) \<Rightarrow> ('k, 'v) heap res" where
  "upd h p f = (case p of None \<Rightarrow> fail NullDeref
                | Some a \<Rightarrow> (case h a of None \<Rightarrow> fail DanglingDeref | Some n \<Rightarrow> ret (h(a \<mapsto> f n))))"

text \<open>\<^verbatim>\<open>~Node() { delete left; delete right; delete pair; }\<close>; deleting a null pointer
  does nothing.\<close>

partial_function (option) delete_node :: "('k, 'v) heap \<Rightarrow> addr option \<Rightarrow> ('k, 'v) heap res" where
  "delete_node h p = (case p of None \<Rightarrow> ret h
     | Some a \<Rightarrow> bindE (get h p) (\<lambda>n.
         bindE (delete_node h (left n)) (\<lambda>h1.
         bindE (delete_node h1 (right n)) (\<lambda>h2.
         ret (h2(a := None))))))"

section \<open>The tree object\<close>

text \<open>
  The fields of \<^verbatim>\<open>Tree\<close>: \<^verbatim>\<open>root\<close>, \<^verbatim>\<open>first\<close>, \<^verbatim>\<open>last\<close>,
  \<^verbatim>\<open>tree_size\<close>, \<^verbatim>\<open>max_size\<close>. The nodes a tree owns are reachable from no other
  tree, so each tree carries the store of its own nodes, and \<open>nxt\<close>, the next address
  that \<^verbatim>\<open>new Node\<close> hands out (every address from \<open>nxt\<close> on is unused). The C++
  \<^verbatim>\<open>int\<close> counters are unbounded integers here: they count nodes, and the model does not
  follow a tree to \<open>2^31\<close> nodes. Keys are ordered by \<^verbatim>\<open>comp\<close>, which is
  \<^verbatim>\<open>std::less<Key>\<close> unless the caller chooses otherwise; the model takes the keys from a
  linear order and \<^verbatim>\<open>comp\<close> is \<open>(<)\<close>. \<^verbatim>\<open>Key()\<close> and \<^verbatim>\<open>Value()\<close>, which the
  source needs for its sentinel node, are \<open>default\<close>.
\<close>

record ('k, 'v) sgt =
  root :: "addr option"
  first :: "addr option"
  last_node :: "addr option"
  tree_size :: int
  max_size :: int
  heap :: "('k, 'v) heap"
  nxt :: addr

text \<open>Every constructor sets \<^verbatim>\<open>alpha = 0.57\<close> or copies it from another tree, and nothing
  else assigns it. The source holds it in a \<^verbatim>\<open>float\<close> (the nearest one is
  \<open>9563013 / 2^24\<close>) and multiplies in single precision; the model computes with the exact
  real number \<open>0.57\<close>. The two tests of the source, \<^verbatim>\<open>l <= alpha * n\<close> and
  \<^verbatim>\<open>s < alpha * n\<close> on integers, come out alike in both ways for every \<open>n\<close> below
  305893; there the second one differs (with \<open>s = 174359\<close>), and the first one differs
  first at \<open>n = 459907\<close>. A theorem that states the outcome of such a test is stated for
  trees of fewer than \<open>2^18\<close> nodes.\<close>

definition alpha :: real where
  "alpha = 57 / 100"

text \<open>\<^verbatim>\<open>Tree()\<close>\<close>

definition Tree_new :: "('k, 'v) sgt" where
  "Tree_new = \<lparr>root = None, first = None, last_node = None, tree_size = 0, max_size = 0,
           heap = (\<lambda>a. None), nxt = 0\<rparr>"

text \<open>\<^verbatim>\<open>new Node(key, value)\<close>: \<^verbatim>\<open>parent = left = right = nullptr\<close>.\<close>

definition new_node :: "'k \<Rightarrow> 'v \<Rightarrow> ('k, 'v) sgt \<Rightarrow> ('k, 'v) sgt \<times> addr option" where
  "new_node key val T =
     (T\<lparr>heap := (heap T)(nxt T \<mapsto> \<lparr>parent = None, left = None, right = None, pair = (key, val)\<rparr>),
        nxt := nxt T + 1\<rparr>, Some (nxt T))"

section \<open>Successor and predecessor\<close>

text \<open>\<^verbatim>\<open>while(res->left) res = res->left; return res;\<close>\<close>

partial_function (option) leftmost :: "('k, 'v) heap \<Rightarrow> addr option \<Rightarrow> addr option res" where
  "leftmost h res = bindE (get h res) (\<lambda>n.
     if left n \<noteq> None then leftmost h (left n) else ret res)"

partial_function (option) rightmost :: "('k, 'v) heap \<Rightarrow> addr option \<Rightarrow> addr option res" where
  "rightmost h res = bindE (get h res) (\<lambda>n.
     if right n \<noteq> None then rightmost h (right n) else ret res)"

text \<open>\<^verbatim>\<open>Node::next()\<close>, called on the node \<open>x\<close>.\<close>

definition next_node :: "('k::linorder, 'v) heap \<Rightarrow> addr option \<Rightarrow> addr option res" where
  "next_node h x = bindE (get h x) (\<lambda>n.
     if right n \<noteq> None then leftmost h (right n)
     else if parent n = None then ret None
     else bindE (get h (parent n)) (\<lambda>p.
       if fst (pair n) < fst (pair p) then ret (parent n)
       else if parent p = None then ret None
       else bindE (get h (parent p)) (\<lambda>g.
         if fst (pair p) < fst (pair g) then ret (parent p) else ret None)))"

text \<open>\<^verbatim>\<open>Node::prev()\<close>\<close>

definition prev_node :: "('k::linorder, 'v) heap \<Rightarrow> addr option \<Rightarrow> addr option res" where
  "prev_node h x = bindE (get h x) (\<lambda>n.
     if left n \<noteq> None then rightmost h (left n)
     else if parent n = None then ret None
     else bindE (get h (parent n)) (\<lambda>p.
       if fst (pair p) < fst (pair n) then ret (parent n)
       else if parent p = None then ret None
       else bindE (get h (parent p)) (\<lambda>g.
         if fst (pair g) < fst (pair p) then ret (parent p) else ret None)))"

section \<open>Iteration\<close>

text \<open>An iterator is the pointer it holds; \<^verbatim>\<open>end()\<close> holds the null pointer.
  \<^verbatim>\<open>begin()\<close>: \<^verbatim>\<open>if(empty()) return end(); return iterator(*this, first);\<close>\<close>

definition end_it :: "('k, 'v) sgt \<Rightarrow> addr option" where
  "end_it T = None"

definition empty_t :: "('k, 'v) sgt \<Rightarrow> bool" where
  "empty_t T \<longleftrightarrow> tree_size T = 0"

definition begin_it :: "('k, 'v) sgt \<Rightarrow> addr option" where
  "begin_it T = (if empty_t T then end_it T else first T)"

text \<open>The loop of every caller that reads a tree in order, as in the driver's
  \<^verbatim>\<open>for(auto iter = tree.begin(); iter != tree.end(); iter++) { auto p = *iter; ... }\<close>:
  the pairs it sees.\<close>

partial_function (option) traverse :: "('k::linorder, 'v) heap \<Rightarrow> addr option \<Rightarrow> ('k \<times> 'v) list res" where
  "traverse h it = (if it \<noteq> None then
       bindE (get h it) (\<lambda>n.
       bindE (next_node h it) (\<lambda>it'.
       bindE (traverse h it') (\<lambda>ps. ret (pair n # ps))))
     else ret [])"

section \<open>Lookup\<close>

text \<open>\<^verbatim>\<open>find\<close>: the loop, then the tree's own function. The loop compares the keys with
  \<^verbatim>\<open>!=\<close> and descends with \<^verbatim>\<open>comp\<close>, while \<^verbatim>\<open>insert\<close> tests \<^verbatim>\<open>comp\<close> in both
  directions. The keys of the model are linearly ordered and \<^verbatim>\<open>comp\<close> is their \<open><\<close> (as
  \<^verbatim>\<open>std::less\<close> on the \<^verbatim>\<open>int\<close> keys of the driver), so that two keys are different exactly
  when one is less than the other; a comparator whose equivalent keys can be different is
  outside the model.\<close>

partial_function (option) find_loop :: "('k::linorder, 'v) heap \<Rightarrow> 'k \<Rightarrow> addr option \<Rightarrow> addr option res" where
  "find_loop h key tmp = (if tmp \<noteq> None then
       bindE (get h tmp) (\<lambda>n.
         if fst (pair n) \<noteq> key then
           (if key < fst (pair n) then find_loop h key (left n) else find_loop h key (right n))
         else ret tmp)
     else ret tmp)"

definition find_key :: "('k::linorder, 'v) sgt \<Rightarrow> 'k \<Rightarrow> addr option res" where
  "find_key T key = bindE (find_loop (heap T) key (root T)) (\<lambda>tmp.
     if tmp = None then ret (end_it T) else ret tmp)"

section \<open>Rebuilding\<close>

text \<open>\<^verbatim>\<open>h_alpha()\<close> is \<^verbatim>\<open>floor(log(tree_size) / log(1/alpha))\<close>, computed in floating
  point. The model computes the number the expression denotes for \<open>alpha = 0.57\<close>: the
  greatest \<open>h\<close> with \<open>(1/alpha)^h \<le> tree_size\<close>, found by counting up from \<open>0\<close>. The
  bound \<open>h < n\<close> makes the count end; it never cuts the count short, since
  \<open>(1/alpha)^(h+1) > h+1\<close>. The source calls \<^verbatim>\<open>h_alpha()\<close> with \<open>tree_size \<ge> 1\<close> only.
  The floating-point value is the same as the exact one for every \<open>tree_size\<close> from 1 to
  411981; at 411982 the source returns 23 and the exact value is 22, since the \<^verbatim>\<open>float\<close>
  quotient \<^verbatim>\<open>1/alpha\<close> is a little below \<open>100/57\<close>.\<close>

function h_alpha_search :: "int \<Rightarrow> nat \<Rightarrow> int" where
  "h_alpha_search n h =
     (if int h < n \<and> (1 / alpha) ^ Suc h \<le> of_int n then h_alpha_search n (Suc h) else int h)"
  by pat_completeness auto
termination
  by (relation "measure (\<lambda>(n, h). nat n - h)") auto

declare h_alpha_search.simps [simp del]

definition h_alpha :: "('k, 'v) sgt \<Rightarrow> int" where
  "h_alpha T = h_alpha_search (tree_size T) 0"

text \<open>\<^verbatim>\<open>node_size\<close>\<close>

partial_function (option) node_size :: "('k, 'v) heap \<Rightarrow> addr option \<Rightarrow> int res" where
  "node_size h node = (if node = None then ret 0
     else bindE (get h node) (\<lambda>n.
       bindE (node_size h (left n)) (\<lambda>a.
       bindE (node_size h (right n)) (\<lambda>b.
       ret ((a + b) + 1)))))"

text \<open>\<^verbatim>\<open>flatten\<close>: \<^verbatim>\<open>x->right = flatten(x->right, y); return flatten(x->left, x);\<close>\<close>

partial_function (option) flatten ::
    "('k, 'v) heap \<Rightarrow> addr option \<Rightarrow> addr option \<Rightarrow> (('k, 'v) heap \<times> addr option) res" where
  "flatten h x y = (if x = None then ret (h, y)
     else bindE (get h x) (\<lambda>xn.
       bindE (flatten h (right xn) y) (\<lambda>(h1, r).
       bindE (upd h1 x (\<lambda>n. n\<lparr>right := r\<rparr>)) (\<lambda>h2.
       bindE (get h2 x) (\<lambda>xn2.
       flatten h2 (left xn2) x)))))"

text \<open>The loop of \<^verbatim>\<open>flatten_wrapper\<close>:
  \<^verbatim>\<open>while(tmp) { tmp->left = nullptr; tmp->parent = nullptr; tmp = tmp->right; }\<close>\<close>

partial_function (option) clear_links :: "('k, 'v) heap \<Rightarrow> addr option \<Rightarrow> ('k, 'v) heap res" where
  "clear_links h tmp = (if tmp \<noteq> None then
       bindE (upd h tmp (\<lambda>n. n\<lparr>left := None\<rparr>)) (\<lambda>h1.
       bindE (upd h1 tmp (\<lambda>n. n\<lparr>parent := None\<rparr>)) (\<lambda>h2.
       bindE (get h2 tmp) (\<lambda>n.
       clear_links h2 (right n))))
     else ret h)"

definition flatten_wrapper ::
    "('k, 'v) heap \<Rightarrow> addr option \<Rightarrow> addr option \<Rightarrow> (('k, 'v) heap \<times> addr option) res" where
  "flatten_wrapper h x y = bindE (flatten h x y) (\<lambda>(h1, n).
     bindE (clear_links h1 n) (\<lambda>h2. ret (h2, n)))"

text \<open>\<^verbatim>\<open>build(float n, Node* x)\<close>. The argument \<open>n\<close> is a node count that the source
  passes in a \<^verbatim>\<open>float\<close>; the model computes with the integer. A \<^verbatim>\<open>float\<close> holds every
  integer up to \<open>2^24\<close> exactly, and \<^verbatim>\<open>(n-1)/2\<close>, \<^verbatim>\<open>ceil\<close> and \<^verbatim>\<open>floor\<close> are exact on
  them, so the model is the source for the counts below \<open>2^24\<close>; a greater count is
  rounded when it is passed (16777217 becomes 16777216), which the model does not
  follow.\<close>

partial_function (option) build ::
    "('k, 'v) heap \<Rightarrow> int \<Rightarrow> addr option \<Rightarrow> (('k, 'v) heap \<times> addr option) res" where
  "build h n x = (if n = 0 then
       bindE (upd h x (\<lambda>n. n\<lparr>left := None\<rparr>)) (\<lambda>h1. ret (h1, x))
     else
       bindE (build h \<lceil>(of_int n - 1) / (2::real)\<rceil> x) (\<lambda>(h1, r).
       bindE (get h1 r) (\<lambda>rn.
       bindE (build h1 \<lfloor>(of_int n - 1) / (2::real)\<rfloor> (right rn)) (\<lambda>(h2, s).
       bindE (get h2 s) (\<lambda>sn.
       bindE (upd h2 r (\<lambda>n. n\<lparr>right := left sn\<rparr>)) (\<lambda>h3.
       bindE (get h3 r) (\<lambda>rn3.
       bindE (if right rn3 \<noteq> None then upd h3 (right rn3) (\<lambda>n. n\<lparr>parent := r\<rparr>) else ret h3) (\<lambda>h4.
       bindE (get h4 r) (\<lambda>rn4.
       bindE (if left rn4 \<noteq> None then upd h4 (left rn4) (\<lambda>n. n\<lparr>parent := r\<rparr>) else ret h4) (\<lambda>h5.
       bindE (upd h5 s (\<lambda>n. n\<lparr>left := r\<rparr>)) (\<lambda>h6.
       ret (h6, s))))))))))))"

text \<open>The rebuild at the root, as \<^verbatim>\<open>insert\<close> and \<^verbatim>\<open>erase\<close> both write it, once the
  sentinel \<open>w\<close> is allocated:
  \<^verbatim>\<open>root = flatten_wrapper(root, w); root = build(n, root)->left; max_size = tree_size;
  w->left = nullptr; delete w;\<close>\<close>

definition rebuild_root :: "('k, 'v) sgt \<Rightarrow> addr option \<Rightarrow> int \<Rightarrow> ('k, 'v) sgt res" where
  "rebuild_root T w n =
     bindE (flatten_wrapper (heap T) (root T) w) (\<lambda>(h1, z).
     let T1 = T\<lparr>heap := h1, root := z\<rparr> in
     bindE (build (heap T1) n (root T1)) (\<lambda>(h2, s).
     bindE (get h2 s) (\<lambda>sn.
     let T2 = T1\<lparr>heap := h2, root := left sn\<rparr>;
         T3 = T2\<lparr>max_size := tree_size T2\<rparr> in
     bindE (upd (heap T3) w (\<lambda>n. n\<lparr>left := None\<rparr>)) (\<lambda>h4.
     bindE (delete_node h4 w) (\<lambda>h5.
     ret (T3\<lparr>heap := h5\<rparr>))))))"

text \<open>The rebuild at the scapegoat \<open>scn\<close>, in \<^verbatim>\<open>insert\<close>:
  \<^verbatim>\<open>Node* w = new Node(Key(), Value());
  if(scn->parent == nullptr) { ... the rebuild at the root with n_size ... }
  Node* scn_parent = scn->parent; Node* z = flatten_wrapper(scn, w);
  scn = build(n_size, z)->left; scn->parent = scn_parent;
  if(comp(scn->pair->first, scn_parent->pair->first)) scn_parent->left = scn;
  else scn_parent->right = scn;
  max_size = tree_size; w->left = nullptr; delete w;\<close>\<close>

definition rebuild_at :: "('k::{linorder,default}, 'v::default) sgt \<Rightarrow> addr option \<Rightarrow> int \<Rightarrow> ('k, 'v) sgt res" where
  "rebuild_at T scn n_size =
     (let (T1, w) = new_node default default T in
      bindE (get (heap T1) scn) (\<lambda>sn.
      if parent sn = None then rebuild_root T1 w n_size
      else
        let scn_parent = parent sn in
        bindE (flatten_wrapper (heap T1) scn w) (\<lambda>(h2, z).
        bindE (build h2 n_size z) (\<lambda>(h3, s).
        bindE (get h3 s) (\<lambda>sn3.
        let scn' = left sn3 in
        bindE (upd h3 scn' (\<lambda>n. n\<lparr>parent := scn_parent\<rparr>)) (\<lambda>h4.
        bindE (get h4 scn') (\<lambda>sn4.
        bindE (get h4 scn_parent) (\<lambda>pn4.
        bindE (if fst (pair sn4) < fst (pair pn4)
               then upd h4 scn_parent (\<lambda>n. n\<lparr>left := scn'\<rparr>)
               else upd h4 scn_parent (\<lambda>n. n\<lparr>right := scn'\<rparr>)) (\<lambda>h5.
        let T5 = T1\<lparr>heap := h5, max_size := tree_size T1\<rparr> in
        bindE (upd (heap T5) w (\<lambda>n. n\<lparr>left := None\<rparr>)) (\<lambda>h6.
        bindE (delete_node h6 w) (\<lambda>h7.
        ret (T5\<lparr>heap := h7\<rparr>))))))))))))"

section \<open>Insertion\<close>

text \<open>The descent of \<^verbatim>\<open>insert\<close>: \<^verbatim>\<open>while(n) { tmp = n; depth++; ... }\<close>. It leaves the
  function from inside the loop when it meets a node with an equal key (\<open>Inl\<close> of that
  node), and otherwise ends with \<^verbatim>\<open>tmp\<close>, \<^verbatim>\<open>depth\<close>, \<^verbatim>\<open>left_most\<close> and
  \<^verbatim>\<open>right_most\<close>. The key compared is that of the new node, which is \<open>key\<close>.\<close>

partial_function (option) insert_loop ::
    "('k::linorder, 'v) heap \<Rightarrow> 'k \<Rightarrow> addr option \<Rightarrow> addr option \<Rightarrow> int \<Rightarrow> bool \<Rightarrow> bool
     \<Rightarrow> (addr option + addr option \<times> int \<times> bool \<times> bool) res" where
  "insert_loop h key n tmp depth left_most right_most =
     (if n \<noteq> None then
        bindE (get h n) (\<lambda>nn.
          if key < fst (pair nn) then insert_loop h key (left nn) n (depth + 1) left_most False
          else if \<not> key < fst (pair nn) \<and> \<not> fst (pair nn) < key then ret (Inl n)
          else insert_loop h key (right nn) n (depth + 1) False right_most)
      else ret (Inr (tmp, depth, left_most, right_most)))"

text \<open>The search for the scapegoat:
  \<^verbatim>\<open>while(tmp->parent != nullptr) { Node* scn = tmp->parent; int n_size = node_size(scn);
  if(!(node_size(scn->left) <= alpha * n_size && node_size(scn->right) <= alpha * n_size))
  { ... rebuild at scn, return ... } tmp = tmp->parent; }\<close>\<close>

partial_function (option) scapegoat_loop ::
    "('k::{linorder,default}, 'v::default) sgt \<Rightarrow> addr option \<Rightarrow> ('k, 'v) sgt res" where
  "scapegoat_loop T tmp = bindE (get (heap T) tmp) (\<lambda>tn.
     if parent tn \<noteq> None then
       (let scn = parent tn in
        bindE (node_size (heap T) scn) (\<lambda>n_size.
        bindE (get (heap T) scn) (\<lambda>sn.
        bindE (node_size (heap T) (left sn)) (\<lambda>ls.
        bindE (if of_int ls \<le> alpha * of_int n_size
               then bindE (node_size (heap T) (right sn)) (\<lambda>rs. ret (of_int rs \<le> alpha * of_int n_size))
               else ret False) (\<lambda>balanced.
        if \<not> balanced then rebuild_at T scn n_size
        else scapegoat_loop T (parent tn))))))
     else ret T)"

text \<open>\<^verbatim>\<open>insert(const Key& key, const Value& value)\<close>; the overload that takes rvalues has
  the same body. The result is the tree, the iterator and the flag.\<close>

definition insert_kv ::
    "('k::{linorder,default}, 'v::default) sgt \<Rightarrow> 'k \<Rightarrow> 'v \<Rightarrow> (('k, 'v) sgt \<times> addr option \<times> bool) res" where
  "insert_kv T key val =
     (let (T1, node) = new_node key val T in
      bindE (insert_loop (heap T1) key (root T1) None 0 True True) (\<lambda>r.
      case r of
        Inl n \<Rightarrow>
          bindE (get (heap T1) node) (\<lambda>node_n.
          bindE (get (heap T1) n) (\<lambda>nn.
          bindE (if snd (pair node_n) \<noteq> snd (pair nn)
                 then bindE (upd (heap T1) n (\<lambda>x. x\<lparr>pair := (fst (pair x), val)\<rparr>)) (\<lambda>h. ret (h, True))
                 else ret (heap T1, False)) (\<lambda>(h2, res_bool).
          bindE (delete_node h2 node) (\<lambda>h3.
          ret (T1\<lparr>heap := h3\<rparr>, n, res_bool)))))
      | Inr (tmp, depth, left_most, right_most) \<Rightarrow>
          bindE (upd (heap T1) node (\<lambda>x. x\<lparr>parent := tmp\<rparr>)) (\<lambda>h2.
          bindE (if tmp = None then ret (T1\<lparr>heap := h2, root := node\<rparr>)
                 else bindE (get h2 tmp) (\<lambda>tn.
                   if key < fst (pair tn)
                   then bindE (upd h2 tmp (\<lambda>x. x\<lparr>left := node\<rparr>)) (\<lambda>h3. ret (T1\<lparr>heap := h3\<rparr>))
                   else bindE (upd h2 tmp (\<lambda>x. x\<lparr>right := node\<rparr>)) (\<lambda>h3. ret (T1\<lparr>heap := h3\<rparr>)))) (\<lambda>T3.
          let T4 = T3\<lparr>tree_size := tree_size T3 + 1\<rparr>;
              T5 = T4\<lparr>max_size := max (max_size T4) (tree_size T4)\<rparr>;
              T6 = (if left_most then T5\<lparr>first := node\<rparr> else T5);
              T7 = (if right_most then T6\<lparr>last_node := node\<rparr> else T6)
          in bindE (if depth > h_alpha T7 \<and> tree_size T7 > 2 then scapegoat_loop T7 node else ret T7) (\<lambda>T8.
             ret (T8, node, True))))))"

section \<open>Deletion\<close>

text \<open>\<^verbatim>\<open>subtree_shift(u, v)\<close>\<close>

definition subtree_shift :: "('k, 'v) sgt \<Rightarrow> addr option \<Rightarrow> addr option \<Rightarrow> ('k, 'v) sgt res" where
  "subtree_shift T u v =
     bindE (get (heap T) u) (\<lambda>un.
     bindE (if parent un = None then ret (T\<lparr>root := v\<rparr>)
            else bindE (get (heap T) (parent un)) (\<lambda>pn.
              if u = left pn
              then bindE (upd (heap T) (parent un) (\<lambda>x. x\<lparr>left := v\<rparr>)) (\<lambda>h. ret (T\<lparr>heap := h\<rparr>))
              else bindE (upd (heap T) (parent un) (\<lambda>x. x\<lparr>right := v\<rparr>)) (\<lambda>h. ret (T\<lparr>heap := h\<rparr>)))) (\<lambda>T1.
     if v \<noteq> None then
       bindE (get (heap T1) u) (\<lambda>un1.
       bindE (upd (heap T1) v (\<lambda>x. x\<lparr>parent := parent un1\<rparr>)) (\<lambda>h. ret (T1\<lparr>heap := h\<rparr>)))
     else ret T1))"

text \<open>\<^verbatim>\<open>erase(const_iterator pos)\<close>\<close>

definition erase :: "('k::{linorder,default}, 'v::default) sgt \<Rightarrow> addr option \<Rightarrow> ('k, 'v) sgt res" where
  "erase T pos =
     (let node = pos in
      bindE (if first T = node then bindE (next_node (heap T) node) (\<lambda>f. ret (T\<lparr>first := f\<rparr>)) else ret T) (\<lambda>T1.
      bindE (if last_node T1 = node then bindE (prev_node (heap T1) node) (\<lambda>l. ret (T1\<lparr>last_node := l\<rparr>)) else ret T1) (\<lambda>T2.
      bindE (get (heap T2) node) (\<lambda>nn.
      bindE (if left nn = None then subtree_shift T2 node (right nn)
             else if right nn = None then subtree_shift T2 node (left nn)
             else
               bindE (next_node (heap T2) node) (\<lambda>y.
               bindE (get (heap T2) y) (\<lambda>yn.
               bindE (if parent yn \<noteq> node then
                        bindE (subtree_shift T2 y (right yn)) (\<lambda>T3.
                        bindE (get (heap T3) node) (\<lambda>nn3.
                        bindE (upd (heap T3) y (\<lambda>x. x\<lparr>right := right nn3\<rparr>)) (\<lambda>h4.
                        bindE (get h4 y) (\<lambda>yn4.
                        bindE (upd h4 (right yn4) (\<lambda>x. x\<lparr>parent := y\<rparr>)) (\<lambda>h5.
                        ret (T3\<lparr>heap := h5\<rparr>))))))
                      else ret T2) (\<lambda>T6.
               bindE (subtree_shift T6 node y) (\<lambda>T7.
               bindE (get (heap T7) node) (\<lambda>nn7.
               bindE (upd (heap T7) y (\<lambda>x. x\<lparr>left := left nn7\<rparr>)) (\<lambda>h8.
               bindE (get h8 y) (\<lambda>yn8.
               bindE (upd h8 (left yn8) (\<lambda>x. x\<lparr>parent := y\<rparr>)) (\<lambda>h9.
               ret (T7\<lparr>heap := h9\<rparr>)))))))))) (\<lambda>T10.
      let T11 = T10\<lparr>tree_size := tree_size T10 - 1\<rparr> in
      bindE (upd (heap T11) node (\<lambda>x. x\<lparr>left := None, right := None\<rparr>)) (\<lambda>h12.
      bindE (delete_node h12 node) (\<lambda>h13.
      let T13 = T11\<lparr>heap := h13\<rparr> in
      if of_int (tree_size T13) < alpha * of_int (max_size T13) then
        (let (T14, w) = new_node default default T13 in rebuild_root T14 w (tree_size T14))
      else ret T13)))))))"

text \<open>\<^verbatim>\<open>erase(const Key& key)\<close>: \<^verbatim>\<open>auto pos = find(key); erase(pos);\<close>\<close>

definition erase_key :: "('k::{linorder,default}, 'v::default) sgt \<Rightarrow> 'k \<Rightarrow> ('k, 'v) sgt res" where
  "erase_key T key = bindE (find_key T key) (\<lambda>pos. erase T pos)"

section \<open>Equality\<close>

text \<open>A pointer used as a condition is true when it is not null.\<close>

definition is_ptr :: "addr option \<Rightarrow> bool" where
  "is_ptr p \<longleftrightarrow> p \<noteq> None"

text \<open>The loop of \<^verbatim>\<open>operator==\<close>: \<open>tmp\<close> walks this tree, \<open>n\<close> the other one. The first
  test of the body is
  \<^verbatim>\<open>(tmp.ptr->parent || n.ptr->parent) && (!tmp.ptr->parent || !n.ptr->parent)\<close>;
  its second conjunct is written here as the negation of a conjunction.\<close>

partial_function (option) eq_loop ::
    "('k::linorder, 'v) heap \<Rightarrow> ('k, 'v) heap \<Rightarrow> addr option \<Rightarrow> addr option \<Rightarrow> bool res" where
  "eq_loop h ho tmp n =
     (if n \<noteq> None then
        bindE (get h tmp) (\<lambda>tn.
        bindE (get ho n) (\<lambda>nn.
        if (is_ptr (parent tn) \<or> is_ptr (parent nn)) \<and> \<not> (is_ptr (parent tn) \<and> is_ptr (parent nn))
        then ret False
        else
          bindE (if parent tn \<noteq> None then
                   bindE (get h (parent tn)) (\<lambda>tp.
                   bindE (get ho (parent nn)) (\<lambda>np.
                   ret (fst (pair tp) \<noteq> fst (pair np) \<or> snd (pair tp) \<noteq> snd (pair np))))
                 else ret False) (\<lambda>parents_differ.
          if parents_differ then ret False
          else if fst (pair tn) \<noteq> fst (pair nn) \<or> snd (pair tn) \<noteq> snd (pair nn) then ret False
          else
            bindE (next_node h tmp) (\<lambda>tmp'.
            bindE (next_node ho n) (\<lambda>n'.
            eq_loop h ho tmp' n')))))
      else ret True)"

text \<open>\<^verbatim>\<open>operator==(const Tree& other)\<close>\<close>

definition tree_eq :: "('k::linorder, 'v) sgt \<Rightarrow> ('k, 'v) sgt \<Rightarrow> bool res" where
  "tree_eq T other =
     (if tree_size T \<noteq> tree_size other then ret False
      else eq_loop (heap T) (heap other) (begin_it T) (begin_it other))"

section \<open>Copying\<close>

text \<open>\<^verbatim>\<open>copy_helper\<close> reads the nodes of the other tree in the store \<open>ho\<close> and makes the
  new nodes in the tree \<open>T\<close> under construction.\<close>

partial_function (option) copy_helper ::
    "('k, 'v) heap \<Rightarrow> ('k, 'v) sgt \<Rightarrow> addr option \<Rightarrow> (('k, 'v) sgt \<times> addr option) res" where
  "copy_helper ho T r =
     (if r = None then ret (T, None)
      else
        bindE (get ho r) (\<lambda>rn.
        let (T1, n) = new_node (fst (pair rn)) (snd (pair rn)) T in
        bindE (if left rn \<noteq> None then
                 bindE (copy_helper ho T1 (left rn)) (\<lambda>(T2, c).
                 bindE (upd (heap T2) n (\<lambda>x. x\<lparr>left := c\<rparr>)) (\<lambda>h3.
                 bindE (get h3 n) (\<lambda>nn.
                 if left nn \<noteq> None
                 then bindE (upd h3 (left nn) (\<lambda>x. x\<lparr>parent := n\<rparr>)) (\<lambda>h4. ret (T2\<lparr>heap := h4\<rparr>))
                 else ret (T2\<lparr>heap := h3\<rparr>))))
               else ret T1) (\<lambda>T5.
        bindE (if right rn \<noteq> None then
                 bindE (copy_helper ho T5 (right rn)) (\<lambda>(T6, c).
                 bindE (upd (heap T6) n (\<lambda>x. x\<lparr>right := c\<rparr>)) (\<lambda>h7.
                 bindE (get h7 n) (\<lambda>nn.
                 if right nn \<noteq> None
                 then bindE (upd h7 (right nn) (\<lambda>x. x\<lparr>parent := n\<rparr>)) (\<lambda>h8. ret (T6\<lparr>heap := h8\<rparr>))
                 else ret (T6\<lparr>heap := h7\<rparr>))))
               else ret T5) (\<lambda>T9.
        ret (T9, n)))))"

text \<open>What the copy constructor and the copy assignment share, from
  \<^verbatim>\<open>if(other.root) root = copy_helper(other.root);\<close> on: the copy, then the two scans
  \<^verbatim>\<open>auto n = root; while(n->left) n = n->left; first = n;
  n = root; while(n->right) n = n->right; last = n;\<close>\<close>

definition copy_from :: "('k, 'v) sgt \<Rightarrow> ('k, 'v) sgt \<Rightarrow> ('k, 'v) sgt res" where
  "copy_from T other =
     bindE (if root other \<noteq> None
            then bindE (copy_helper (heap other) T (root other)) (\<lambda>(T1, r). ret (T1\<lparr>root := r\<rparr>))
            else ret T) (\<lambda>T2.
     bindE (leftmost (heap T2) (root T2)) (\<lambda>n.
     let T3 = T2\<lparr>first := n\<rparr> in
     bindE (rightmost (heap T3) (root T3)) (\<lambda>n.
     ret (T3\<lparr>last_node := n\<rparr>))))"

text \<open>\<^verbatim>\<open>Tree(const Tree& other)\<close>: a new object; \<^verbatim>\<open>first\<close> and \<^verbatim>\<open>last\<close> have no
  value until the scans assign them.\<close>

definition Tree_copy :: "('k, 'v) sgt \<Rightarrow> ('k, 'v) sgt res" where
  "Tree_copy other =
     copy_from (Tree_new\<lparr>tree_size := tree_size other, max_size := max_size other, root := None\<rparr>) other"

text \<open>\<^verbatim>\<open>operator=(const Tree& other)\<close>, for another tree than this one.\<close>

definition assign_copy :: "('k, 'v) sgt \<Rightarrow> ('k, 'v) sgt \<Rightarrow> ('k, 'v) sgt res" where
  "assign_copy T other =
     bindE (delete_node (heap T) (root T)) (\<lambda>h1.
     copy_from (T\<lparr>heap := h1, root := None, tree_size := tree_size other, max_size := max_size other\<rparr>) other)"

section \<open>The driver's instance\<close>

text \<open>The driver uses \<^verbatim>\<open>Tree<int, std::string>\<close>: \<^verbatim>\<open>int()\<close> is \<open>0\<close> and
  \<^verbatim>\<open>std::string()\<close> is the empty string.\<close>

instantiation int :: default
begin
definition default_int :: int where "default_int = 0"
instance ..
end

instantiation list :: (type) default
begin
definition default_list :: "'a list" where "default_list = []"
instance ..
end

text \<open>A run of inserts, as the driver makes it from its input; it stops at the first
  call that does not return a tree.\<close>

fun inserts :: "('k::{linorder,default}, 'v::default) sgt \<Rightarrow> ('k \<times> 'v) list \<Rightarrow> ('k, 'v) sgt res" where
  "inserts T [] = ret T"
| "inserts T ((k, v) # kvs) = bindE (insert_kv T k v) (\<lambda>(T1, it, b). inserts T1 kvs)"

text \<open>The tree after \<^verbatim>\<open>insert(1, "")\<close> into the empty tree.\<close>

definition one_node :: "(int, string) sgt" where
  "one_node = \<lparr>root = Some 0, first = Some 0, last_node = Some 0, tree_size = 1, max_size = 1,
     heap = [0 \<mapsto> \<lparr>parent = None, left = None, right = None, pair = (1, [])\<rparr>], nxt = 1\<rparr>"

text \<open>The tree after \<^verbatim>\<open>insert(1, "")\<close> and \<^verbatim>\<open>insert(2, "")\<close> into the empty tree, and
  the tree after the inserts of the keys 2, 1, 3, 4 and \<^verbatim>\<open>erase(4)\<close>.\<close>

definition two_nodes :: "(int, string) sgt" where
  "two_nodes = \<lparr>root = Some 0, first = Some 0, last_node = Some 1, tree_size = 2, max_size = 2,
     heap = [1 \<mapsto> \<lparr>parent = Some 0, left = None, right = None, pair = (2, [])\<rparr>,
             0 \<mapsto> \<lparr>parent = None, left = None, right = Some 1, pair = (1, [])\<rparr>], nxt = 2\<rparr>"

definition three_nodes :: "(int, string) sgt" where
  "three_nodes = \<lparr>root = Some 0, first = Some 1, last_node = Some 2, tree_size = 3, max_size = 4,
     heap = [1 \<mapsto> \<lparr>parent = Some 0, left = None, right = None, pair = (1, [])\<rparr>,
             0 \<mapsto> \<lparr>parent = None, left = Some 1, right = Some 2, pair = (2, [])\<rparr>,
             2 \<mapsto> \<lparr>parent = Some 0, left = None, right = None, pair = (3, [])\<rparr>], nxt = 4\<rparr>"

section \<open>Concrete stores\<close>

text \<open>A store of four nodes, with the keys 1 to 4 at the addresses 0 to 3, the root at the
  address 1 and a chain of two right children below it, and a fresh node at the address 4,
  as \<^verbatim>\<open>new Node(Key(), Value())\<close> makes the sentinel; and the shape of its tree.\<close>

definition four_nodes :: "(int, string) heap" where
  "four_nodes = [
     0 \<mapsto> \<lparr>parent = Some 1, left = None, right = None, pair = (1, [])\<rparr>,
     1 \<mapsto> \<lparr>parent = None, left = Some 0, right = Some 2, pair = (2, [])\<rparr>,
     2 \<mapsto> \<lparr>parent = Some 1, left = None, right = Some 3, pair = (3, [])\<rparr>,
     3 \<mapsto> \<lparr>parent = Some 2, left = None, right = None, pair = (4, [])\<rparr>,
     4 \<mapsto> \<lparr>parent = None, left = None, right = None, pair = (0, [])\<rparr>]"

definition four_shape :: "addr tree" where
  "four_shape = \<langle>\<langle>\<langle>\<rangle>, 0, \<langle>\<rangle>\<rangle>, 1, \<langle>\<langle>\<rangle>, 2, \<langle>\<langle>\<rangle>, 3, \<langle>\<rangle>\<rangle>\<rangle>\<rangle>"

section \<open>The tree a store holds\<close>

text \<open>
  The theorems about arbitrary trees need to say which trees a store holds. The shape of a
  tree is a binary tree of addresses. \<open>reps h par p t\<close>: in the store \<open>h\<close>, the pointer
  \<open>p\<close> is the root of a tree of the shape \<open>t\<close>, whose root has the parent pointer
  \<open>par\<close> and in which every child points back to its parent.
\<close>

fun reps :: "('k, 'v) heap \<Rightarrow> addr option \<Rightarrow> addr option \<Rightarrow> addr tree \<Rightarrow> bool" where
  "reps h par p Leaf \<longleftrightarrow> p = None"
| "reps h par p (Node l a r) \<longleftrightarrow> p = Some a \<and>
     (case h a of None \<Rightarrow> False
      | Some n \<Rightarrow> parent n = par \<and> reps h (Some a) (left n) l \<and> reps h (Some a) (right n) r)"

text \<open>The key at an address, and the keys of a shape in order.\<close>

definition key_of :: "('k, 'v) heap \<Rightarrow> addr \<Rightarrow> 'k" where
  "key_of h a = fst (pair (the (h a)))"

definition keys :: "('k, 'v) heap \<Rightarrow> addr tree \<Rightarrow> 'k list" where
  "keys h t = map (key_of h) (inorder t)"

text \<open>The search of \<^verbatim>\<open>find\<close> on a shape.\<close>

fun lookup_addr :: "('k::linorder, 'v) heap \<Rightarrow> addr tree \<Rightarrow> 'k \<Rightarrow> addr option" where
  "lookup_addr h Leaf k = None"
| "lookup_addr h (Node l a r) k =
     (if key_of h a = k then Some a
      else if k < key_of h a then lookup_addr h l k else lookup_addr h r k)"

text \<open>\<open>chain h p as q\<close>: following \<^verbatim>\<open>right\<close> pointers from \<open>p\<close> visits the nodes \<open>as\<close>
  and then arrives at \<open>q\<close>. This is the list that \<^verbatim>\<open>flatten\<close> makes.\<close>

fun chain :: "('k, 'v) heap \<Rightarrow> addr option \<Rightarrow> addr list \<Rightarrow> addr option \<Rightarrow> bool" where
  "chain h p [] q \<longleftrightarrow> p = q"
| "chain h p (a # as) q \<longleftrightarrow> p = Some a \<and>
     (case h a of None \<Rightarrow> False | Some n \<Rightarrow> chain h (right n) as q)"

text \<open>What \<^verbatim>\<open>flatten\<close> and the loop of \<^verbatim>\<open>flatten_wrapper\<close> change in the store; a
  change of links leaves the pairs as they are.\<close>

definition right_only :: "('k, 'v) heap \<Rightarrow> ('k, 'v) heap \<Rightarrow> addr set \<Rightarrow> bool" where
  "right_only h h' A \<longleftrightarrow> (\<forall>a. a \<notin> A \<longrightarrow> h' a = h a) \<and>
     (\<forall>a\<in>A. \<exists>n r. h a = Some n \<and> h' a = Some (n\<lparr>right := r\<rparr>))"

definition cleared :: "('k, 'v) heap \<Rightarrow> ('k, 'v) heap \<Rightarrow> addr set \<Rightarrow> bool" where
  "cleared h h' A \<longleftrightarrow> (\<forall>a. a \<notin> A \<longrightarrow> h' a = h a) \<and>
     (\<forall>a\<in>A. \<exists>n. h a = Some n \<and> h' a = Some (n\<lparr>left := None, parent := None\<rparr>))"

definition setp :: "('k, 'v) heap \<Rightarrow> addr option \<Rightarrow> addr option \<Rightarrow> ('k, 'v) heap" where
  "setp h p par = (case p of None \<Rightarrow> h
     | Some a \<Rightarrow> (case h a of None \<Rightarrow> h | Some n \<Rightarrow> h(a \<mapsto> n\<lparr>parent := par\<rparr>)))"

definition same_pairs :: "('k, 'v) heap \<Rightarrow> ('k, 'v) heap \<Rightarrow> bool" where
  "same_pairs h h' \<longleftrightarrow> (\<forall>a. map_option pair (h' a) = map_option pair (h a))"

text \<open>The shape that \<^verbatim>\<open>build\<close> gives to a chain of \<open>n\<close> nodes: the first
  \<open>\<lceil>(n-1)/2\<rceil> = n div 2\<close> nodes go left, the next node is the root, and the remaining
  \<open>\<lfloor>(n-1)/2\<rfloor>\<close> nodes go right.\<close>

function build_tree :: "nat \<Rightarrow> 'a list \<Rightarrow> 'a tree" where
  "build_tree n as = (if n = 0 then Leaf
     else Node (build_tree (n div 2) (take (n div 2) as)) (as ! (n div 2))
               (build_tree ((n - 1) div 2) (drop (n div 2 + 1) as)))"
  by pat_completeness auto

termination
  by (relation "measure fst") auto

declare build_tree.simps [simp del]

text \<open>The depths of the leaves (the nodes without children) of a shape; the root has the
  depth 0.\<close>

fun leaf_depths :: "'a tree \<Rightarrow> nat list" where
  "leaf_depths Leaf = []"
| "leaf_depths (Node l a r) =
     (if l = Leaf \<and> r = Leaf then [0] else map Suc (leaf_depths l @ leaf_depths r))"


section \<open>The invariant of the tree object\<close>

text \<open>\<open>tree_inv T t\<close>: the nodes reachable from \<^verbatim>\<open>root\<close> form the binary tree \<open>t\<close>
  of addresses with correct parent pointers, no node occurs twice, the keys read in order
  are strictly increasing, \<^verbatim>\<open>tree_size\<close> is the number of nodes and at most
  \<^verbatim>\<open>max_size\<close>, \<^verbatim>\<open>first\<close> and \<^verbatim>\<open>last\<close> are the nodes of the least and the greatest
  key, and nothing is allocated at or above the next free address.\<close>

definition tree_inv :: "('k::linorder, 'v) sgt \<Rightarrow> addr tree \<Rightarrow> bool" where
  "tree_inv T t \<longleftrightarrow> reps (heap T) None (root T) t \<and> distinct (inorder t) \<and>
     sorted_wrt (<) (keys (heap T) t) \<and>
     tree_size T = int (size t) \<and> tree_size T \<le> max_size T \<and>
     first T = (if inorder t = [] then None else Some (hd (inorder t))) \<and>
     last_node T = (if inorder t = [] then None else Some (last (inorder t))) \<and>
     (\<forall>a. nxt T \<le> a \<longrightarrow> heap T a = None)"

text \<open>The descent of \<^verbatim>\<open>insert\<close> on a shape: the node of an equal key, or the last node
  seen with the depth and the two flags.\<close>

fun ins_path :: "('k::linorder, 'v) heap \<Rightarrow> 'k \<Rightarrow> addr tree \<Rightarrow> addr option \<Rightarrow> int \<Rightarrow> bool \<Rightarrow> bool
    \<Rightarrow> addr option + addr option \<times> int \<times> bool \<times> bool" where
  "ins_path h k Leaf tmp d lm rm = Inr (tmp, d, lm, rm)"
| "ins_path h k (Node l a r) tmp d lm rm =
     (if k < key_of h a then ins_path h k l (Some a) (d + 1) lm False
      else if \<not> k < key_of h a \<and> \<not> key_of h a < k then Inl (Some a)
      else ins_path h k r (Some a) (d + 1) False rm)"

text \<open>The shape after the new node \<open>x\<close> of key \<open>k\<close> has been attached where the
  descent ended.\<close>

fun ins_tree :: "('k::linorder, 'v) heap \<Rightarrow> 'k \<Rightarrow> addr \<Rightarrow> addr tree \<Rightarrow> addr tree" where
  "ins_tree h k x Leaf = Node Leaf x Leaf"
| "ins_tree h k x (Node l a r) =
     (if k < key_of h a then Node (ins_tree h k x l) a r else Node l a (ins_tree h k x r))"

text \<open>The subtree at the node \<open>a\<close>, the shape with the subtree at \<open>a\<close> replaced by
  \<open>s\<close>, and the number of edges from the root down to \<open>a\<close>.\<close>

fun sub :: "addr tree \<Rightarrow> addr \<Rightarrow> addr tree" where
  "sub Leaf a = Leaf"
| "sub (Node l b r) a = (if a = b then Node l b r else if a \<in> set_tree l then sub l a else sub r a)"

fun repl :: "addr tree \<Rightarrow> addr \<Rightarrow> addr tree \<Rightarrow> addr tree" where
  "repl Leaf a s = Leaf"
| "repl (Node l b r) a s =
     (if a = b then s else if a \<in> set_tree l then Node (repl l a s) b r else Node l b (repl r a s))"

fun depth :: "addr tree \<Rightarrow> addr \<Rightarrow> nat" where
  "depth Leaf a = 0"
| "depth (Node l b r) a =
     (if a = b then 0 else if a \<in> set_tree l then Suc (depth l a) else Suc (depth r a))"

text \<open>The tree object after \<^verbatim>\<open>insert\<close> has attached the new node under \<open>tmp\<close> and
  updated \<^verbatim>\<open>root\<close>, the sizes, \<^verbatim>\<open>first\<close> and \<^verbatim>\<open>last\<close>, before it looks for a
  scapegoat.\<close>

definition attach :: "('k::linorder, 'v) sgt \<Rightarrow> 'k \<Rightarrow> 'v \<Rightarrow> addr option \<Rightarrow> bool \<Rightarrow> bool \<Rightarrow> ('k, 'v) sgt" where
  "attach T k v tmp lm rm =
     (let x = nxt T;
          xn = \<lparr>parent = tmp, left = None, right = None, pair = (k, v)\<rparr>;
          h2 = (heap T)(x \<mapsto> xn);
          h3 = (case tmp of None \<Rightarrow> h2
                | Some q \<Rightarrow> h2(q \<mapsto> (if k < key_of (heap T) q then (the (heap T q))\<lparr>left := Some x\<rparr>
                                        else (the (heap T q))\<lparr>right := Some x\<rparr>)))
      in T\<lparr>nxt := x + 1, heap := h3, root := (if tmp = None then Some x else root T),
           tree_size := tree_size T + 1, max_size := max (max_size T) (tree_size T + 1),
           first := (if lm then Some x else first T),
           last_node := (if rm then Some x else last_node T)\<rparr>)"

section \<open>Deletion on shapes\<close>

text \<open>The least node of a shape with the shape that remains when its right subtree takes
  its place; the shape when the root is removed as \<^verbatim>\<open>erase\<close> does it (the right
  subtree, the left subtree, or the successor moved to the root); and the shape when the
  node \<open>a\<close> is removed.\<close>

fun take_min :: "addr tree \<Rightarrow> addr \<times> addr tree" where
  "take_min Leaf = (0, Leaf)"
| "take_min (Node l a r) = (if l = Leaf then (a, r) else (fst (take_min l), Node (snd (take_min l)) a r))"

fun del_root :: "addr tree \<Rightarrow> addr tree" where
  "del_root Leaf = Leaf"
| "del_root (Node l a r) =
     (if l = Leaf then r else if r = Leaf then l else Node l (fst (take_min r)) (snd (take_min r)))"

definition del_tree :: "addr tree \<Rightarrow> addr \<Rightarrow> addr tree" where
  "del_tree t a = repl t a (del_root (sub t a))"

text \<open>The tree object after \<^verbatim>\<open>subtree_shift(u, v)\<close>, when the nodes it reads are
  allocated.\<close>

definition shift :: "('k, 'v) sgt \<Rightarrow> addr \<Rightarrow> addr option \<Rightarrow> ('k, 'v) sgt" where
  "shift T u v =
     (let un = the (heap T u);
          T1 = (case parent un of None \<Rightarrow> T\<lparr>root := v\<rparr>
                | Some q \<Rightarrow> T\<lparr>heap := (heap T)(q \<mapsto>
                    (if Some u = left (the (heap T q)) then (the (heap T q))\<lparr>left := v\<rparr>
                     else (the (heap T q))\<lparr>right := v\<rparr>))\<rparr>)
      in case v of None \<Rightarrow> T1
         | Some c \<Rightarrow> T1\<lparr>heap := (heap T1)(c \<mapsto> (the (heap T1 c))\<lparr>parent := parent (the (heap T1 u))\<rparr>)\<rparr>)"

text \<open>The two halves of \<^verbatim>\<open>erase(pos)\<close> after \<^verbatim>\<open>first\<close> and \<^verbatim>\<open>last\<close> have been
  updated: the case distinction that takes the node out of the tree, and the rest (the
  size, the deletion of the node, the rebuild of the whole tree).\<close>

definition erase_unlink :: "('k::linorder, 'v) sgt \<Rightarrow> addr option \<Rightarrow> ('k, 'v) sgt res" where
  "erase_unlink T2 node =
      bindE (get (heap T2) node) (\<lambda>nn.
      if left nn = None then subtree_shift T2 node (right nn)
             else if right nn = None then subtree_shift T2 node (left nn)
             else
               bindE (next_node (heap T2) node) (\<lambda>y.
               bindE (get (heap T2) y) (\<lambda>yn.
               bindE (if parent yn \<noteq> node then
                        bindE (subtree_shift T2 y (right yn)) (\<lambda>T3.
                        bindE (get (heap T3) node) (\<lambda>nn3.
                        bindE (upd (heap T3) y (\<lambda>x. x\<lparr>right := right nn3\<rparr>)) (\<lambda>h4.
                        bindE (get h4 y) (\<lambda>yn4.
                        bindE (upd h4 (right yn4) (\<lambda>x. x\<lparr>parent := y\<rparr>)) (\<lambda>h5.
                        ret (T3\<lparr>heap := h5\<rparr>))))))
                      else ret T2) (\<lambda>T6.
               bindE (subtree_shift T6 node y) (\<lambda>T7.
               bindE (get (heap T7) node) (\<lambda>nn7.
               bindE (upd (heap T7) y (\<lambda>x. x\<lparr>left := left nn7\<rparr>)) (\<lambda>h8.
               bindE (get h8 y) (\<lambda>yn8.
               bindE (upd h8 (left yn8) (\<lambda>x. x\<lparr>parent := y\<rparr>)) (\<lambda>h9.
               ret (T7\<lparr>heap := h9\<rparr>))))))))))"

definition erase_finish :: "('k::{linorder,default}, 'v::default) sgt \<Rightarrow> addr option \<Rightarrow> ('k, 'v) sgt res" where
  "erase_finish T10 node =
     (let T11 = T10\<lparr>tree_size := tree_size T10 - 1\<rparr> in
      bindE (upd (heap T11) node (\<lambda>x. x\<lparr>left := None, right := None\<rparr>)) (\<lambda>h12.
      bindE (delete_node h12 node) (\<lambda>h13.
      let T13 = T11\<lparr>heap := h13\<rparr> in
      if of_int (tree_size T13) < alpha * of_int (max_size T13) then
        (let (T14, w) = new_node default default T13 in rebuild_root T14 w (tree_size T14))
      else ret T13)))"

text \<open>What the first half establishes: the heap holds the shape without \<open>a\<close>, the node
  \<open>a\<close> itself and all pairs are untouched, and so is the rest of the tree object.\<close>

definition unlinked :: "('k, 'v) sgt \<Rightarrow> addr tree \<Rightarrow> addr \<Rightarrow> ('k, 'v) sgt \<Rightarrow> bool" where
  "unlinked T t a T' \<longleftrightarrow>
     reps (heap T') None (root T') (del_tree t a) \<and> same_pairs (heap T) (heap T') \<and>
     (\<forall>x. x \<notin> set_tree t \<longrightarrow> heap T' x = heap T x) \<and> heap T' a = heap T a \<and>
     first T' = first T \<and> last_node T' = last_node T \<and> tree_size T' = tree_size T \<and>
     max_size T' = max_size T \<and> nxt T' = nxt T"

section \<open>Sequences of operations\<close>

text \<open>The \<^verbatim>\<open>insert\<close> and \<^verbatim>\<open>erase\<close> commands of the driver (\<^verbatim>\<open>test/main.cpp\<close>, function
  \<^verbatim>\<open>SGT\<close>), which calls \<^verbatim>\<open>tree.insert(key, value)\<close> and \<^verbatim>\<open>tree.erase(key)\<close>, run one after
  the other.\<close>

datatype ('k, 'v) operation = Insert 'k 'v | Erase 'k

fun run :: "('k::{linorder,default}, 'v::default) sgt \<Rightarrow> ('k, 'v) operation list \<Rightarrow> ('k, 'v) sgt res" where
  "run T [] = ret T"
| "run T (Insert k v # ops) = bindE (insert_kv T k v) (\<lambda>(T1, it, b). run T1 ops)"
| "run T (Erase k # ops) = bindE (erase_key T k) (\<lambda>T1. run T1 ops)"

text \<open>The keys that are held after a sequence of operations, starting from the keys \<open>K\<close>;
  \<open>None\<close> when an \<^verbatim>\<open>erase\<close> asks for a key that is not held at that moment.\<close>

fun present_keys :: "'k set \<Rightarrow> ('k, 'v) operation list \<Rightarrow> 'k set option" where
  "present_keys K [] = Some K"
| "present_keys K (Insert k v # ops) = present_keys (insert k K) ops"
| "present_keys K (Erase k # ops) = (if k \<in> K then present_keys (K - {k}) ops else None)"

section \<open>Weight balance\<close>

text \<open>Every node of the shape satisfies the two inequalities of the balance test of
  \<^verbatim>\<open>insert\<close>: \<^verbatim>\<open>node_size(x->left) <= alpha * node_size(x)\<close> and the same for the
  right child.\<close>

fun weight_balanced :: "addr tree \<Rightarrow> bool" where
  "weight_balanced Leaf = True"
| "weight_balanced (Node l a r) =
     (real (size l) \<le> alpha * real (size (Node l a r)) \<and>
      real (size r) \<le> alpha * real (size (Node l a r)) \<and>
      weight_balanced l \<and> weight_balanced r)"

text \<open>The two inequalities at the root of a shape: the test that the scapegoat search of
  \<^verbatim>\<open>insert\<close> makes at a node \<^verbatim>\<open>scn\<close>.\<close>

fun node_balanced :: "addr tree \<Rightarrow> bool" where
  "node_balanced Leaf = True"
| "node_balanced (Node l a r) =
     (real (size l) \<le> alpha * real (size (Node l a r)) \<and>
      real (size r) \<le> alpha * real (size (Node l a r)))"

text \<open>The scapegoat that the search of \<^verbatim>\<open>insert\<close> finds from the node \<open>x\<close>: the search
  goes from the parent of \<open>x\<close> upwards and stops at the first node that fails the test, so
  it finds the deepest proper ancestor of \<open>x\<close> that fails it, if there is one.\<close>

fun scapegoat :: "addr tree \<Rightarrow> addr \<Rightarrow> addr option" where
  "scapegoat Leaf x = None"
| "scapegoat (Node l b r) x =
     (if x = b then None
      else if x \<in> set_tree l then
        (case scapegoat l x of Some s \<Rightarrow> Some s
         | None \<Rightarrow> if node_balanced (Node l b r) then None else Some b)
      else
        (case scapegoat r x of Some s \<Rightarrow> Some s
         | None \<Rightarrow> if node_balanced (Node l b r) then None else Some b))"

text \<open>The shape after the search: the subtree at the scapegoat is replaced by what
  \<^verbatim>\<open>build\<close> makes of its nodes.\<close>

definition rebuilt :: "addr tree \<Rightarrow> addr \<Rightarrow> addr tree" where
  "rebuilt t x = (case scapegoat t x of None \<Rightarrow> t
     | Some scn \<Rightarrow> repl t scn (build_tree (size (sub t scn)) (inorder (sub t scn))))"

section \<open>Running the model\<close>

lemma bindE_simps [simp]:
  "bindE (ret x) f = f x"
  "bindE (fail e) f = fail e"
  "bindE None f = None"
  by (simp_all add: bindE_def ret_def fail_def)

lemma ret_fail_simps [simp]:
  "ret x = ret y \<longleftrightarrow> x = y"
  "ret x \<noteq> fail e"
  "fail e \<noteq> ret x"
  "ret x \<noteq> None"
  "fail e \<noteq> None"
  "None \<noteq> ret x"
  "None \<noteq> fail e"
  "fail e = fail e' \<longleftrightarrow> e = e'"
  by (simp_all add: ret_def fail_def)

text \<open>With this congruence rule the simplifier runs a program in the order of its
  statements: it evaluates the first computation of a \<open>bindE\<close> before it looks at the
  rest.\<close>

lemma bindE_weak_cong: "m = m' \<Longrightarrow> bindE m f = bindE m' f"
  by simp

lemma get_simps [simp]:
  "get h None = fail NullDeref"
  "h a = Some n \<Longrightarrow> get h (Some a) = ret n"
  "h a = None \<Longrightarrow> get h (Some a) = fail DanglingDeref"
  by (simp_all add: get_def)

lemma upd_simps [simp]:
  "upd h None f = fail NullDeref"
  "h a = Some n \<Longrightarrow> upd h (Some a) f = ret (h(a \<mapsto> f n))"
  "h a = None \<Longrightarrow> upd h (Some a) f = fail DanglingDeref"
  by (simp_all add: upd_def)

lemmas run_simps =
  scapegoat_loop.simps insert_loop.simps delete_node.simps clear_links.simps
  rightmost.simps leftmost.simps find_loop.simps flatten.simps build.simps copy_helper.simps
  eq_loop.simps traverse.simps node_size.simps h_alpha_search.simps
  insert_kv_def new_node_def Tree_new_def h_alpha_def alpha_def rebuild_at_def rebuild_root_def
  flatten_wrapper_def next_node_def prev_node_def begin_it_def end_it_def empty_t_def find_key_def
  erase_def erase_key_def subtree_shift_def tree_eq_def copy_from_def Tree_copy_def assign_copy_def
  is_ptr_def default_int_def default_list_def Let_def

lemma one_node_insert: "insert_kv Tree_new 1 [] = ret (one_node, Some 0, True)"
  by (simp add: run_simps one_node_def split del: if_split cong: bindE_weak_cong)

lemma two_nodes_inserts: "inserts Tree_new [(1, []), (2, [])] = ret two_nodes"
  by (simp add: run_simps two_nodes_def split del: if_split cong: bindE_weak_cong)

lemma three_nodes_run:
  "run Tree_new [Insert 2 [], Insert 1 [], Insert 3 [], Insert 4 [], Erase 4] = ret three_nodes"
  by (simp add: run_simps three_nodes_def numeral_2_eq_2 split del: if_split cong: bindE_weak_cong)


section \<open>Lemmas: shapes, chains and the rebuild\<close>

lemma reps_None [simp]: "reps h par None t \<longleftrightarrow> t = Leaf"
  by (cases t) auto

lemma reps_Some: "reps h par (Some a) t \<longleftrightarrow>
  (\<exists>l r n. t = Node l a r \<and> h a = Some n \<and> parent n = par \<and>
     reps h (Some a) (left n) l \<and> reps h (Some a) (right n) r)"
  by (cases t) (auto split: option.splits)

lemma reps_frame: "(\<And>a. a \<in> set_tree t \<Longrightarrow> h' a = h a) \<Longrightarrow> reps h' par p t = reps h par p t"
  by (induction t arbitrary: par p) (auto split: option.splits)

lemma reps_alloc: "reps h par p t \<Longrightarrow> a \<in> set_tree t \<Longrightarrow> h a \<noteq> None"
  by (induction t arbitrary: par p) (auto split: option.splits)

lemma find_loop_reps:
  "reps h par p t \<Longrightarrow> find_loop h k p = ret (lookup_addr h t k)"
proof (induction t arbitrary: par p)
  case Leaf
  then show ?case by (simp add: find_loop.simps)
next
  case (Node l a r)
  then show ?case
    by (subst find_loop.simps) (auto simp: key_of_def split: option.splits)
qed

lemma lookup_addr_Some: "lookup_addr h t k = Some a \<Longrightarrow> a \<in> set_tree t \<and> key_of h a = k"
  by (induction t) (auto split: if_splits)

lemma lookup_addr_None: "sorted_wrt (<) (keys h t) \<Longrightarrow> lookup_addr h t k = None \<Longrightarrow> k \<notin> set (keys h t)"
  by (induction t) (auto simp: keys_def sorted_wrt_append split: if_splits)

lemma lookup_addr_mem: "sorted_wrt (<) (keys h t) \<Longrightarrow> a \<in> set_tree t \<Longrightarrow> lookup_addr h t (key_of h a) = Some a"
  by (induction t) (auto simp: keys_def sorted_wrt_append)

lemma chain_frame: "(\<And>a. a \<in> set as \<Longrightarrow> h' a = h a) \<Longrightarrow> chain h' p as q = chain h p as q"
  by (induction as arbitrary: p) (auto split: option.splits)

lemma chain_append: "chain h p (as @ bs) q \<longleftrightarrow> (\<exists>m. chain h p as m \<and> chain h m bs q)"
  by (induction as arbitrary: p) (auto split: option.splits)

lemma right_only_refl: "right_only h h {}"
  by (simp add: right_only_def)

lemma right_only_upd: "h a = Some n \<Longrightarrow> right_only h (h(a \<mapsto> n\<lparr>right := r\<rparr>)) {a}"
  by (auto simp: right_only_def)

lemma right_only_trans:
  assumes "right_only h h1 A" "right_only h1 h2 B"
  shows "right_only h h2 (A \<union> B)"
  unfolding right_only_def
proof (intro conjI allI ballI impI)
  fix a assume "a \<notin> A \<union> B"
  then show "h2 a = h a" using assms by (simp add: right_only_def)
next
  fix a assume a: "a \<in> A \<union> B"
  show "\<exists>n r. h a = Some n \<and> h2 a = Some (n\<lparr>right := r\<rparr>)"
  proof (cases "a \<in> B")
    case True
    then obtain n1 r where 1: "h1 a = Some n1" "h2 a = Some (n1\<lparr>right := r\<rparr>)"
      using assms(2) by (auto simp: right_only_def)
    show ?thesis
    proof (cases "a \<in> A")
      case True
      then obtain n r' where 2: "h a = Some n" "h1 a = Some (n\<lparr>right := r'\<rparr>)"
        using assms(1) by (auto simp: right_only_def)
      with 1 show ?thesis by auto
    next
      case False
      then have "h1 a = h a" using assms(1) by (simp add: right_only_def)
      with 1 show ?thesis by auto
    qed
  next
    case False
    then have 1: "h2 a = h1 a" using assms(2) by (simp add: right_only_def)
    from False a have "a \<in> A" by simp
    then obtain n r' where 2: "h a = Some n" "h1 a = Some (n\<lparr>right := r'\<rparr>)"
      using assms(1) by (auto simp: right_only_def)
    with 1 show ?thesis by auto
  qed
qed

lemma right_only_same: "right_only h h' A \<Longrightarrow> a \<notin> A \<Longrightarrow> h' a = h a"
  by (simp add: right_only_def)

lemma flatten_reps:
  "reps h par x t \<Longrightarrow> distinct (inorder t) \<Longrightarrow>
   \<exists>h' z. flatten h x y = ret (h', z) \<and> chain h' z (inorder t) y \<and> right_only h h' (set_tree t)"
proof (induction t arbitrary: h par x y)
  case Leaf
  then show ?case by (subst flatten.simps) (simp add: right_only_def)
next
  case (Node l a r)
  from Node.prems obtain an where an: "x = Some a" "h a = Some an"
    "reps h (Some a) (left an) l" "reps h (Some a) (right an) r"
    by (auto split: option.splits)
  from Node.prems have d: "distinct (inorder l)" "distinct (inorder r)" "a \<notin> set_tree l" "a \<notin> set_tree r"
    "set_tree l \<inter> set_tree r = {}"
    by auto
  from Node.IH(2)[OF an(4) d(2), of y] obtain h1 zr where
    1: "flatten h (right an) y = ret (h1, zr)" "chain h1 zr (inorder r) y" "right_only h h1 (set_tree r)"
    by blast
  have h1a: "h1 a = Some an" using 1(3) d(4) an(2) by (simp add: right_only_def)
  define h2 where "h2 = h1(a \<mapsto> an\<lparr>right := zr\<rparr>)"
  have l2: "reps h2 (Some a) (left an) l"
    using an(3) 1(3) d by (subst reps_frame[where h = h]) (auto simp: h2_def right_only_def)
  from Node.IH(1)[OF l2 d(1), of "Some a"] obtain h3 zl where
    3: "flatten h2 (left an) (Some a) = ret (h3, zl)" "chain h3 zl (inorder l) (Some a)" "right_only h2 h3 (set_tree l)"
    by blast
  have h3a: "h3 a = Some (an\<lparr>right := zr\<rparr>)" using 3(3) d(3) by (simp add: right_only_def h2_def)
  have c3: "chain h3 zr (inorder r) y"
    using 1(2) 3(3) d by (subst chain_frame[where h = h1]) (auto simp: right_only_def h2_def)
  have fl: "flatten h x y = ret (h3, zl)"
    by (subst flatten.simps) (simp add: an(1,2) 1(1) h1a 3(1)[unfolded h2_def])
  have "right_only h1 h2 {a}"
    unfolding h2_def using h1a by (rule right_only_upd)
  from right_only_trans[OF right_only_trans[OF 1(3) this] 3(3)]
  have ro: "right_only h h3 (set_tree (Node l a r))"
    by (simp add: Un_commute Un_left_commute insert_commute)
  show ?case using fl 3(2) h3a c3 ro by (auto simp: chain_append)
qed

lemma chain_right_frame:
  "(\<And>a. a \<in> set as \<Longrightarrow> map_option right (h' a) = map_option right (h a)) \<Longrightarrow>
   chain h' p as q = chain h p as q"
proof (induction as arbitrary: p)
  case Nil
  then show ?case by simp
next
  case (Cons a as)
  have "map_option right (h' a) = map_option right (h a)" using Cons.prems by simp
  moreover have "chain h' p' as q = chain h p' as q" for p' using Cons by simp
  ultimately show ?case by (cases "h a"; cases "h' a") auto
qed

lemma chain_snoc:
  "chain h p (as @ [c]) q \<longleftrightarrow> chain h p as (Some c) \<and> (\<exists>n. h c = Some n \<and> right n = q)"
  by (auto simp: chain_append split: option.splits)

lemma clear_links_chain:
  "chain h z as None \<Longrightarrow> distinct as \<Longrightarrow>
   \<exists>h'. clear_links h z = ret h' \<and> cleared h h' (set as)"
proof (induction as arbitrary: h z)
  case Nil
  then show ?case by (subst clear_links.simps) (simp add: cleared_def)
next
  case (Cons a as)
  from Cons.prems obtain n where n: "z = Some a" "h a = Some n" "chain h (right n) as None"
    by (auto split: option.splits)
  define h2 where "h2 = h(a \<mapsto> n\<lparr>left := None, parent := None\<rparr>)"
  have "chain h2 (right n) as None"
    using n(3) Cons.prems(2) by (subst chain_frame[where h = h]) (auto simp: h2_def)
  from Cons.IH[OF this] Cons.prems(2) obtain h' where h': "clear_links h2 (right n) = ret h'" "cleared h2 h' (set as)"
    by auto
  have "clear_links h z = ret h'"
    by (subst clear_links.simps) (simp add: n h'(1)[unfolded h2_def])
  moreover have "cleared h h' (set (a # as))"
    unfolding cleared_def
  proof (intro conjI allI ballI impI)
    fix b assume "b \<notin> set (a # as)"
    then show "h' b = h b" using h'(2) by (simp add: cleared_def h2_def)
  next
    fix b assume b: "b \<in> set (a # as)"
    show "\<exists>n. h b = Some n \<and> h' b = Some (n\<lparr>left := None, parent := None\<rparr>)"
    proof (cases "b = a")
      case True
      then have "h' b = h2 b" using h'(2) Cons.prems(2) by (simp add: cleared_def)
      then show ?thesis using True n(2) by (simp add: h2_def)
    next
      case False
      then have "b \<in> set as" using b by simp
      then obtain m where "h2 b = Some m" "h' b = Some (m\<lparr>left := None, parent := None\<rparr>)"
        using h'(2) by (auto simp: cleared_def)
      then show ?thesis using False by (simp add: h2_def)
    qed
  qed
  ultimately show ?case by blast
qed

lemma ceiling_half: "0 < n \<Longrightarrow> \<lceil>(of_int (int n) - 1) / (2::real)\<rceil> = int (n div 2)"
proof -
  assume "0 < n"
  have "(of_int (int n) - 1) / (2::real) = of_int (int n - 1) / of_int 2" by simp
  then have "\<lceil>(of_int (int n) - 1) / (2::real)\<rceil> = - (- (int n - 1) div 2)"
    by (simp only: ceiling_divide_eq_div)
  also have "\<dots> = int (n div 2)" using \<open>0 < n\<close> by (simp add: zdiv_int)
  finally show ?thesis .
qed

lemma floor_half: "0 < n \<Longrightarrow> \<lfloor>(of_int (int n) - 1) / (2::real)\<rfloor> = int ((n - 1) div 2)"
proof -
  assume "0 < n"
  have "(of_int (int n) - 1) / (2::real) = of_int (int n - 1) / of_int 2" by simp
  then have "\<lfloor>(of_int (int n) - 1) / (2::real)\<rfloor> = (int n - 1) div 2"
    by (simp only: floor_divide_of_int_eq)
  also have "\<dots> = int ((n - 1) div 2)" using \<open>0 < n\<close> by (simp add: zdiv_int of_nat_diff)
  finally show ?thesis .
qed

lemma inorder_build_tree: "length as = n \<Longrightarrow> inorder (build_tree n as) = as"
proof (induction n as rule: build_tree.induct)
  case (1 n as)
  show ?case
  proof (cases "n = 0")
    case True
    then show ?thesis using 1 by (simp add: build_tree.simps)
  next
    case False
    have a: "inorder (build_tree (n div 2) (take (n div 2) as)) = take (n div 2) as"
      using 1 False by simp
    have "length (drop (n div 2 + 1) as) = (n - 1) div 2" using 1(3) False by simp
    then have b: "inorder (build_tree ((n - 1) div 2) (drop (n div 2 + 1) as)) = drop (n div 2 + 1) as"
      using 1 False by simp
    have "n div 2 < length as" using 1(3) False by simp
    then have "take (n div 2) as @ as ! (n div 2) # drop (n div 2 + 1) as = as"
      by (simp add: id_take_nth_drop[symmetric])
    then show ?thesis using False a b by (subst build_tree.simps) simp
  qed
qed

lemma reps_root: "reps h par p t \<Longrightarrow> p = None \<and> t = Leaf \<or> (\<exists>a n. p = Some a \<and> h a = Some n \<and> a \<in> set_tree t)"
  by (cases t) (auto split: option.splits)

lemma upd_setp:
  "p = None \<or> (\<exists>a n. p = Some a \<and> h a = Some n) \<Longrightarrow>
   (if p \<noteq> None then upd h p (\<lambda>n. n\<lparr>parent := par\<rparr>) else ret h) = ret (setp h p par)"
  by (auto simp: setp_def)

lemma reps_reparent:
  assumes "reps h par p t" "distinct (inorder t)"
    and "\<And>a. a \<in> set_tree t \<Longrightarrow> Some a \<noteq> p \<Longrightarrow> h' a = h a"
    and "\<And>a n. p = Some a \<Longrightarrow> h a = Some n \<Longrightarrow> h' a = Some (n\<lparr>parent := par'\<rparr>)"
  shows "reps h' par' p t"
proof (cases t)
  case Leaf
  then show ?thesis using assms(1) by simp
next
  case (Node l a r)
  with assms(1) obtain n where n: "p = Some a" "h a = Some n" "reps h p (left n) l" "reps h p (right n) r"
    by (auto split: option.splits)
  have d: "a \<notin> set_tree l" "a \<notin> set_tree r" using assms(2) Node by auto
  have "reps h' p (left n) l"
    using n(3) d assms(3) Node n(1) by (subst reps_frame[where h = h]) auto
  moreover have "reps h' p (right n) r"
    using n(4) d assms(3) Node n(1) by (subst reps_frame[where h = h]) auto
  ultimately show ?thesis using Node n assms(4)[OF n(1,2)] by simp
qed

lemma same_pairs_refl [simp]: "same_pairs h h"
  by (simp add: same_pairs_def)

lemma same_pairs_trans: "same_pairs h h1 \<Longrightarrow> same_pairs h1 h2 \<Longrightarrow> same_pairs h h2"
  by (simp add: same_pairs_def)

lemma same_pairs_upd: "h a = Some n \<Longrightarrow> pair n' = pair n \<Longrightarrow> same_pairs h (h(a \<mapsto> n'))"
  by (simp add: same_pairs_def)

lemma same_pairs_setp: "same_pairs h (setp h p par)"
  by (auto simp: same_pairs_def setp_def split: option.splits)

lemma setp_other: "p \<noteq> Some a \<Longrightarrow> setp h p par a = h a"
  by (auto simp: setp_def split: option.splits)

lemma setp_root: "h a = Some n \<Longrightarrow> setp h (Some a) par a = Some (n\<lparr>parent := par\<rparr>)"
  by (simp add: setp_def)

lemma set_build_tree: "length as = n \<Longrightarrow> set_tree (build_tree n as) = set as"
  using inorder_build_tree[of as n] by (metis set_inorder)

lemma ceiling_half': "0 < n \<Longrightarrow> \<lceil>(real n - 1) / 2\<rceil> = int (n div 2)"
  using ceiling_half[of n] by simp

lemma floor_half': "0 < n \<Longrightarrow> \<lfloor>(real n - 1) / 2\<rfloor> = int ((n - 1) div 2)"
  using floor_half[of n] by simp

lemma build_chain:
  fixes h :: "('k, 'v) heap"
  assumes "chain h x (as @ [b]) q" "distinct (as @ [b])" "length as = n"
    and "\<forall>a m. a \<in> set as \<longrightarrow> h a = Some m \<longrightarrow> parent m = None"
  shows "\<exists>h' r bn. build h (int n) x = ret (h', Some b) \<and> h b = Some bn \<and> h' b = Some (bn\<lparr>left := r\<rparr>) \<and>
           reps h' None r (build_tree n as) \<and> (\<forall>a. a \<notin> set as \<longrightarrow> a \<noteq> b \<longrightarrow> h' a = h a) \<and> same_pairs h h'"
  using assms
proof (induction n arbitrary: h x as b q rule: less_induct)
  case (less n)
  show ?case
  proof (cases "n = 0")
    case True
    with less.prems have as: "as = []" by simp
    with less.prems(1) obtain bn where bn: "x = Some b" "h b = Some bn"
      by (auto split: option.splits)
    have "build h (int n) x = ret (h(b \<mapsto> bn\<lparr>left := None\<rparr>), Some b)"
      using True bn by (subst build.simps) simp
    moreover have "reps (h(b \<mapsto> bn\<lparr>left := None\<rparr>)) None None (build_tree n as)"
      using True by (simp add: build_tree.simps)
    moreover have "same_pairs h (h(b \<mapsto> bn\<lparr>left := None\<rparr>))"
      using bn by (simp add: same_pairs_upd)
    ultimately show ?thesis using bn by fastforce
  next
    case False
    define m where "m = n div 2"
    define k where "k = (n - 1) div 2"
    define as1 where "as1 = take m as"
    define c where "c = as ! m"
    define as2 where "as2 = drop (m + 1) as"
    have mk: "m < n" "k < n" "m + 1 + k = n"
      using False by (auto simp: m_def k_def)
    have as: "as = as1 @ c # as2"
      using mk less.prems(3) by (simp add: as1_def c_def as2_def id_take_nth_drop[symmetric])
    have len: "length as1 = m" "length as2 = k"
      using mk less.prems(3) by (auto simp: as1_def as2_def)
    have dist: "distinct as1" "distinct as2" "c \<notin> set as1" "c \<notin> set as2" "b \<notin> set as1" "b \<notin> set as2"
      "c \<noteq> b" "set as1 \<inter> set as2 = {}"
      using less.prems(2) unfolding as by auto
    from less.prems(1) have "chain h x ((as1 @ [c]) @ (as2 @ [b])) q"
      by (simp add: as)
    then obtain mid where mid: "chain h x (as1 @ [c]) mid" "chain h mid (as2 @ [b]) q"
      unfolding chain_append[of h x "as1 @ [c]"] by blast
    from mid(1) obtain cn where cn: "h c = Some cn" "right cn = mid"
      unfolding chain_snoc by blast
    have pc: "parent cn = None" using less.prems(4) cn by (simp add: as)
    \<comment> \<open>the first call\<close>
    have d1: "distinct (as1 @ [c])" using dist by simp
    have p1: "\<forall>a m. a \<in> set as1 \<longrightarrow> h a = Some m \<longrightarrow> parent m = None"
      using less.prems(4) by (simp add: as)
    from less.IH[OF mk(1) mid(1) d1 len(1) p1] obtain h1 r1 cn' where
      1: "build h (int m) x = ret (h1, Some c)" "h c = Some cn'" "h1 c = Some (cn'\<lparr>left := r1\<rparr>)"
         "reps h1 None r1 (build_tree m as1)" "\<forall>a. a \<notin> set as1 \<longrightarrow> a \<noteq> c \<longrightarrow> h1 a = h a" "same_pairs h h1"
      by blast
    have cn': "cn' = cn" using 1(2) cn(1) by simp
    \<comment> \<open>the second call\<close>
    have c2: "chain h1 mid (as2 @ [b]) q"
      using mid(2) 1(5) dist by (subst chain_frame[where h = h]) auto
    have d2: "distinct (as2 @ [b])" using dist by simp
    have p2: "\<forall>a m. a \<in> set as2 \<longrightarrow> h1 a = Some m \<longrightarrow> parent m = None"
      using less.prems(4) 1(5) dist by (auto simp: as)
    from less.IH[OF mk(2) c2 d2 len(2) p2] obtain h2 r2 bn where
      2: "build h1 (int k) mid = ret (h2, Some b)" "h1 b = Some bn" "h2 b = Some (bn\<lparr>left := r2\<rparr>)"
         "reps h2 None r2 (build_tree k as2)" "\<forall>a. a \<notin> set as2 \<longrightarrow> a \<noteq> b \<longrightarrow> h2 a = h1 a" "same_pairs h1 h2"
      by blast
    have hb: "h b = Some bn" using 2(2) 1(5) dist by simp
    have h2c: "h2 c = Some (cn\<lparr>left := r1\<rparr>)" using 1(3) 2(5) dist cn' by simp
    \<comment> \<open>the roots of the two parts\<close>
    have st1: "set_tree (build_tree m as1) = set as1" using len by (simp add: set_build_tree)
    have st2: "set_tree (build_tree k as2) = set as2" using len by (simp add: set_build_tree)
    have r1: "r1 = None \<or> (\<exists>a n. r1 = Some a \<and> h1 a = Some n \<and> a \<in> set as1)"
      using reps_root[OF 1(4)] st1 by auto
    have r2: "r2 = None \<or> (\<exists>a n. r2 = Some a \<and> h2 a = Some n \<and> a \<in> set as2)"
      using reps_root[OF 2(4)] st2 by auto
    have r1n: "r1 \<noteq> Some c" "r1 \<noteq> Some b" "r2 \<noteq> Some c" "r2 \<noteq> Some b" using r1 r2 dist by auto
    have r12: "r1 = None \<or> r1 \<noteq> r2" using r1 r2 dist by auto
    \<comment> \<open>the heaps of the linking step\<close>
    define h3 where "h3 = h2(c \<mapsto> cn\<lparr>left := r1, right := r2\<rparr>)"
    define h4 where "h4 = setp h3 r2 (Some c)"
    define h5 where "h5 = setp h4 r1 (Some c)"
    define h6 where "h6 = h5(b \<mapsto> bn\<lparr>left := Some c\<rparr>)"
    have a3: "r2 = None \<or> (\<exists>a n. r2 = Some a \<and> h3 a = Some n)"
      using r2 dist by (auto simp: h3_def)
    have h4c: "h4 c = Some (cn\<lparr>left := r1, right := r2\<rparr>)"
      using r1n by (simp add: h4_def setp_other h3_def)
    have a4: "r1 = None \<or> (\<exists>a n. r1 = Some a \<and> h4 a = Some n)"
    proof (cases r1)
      case None
      then show ?thesis by simp
    next
      case (Some a)
      with r1 obtain n where "h1 a = Some n" "a \<in> set as1" by auto
      then have "h4 a = Some n" using 2(5) dist r12 Some by (auto simp: h4_def setp_other h3_def)
      then show ?thesis using Some by simp
    qed
    have h5b: "h5 b = Some (bn\<lparr>left := r2\<rparr>)"
      using r1n 2(3) dist by (simp add: h5_def h4_def setp_other h3_def)
    have g1: "get h1 (Some c) = ret (cn\<lparr>left := r1\<rparr>)" using 1(3) cn' by simp
    have g2: "get h2 (Some b) = ret (bn\<lparr>left := r2\<rparr>)" using 2(3) by simp
    have s3: "upd h2 (Some c) (\<lambda>n. n\<lparr>right := r2\<rparr>) = ret h3" by (simp add: h3_def h2c)
    have g3: "get h3 (Some c) = ret (cn\<lparr>left := r1, right := r2\<rparr>)" by (simp add: h3_def)
    have s4: "(if r2 \<noteq> None then upd h3 r2 (\<lambda>n. n\<lparr>parent := Some c\<rparr>) else ret h3) = ret h4"
      unfolding h4_def by (rule upd_setp[OF a3])
    have g4: "get h4 (Some c) = ret (cn\<lparr>left := r1, right := r2\<rparr>)" by (simp add: h4c)
    have s5: "(if r1 \<noteq> None then upd h4 r1 (\<lambda>n. n\<lparr>parent := Some c\<rparr>) else ret h4) = ret h5"
      unfolding h5_def by (rule upd_setp[OF a4])
    have s6: "upd h5 (Some b) (\<lambda>n. n\<lparr>left := Some c\<rparr>) = ret h6" by (simp add: h6_def h5b)
    have pos: "0 < n" using False by simp
    have b1: "build h (int (n div 2)) x = ret (h1, Some c)" using 1(1) by (simp add: m_def)
    have b2: "build h1 (int ((n - Suc 0) div 2)) mid = ret (h2, Some b)" using 2(1) by (simp add: k_def)
    have comp: "build h (int n) x = ret (h6, Some b)"
      by (subst build.simps)
        (simp add: False pos ceiling_half' floor_half' b1 g1 cn(2) b2 g2 s3 g3 s4 g4 s5 s6
          del: not_None_eq split del: if_split cong: bindE_weak_cong cong del: if_weak_cong)
    have fr: "\<forall>a. a \<notin> set as \<longrightarrow> a \<noteq> b \<longrightarrow> h6 a = h a"
    proof (intro allI impI)
      fix a assume a: "a \<notin> set as" "a \<noteq> b"
      then have n: "a \<notin> set as1" "a \<notin> set as2" "a \<noteq> c" by (auto simp: as)
      then have "r1 \<noteq> Some a" "r2 \<noteq> Some a" using r1 r2 by auto
      then have "h6 a = h2 a" using a n by (simp add: h6_def h5_def h4_def h3_def setp_other)
      then show "h6 a = h a" using 1(5) 2(5) a n by simp
    qed
    have h6c: "h6 c = Some (cn\<lparr>left := r1, right := r2\<rparr>)"
      using r1n dist by (simp add: h6_def h5_def setp_other h4c)
    have t1: "reps h6 (Some c) r1 (build_tree m as1)"
    proof (rule reps_reparent[OF 1(4)])
      show "distinct (inorder (build_tree m as1))" using dist len by (simp add: inorder_build_tree)
    next
      fix a assume a: "a \<in> set_tree (build_tree m as1)" "Some a \<noteq> r1"
      then have n: "a \<in> set as1" using st1 by simp
      then have "a \<notin> set as2" "a \<noteq> c" "a \<noteq> b" using dist by auto
      moreover from this have "r2 \<noteq> Some a" using r2 by auto
      ultimately show "h6 a = h1 a" using a(2) 2(5) by (simp add: h6_def h5_def h4_def h3_def setp_other)
    next
      fix a n assume a: "r1 = Some a" "h1 a = Some n"
      then have "a \<in> set as1" using r1 by auto
      then have n': "a \<notin> set as2" "a \<noteq> c" "a \<noteq> b" using dist by auto
      then have "r2 \<noteq> Some a" using r2 by auto
      then have "h4 a = Some n" using a n' 2(5) by (simp add: h4_def h3_def setp_other)
      then show "h6 a = Some (n\<lparr>parent := Some c\<rparr>)" using a n' by (simp add: h6_def h5_def setp_root)
    qed
    have t2: "reps h6 (Some c) r2 (build_tree k as2)"
    proof (rule reps_reparent[OF 2(4)])
      show "distinct (inorder (build_tree k as2))" using dist len by (simp add: inorder_build_tree)
    next
      fix a assume a: "a \<in> set_tree (build_tree k as2)" "Some a \<noteq> r2"
      then have n: "a \<in> set as2" using st2 by simp
      then have "a \<notin> set as1" "a \<noteq> c" "a \<noteq> b" using dist by auto
      moreover from this have "r1 \<noteq> Some a" using r1 by auto
      ultimately show "h6 a = h2 a" using a(2) by (simp add: h6_def h5_def h4_def h3_def setp_other)
    next
      fix a n assume a: "r2 = Some a" "h2 a = Some n"
      then have "a \<in> set as2" using r2 by auto
      then have n': "a \<notin> set as1" "a \<noteq> c" "a \<noteq> b" using dist by auto
      then have "r1 \<noteq> Some a" using r1 by auto
      moreover have "h3 a = Some n" using a n' by (simp add: h3_def)
      ultimately show "h6 a = Some (n\<lparr>parent := Some c\<rparr>)"
        using a n' by (simp add: h6_def h5_def h4_def setp_root setp_other)
    qed
    have bt: "build_tree n as = Node (build_tree m as1) c (build_tree k as2)"
      using False by (subst build_tree.simps) (simp add: m_def k_def as1_def c_def as2_def)
    have rp: "reps h6 None (Some c) (build_tree n as)"
      unfolding bt using h6c t1 t2 pc by simp
    have sp: "same_pairs h h6"
    proof -
      have "same_pairs h2 h3" unfolding h3_def using h2c by (simp add: same_pairs_def)
      moreover have "same_pairs h3 h4" unfolding h4_def by (rule same_pairs_setp)
      moreover have "same_pairs h4 h5" unfolding h5_def by (rule same_pairs_setp)
      moreover have "same_pairs h5 h6" unfolding h6_def using h5b by (simp add: same_pairs_def)
      ultimately show ?thesis using 1(6) 2(6) by (blast intro: same_pairs_trans)
    qed
    have "h6 b = Some (bn\<lparr>left := Some c\<rparr>)" by (simp add: h6_def)
    with comp hb rp fr sp show ?thesis by blast
  qed
qed

lemma right_only_same_pairs: "right_only h h' A \<Longrightarrow> same_pairs h h'"
  unfolding right_only_def same_pairs_def
proof (intro allI)
  fix a assume r: "(\<forall>a. a \<notin> A \<longrightarrow> h' a = h a) \<and> (\<forall>a\<in>A. \<exists>n r. h a = Some n \<and> h' a = Some (n\<lparr>right := r\<rparr>))"
  show "map_option pair (h' a) = map_option pair (h a)"
  proof (cases "a \<in> A")
    case True
    with r obtain n r' where "h a = Some n" "h' a = Some (n\<lparr>right := r'\<rparr>)" by blast
    then show ?thesis by simp
  next
    case False
    with r show ?thesis by simp
  qed
qed

lemma cleared_same_pairs: "cleared h h' A \<Longrightarrow> same_pairs h h'"
  unfolding cleared_def same_pairs_def
proof (intro allI)
  fix a assume r: "(\<forall>a. a \<notin> A \<longrightarrow> h' a = h a) \<and>
     (\<forall>a\<in>A. \<exists>n. h a = Some n \<and> h' a = Some (n\<lparr>left := None, parent := None\<rparr>))"
  show "map_option pair (h' a) = map_option pair (h a)"
  proof (cases "a \<in> A")
    case True
    with r obtain n where "h a = Some n" "h' a = Some (n\<lparr>left := None, parent := None\<rparr>)" by blast
    then show ?thesis by simp
  next
    case False
    with r show ?thesis by simp
  qed
qed

lemma cleared_right: "cleared h h' A \<Longrightarrow> map_option right (h' a) = map_option right (h a)"
proof -
  assume r: "cleared h h' A"
  show ?thesis
  proof (cases "a \<in> A")
    case True
    with r obtain n where "h a = Some n" "h' a = Some (n\<lparr>left := None, parent := None\<rparr>)"
      unfolding cleared_def by blast
    then show ?thesis by simp
  next
    case False
    with r show ?thesis by (simp add: cleared_def)
  qed
qed

lemma delete_single:
  "h w = Some n \<Longrightarrow> left n = None \<Longrightarrow> right n = None \<Longrightarrow> delete_node h (Some w) = ret (h(w := None))"
  by (subst delete_node.simps) (simp add: delete_node.simps[of _ None])

lemma flatten_build:
  fixes h :: "('k, 'v) heap"
  assumes "reps h par x t" "distinct (inorder t)" "w \<notin> set_tree t" "h w = Some wn" "right wn = None"
  shows "\<exists>h1 z h2 r wn'. flatten_wrapper h x (Some w) = ret (h1, z) \<and>
           build h1 (int (size t)) z = ret (h2, Some w) \<and>
           h2 w = Some wn' \<and> left wn' = r \<and> right wn' = None \<and>
           reps h2 None r (build_tree (size t) (inorder t)) \<and>
           (\<forall>a. a \<notin> set_tree t \<longrightarrow> a \<noteq> w \<longrightarrow> h2 a = h a) \<and> same_pairs h h2"
proof -
  from flatten_reps[OF assms(1,2), of "Some w"] obtain h0 z where
    0: "flatten h x (Some w) = ret (h0, z)" "chain h0 z (inorder t) (Some w)" "right_only h h0 (set_tree t)"
    by blast
  have h0w: "h0 w = Some wn" using 0(3) assms(3,4) by (simp add: right_only_def)
  have c0: "chain h0 z (inorder t @ [w]) None"
    using 0(2) h0w assms(5) by (simp add: chain_snoc)
  have d: "distinct (inorder t @ [w])" using assms(2,3) by simp
  from clear_links_chain[OF c0 d] obtain h1 where
    1: "clear_links h0 z = ret h1" "cleared h0 h1 (set (inorder t @ [w]))"
    by blast
  have fw: "flatten_wrapper h x (Some w) = ret (h1, z)"
    by (simp add: flatten_wrapper_def 0(1) 1(1))
  have c1: "chain h1 z (inorder t @ [w]) None"
    using c0 cleared_right[OF 1(2)] by (subst chain_right_frame[where h = h0]) auto
  have p1: "\<forall>a m. a \<in> set (inorder t) \<longrightarrow> h1 a = Some m \<longrightarrow> parent m = None"
    using 1(2) by (fastforce simp: cleared_def)
  have h1w: "h1 w = Some (wn\<lparr>left := None, parent := None\<rparr>)"
    using 1(2) h0w by (fastforce simp: cleared_def)
  from build_chain[OF c1 d _ p1, of "size t"] obtain h2 r bn where
    2: "build h1 (int (size t)) z = ret (h2, Some w)" "h1 w = Some bn" "h2 w = Some (bn\<lparr>left := r\<rparr>)"
       "reps h2 None r (build_tree (size t) (inorder t))"
       "\<forall>a. a \<notin> set (inorder t) \<longrightarrow> a \<noteq> w \<longrightarrow> h2 a = h1 a" "same_pairs h1 h2"
    by (auto simp: length_inorder)
  have bn: "bn = wn\<lparr>left := None, parent := None\<rparr>" using 2(2) h1w by simp
  have fr: "\<forall>a. a \<notin> set_tree t \<longrightarrow> a \<noteq> w \<longrightarrow> h2 a = h a"
    using 2(5) 1(2) 0(3) by (simp add: cleared_def right_only_def)
  have sp: "same_pairs h h2"
    using right_only_same_pairs[OF 0(3)] cleared_same_pairs[OF 1(2)] 2(6)
    by (blast intro: same_pairs_trans)
  show ?thesis
    using fw 2(1) 2(3) 2(4) fr sp assms(5) by (simp add: bn)
qed

lemma size_build_tree: "length as = n \<Longrightarrow> size (build_tree n as) = n"
  using inorder_build_tree[of as n] by (metis length_inorder)

lemma build_tree_leaf_depths:
  "d \<in> set (leaf_depths (build_tree n as)) \<Longrightarrow> 2 ^ d \<le> n \<and> n + 1 < 2 ^ (d + 2)"
proof (induction n as arbitrary: d rule: build_tree.induct)
  case (1 n as)
  show ?case
  proof (cases "n = 0")
    case True
    then show ?thesis using 1(3) by (simp add: build_tree.simps)
  next
    case False
    let ?l = "build_tree (n div 2) (take (n div 2) as)"
    let ?r = "build_tree ((n - 1) div 2) (drop (n div 2 + 1) as)"
    have bt: "build_tree n as = Node ?l (as ! (n div 2)) ?r"
      using False by (subst build_tree.simps) simp
    show ?thesis
    proof (cases "?l = Leaf \<and> ?r = Leaf")
      case True
      have "n div 2 = 0"
      proof (rule ccontr)
        assume "n div 2 \<noteq> 0"
        then have "?l \<noteq> Leaf" by (subst build_tree.simps) simp
        with True show False by simp
      qed
      then have "n = 1" using False by presburger
      moreover have "d = 0" using 1(3) True unfolding bt by simp
      ultimately show ?thesis by simp
    next
      case F: False
      then obtain d' where d': "d = Suc d'" "d' \<in> set (leaf_depths ?l) \<or> d' \<in> set (leaf_depths ?r)"
        using 1(3) unfolding bt by auto
      define p :: nat where "p = 2 ^ d'"
      from d'(2) show ?thesis
      proof
        assume "d' \<in> set (leaf_depths ?l)"
        from 1(1)[OF False this] have "2 ^ d' \<le> n div 2" "n div 2 + 1 < 2 ^ (d' + 2)" by auto
        then have "p \<le> n div 2" "n div 2 + 1 < 4 * p" by (simp_all add: p_def)
        moreover have "2 * (n div 2) \<le> n" "n \<le> 2 * (n div 2) + 1" by simp_all
        ultimately have "2 * p \<le> n \<and> n + 1 < 8 * p" by linarith
        then show ?thesis unfolding d'(1) by (simp add: p_def)
      next
        assume "d' \<in> set (leaf_depths ?r)"
        from 1(2)[OF False this] have "2 ^ d' \<le> (n - 1) div 2" "(n - 1) div 2 + 1 < 2 ^ (d' + 2)" by auto
        then have "p \<le> (n - 1) div 2" "(n - 1) div 2 + 1 < 4 * p" by (simp_all add: p_def)
        moreover have "2 * ((n - 1) div 2) \<le> n - 1" "n - 1 \<le> 2 * ((n - 1) div 2) + 1" by simp_all
        ultimately have "2 * p \<le> n \<and> n + 1 < 8 * p" using False by linarith
        then show ?thesis unfolding d'(1) by (simp add: p_def)
      qed
    qed
  qed
qed

lemma leaf_depth_log:
  assumes "2 ^ d \<le> n" "n + 1 < 2 ^ (d + 2)"
  shows "int d = \<lfloor>log 2 (real n)\<rfloor> \<or> int d = \<lfloor>log 2 (real n)\<rfloor> - 1"
proof -
  have n: "0 < n" using assms(1) by (cases n) auto
  define f where "f = nat \<lfloor>log 2 (real n)\<rfloor>"
  have "0 \<le> \<lfloor>log 2 (real n)\<rfloor>" using n by simp
  then have fl: "\<lfloor>log 2 (real n)\<rfloor> = int f" by (simp add: f_def)
  then have "\<lfloor>log (real 2) (real n)\<rfloor> = int f" by simp
  then have b: "2 ^ f \<le> n" "n < 2 ^ (f + 1)"
    using floor_log_nat_eq_powr_iff[of 2 n f] n by auto
  have "(2::nat) ^ d < 2 ^ (f + 1)" using assms(1) b(2) by linarith
  then have 1: "d < f + 1" by (simp only: power_strict_increasing_iff) 
  have "(2::nat) ^ f < 2 ^ (d + 2)" using assms(2) b(1) by linarith
  then have 2: "f < d + 2" by (simp only: power_strict_increasing_iff)
  show ?thesis using 1 2 unfolding fl by linarith
qed

lemma floor_log_2_4: "\<lfloor>log 2 (4::real)\<rfloor> = 2" "\<lceil>log 2 (4::real)\<rceil> = 2"
proof -
  have "log 2 (4::real) = log 2 (2 ^ 2)" by simp
  also have "\<dots> = 2" by (subst log_pow_cancel) simp_all
  finally show "\<lfloor>log 2 (4::real)\<rfloor> = 2" "\<lceil>log 2 (4::real)\<rceil> = 2" by simp_all
qed

lemma keys_same_pairs: "same_pairs h h' \<Longrightarrow> keys h' t = keys h t"
proof -
  assume s: "same_pairs h h'"
  have "key_of h' a = key_of h a" for a
    using s[unfolded same_pairs_def, rule_format, of a]
    by (cases "h a"; cases "h' a") (auto simp: key_of_def)
  then show ?thesis by (simp add: keys_def)
qed

lemma half_simps: "\<lceil>1 / (2::real)\<rceil> = 1" "\<lfloor>1 / (2::real)\<rfloor> = 0"
  by (simp_all add: ceiling_eq_iff floor_eq_iff)


section \<open>Insertion keeps the invariant\<close>

lemma insert_loop_reps:
  "reps h par p t \<Longrightarrow> insert_loop h k p tmp d lm rm = ret (ins_path h k t tmp d lm rm)"
proof (induction t arbitrary: par p tmp d lm rm)
  case Leaf
  then show ?case by (subst insert_loop.simps) simp
next
  case (Node l a r)
  then show ?case
    by (subst insert_loop.simps) (auto simp: key_of_def split: option.splits)
qed

lemma ins_path_found:
  "lookup_addr h t k = Some a \<Longrightarrow> ins_path h k t tmp d lm rm = Inl (Some a)"
  by (induction t arbitrary: tmp d lm rm) (auto split: if_splits)

lemma node_size_reps: "reps h par p t \<Longrightarrow> node_size h p = ret (int (size t))"
proof (induction t arbitrary: par p)
  case Leaf
  then show ?case by (subst node_size.simps) simp
next
  case (Node l a r)
  then show ?case
    by (subst node_size.simps) (auto split: option.splits)
qed

lemma reps_parent_root: "reps h par (Some a) t \<Longrightarrow> h a = Some an \<Longrightarrow> parent an = par"
  by (cases t) auto

lemma reps_parent_inner:
  "reps h par p t \<Longrightarrow> a \<in> set_tree t \<Longrightarrow> h a = Some an \<Longrightarrow> p \<noteq> Some a \<Longrightarrow>
   \<exists>c\<in>set_tree t. parent an = Some c"
proof (induction t arbitrary: par p)
  case Leaf
  then show ?case by simp
next
  case (Node l b r)
  from Node.prems obtain bn where bn: "p = Some b" "h b = Some bn"
    "reps h (Some b) (left bn) l" "reps h (Some b) (right bn) r"
    by (auto split: option.splits)
  from Node.prems bn have ab: "a \<noteq> b" by auto
  with Node.prems have "a \<in> set_tree l \<or> a \<in> set_tree r" by auto
  then show ?case
  proof
    assume a: "a \<in> set_tree l"
    show ?thesis
    proof (cases "left bn = Some a")
      case True
      with bn(3) Node.prems(3) have "parent an = Some b" by (auto dest: reps_parent_root)
      then show ?thesis by simp
    next
      case False
      from Node.IH(1)[OF bn(3) a Node.prems(3) False] show ?thesis by auto
    qed
  next
    assume a: "a \<in> set_tree r"
    show ?thesis
    proof (cases "right bn = Some a")
      case True
      with bn(4) Node.prems(3) have "parent an = Some b" by (auto dest: reps_parent_root)
      then show ?thesis by simp
    next
      case False
      from Node.IH(2)[OF bn(4) a Node.prems(3) False] show ?thesis by auto
    qed
  qed
qed

lemma set_tree_sub: "set_tree (sub t a) \<subseteq> set_tree t"
  by (induction t) auto

lemma sub_root: "a \<in> set_tree t \<Longrightarrow> \<exists>l r. sub t a = Node l a r"
  by (induction t) auto

lemma reps_sub:
  "reps h par p t \<Longrightarrow> a \<in> set_tree t \<Longrightarrow> h a = Some an \<Longrightarrow> reps h (parent an) (Some a) (sub t a)"
proof (induction t arbitrary: par p)
  case Leaf
  then show ?case by simp
next
  case (Node l b r)
  from Node.prems obtain bn where bn: "p = Some b" "h b = Some bn" "parent bn = par"
    "reps h (Some b) (left bn) l" "reps h (Some b) (right bn) r"
    by (auto split: option.splits)
  show ?case
  proof (cases "a = b")
    case True
    then show ?thesis using Node.prems bn by simp
  next
    case False
    then show ?thesis using Node bn by auto
  qed
qed

lemma sub_left: "a \<in> set_tree l \<Longrightarrow> a \<noteq> b \<Longrightarrow> sub (Node l b r) a = sub l a"
  by simp

lemma reps_replace:
  assumes "reps h par p t" "distinct (inorder t)" "a \<in> set_tree t"
    and "h a = Some an" "parent an = Some q" "h q = Some qn"
    and "h' q = Some (if left qn = Some a then qn\<lparr>left := p'\<rparr> else qn\<lparr>right := p'\<rparr>)"
    and "reps h' (Some q) p' s'"
    and "\<And>b. b \<in> set_tree t \<Longrightarrow> b \<notin> set_tree (sub t a) \<Longrightarrow> b \<noteq> q \<Longrightarrow> h' b = h b"
  shows "reps h' par (if p = Some a then p' else p) (repl t a s')"
  using assms(1,2,3,9)
proof (induction t arbitrary: par p)
  case Leaf
  then show ?case by simp
next
  case (Node l b r)
  from Node.prems(1) obtain bn where bn: "p = Some b" "h b = Some bn" "parent bn = par"
    "reps h (Some b) (left bn) l" "reps h (Some b) (right bn) r"
    by (auto split: option.splits)
  from Node.prems(2) have d: "distinct (inorder l)" "distinct (inorder r)" "b \<notin> set_tree l" "b \<notin> set_tree r"
    "set_tree l \<inter> set_tree r = {}"
    by auto
  show ?case
  proof (cases "a = b")
    case True
    then have "par = Some q" using bn assms(4,5) by simp
    then show ?thesis using True bn assms(8) by simp
  next
    case ab: False
    then have pa: "p \<noteq> Some a" using bn by simp
    show ?thesis
    proof (cases "a \<in> set_tree l")
      case al: True
      then have ar: "a \<notin> set_tree r" using d by auto
      have sub: "sub (Node l b r) a = sub l a" using al ab by simp
      have subl: "set_tree (sub l a) \<subseteq> set_tree l" by (rule set_tree_sub)
      have rn: "right bn \<noteq> Some a" using bn(5) ar by (auto simp: reps_Some)
      have fr: "\<And>c. c \<in> set_tree l \<Longrightarrow> c \<notin> set_tree (sub l a) \<Longrightarrow> c \<noteq> q \<Longrightarrow> h' c = h c"
        using Node.prems(4) sub by auto
      note IH = Node.IH(1)[OF bn(4) d(1) al fr]
      have rr: "q \<noteq> b \<or> True" by simp
      show ?thesis
      proof (cases "q = b")
        case True
        have la: "left bn = Some a"
        proof (rule ccontr)
          assume "left bn \<noteq> Some a"
          from reps_parent_inner[OF bn(4) al assms(4) this] obtain c where "c \<in> set_tree l" "parent an = Some c"
            by auto
          then show False using assms(5) True d by auto
        qed
        have hb: "h' b = Some (bn\<lparr>left := p'\<rparr>)" using assms(6,7) True bn la by simp
        have "reps h' (Some b) p' (repl l a s')" using IH la by simp
        moreover have "reps h' (Some b) (right bn) r"
        proof (subst reps_frame[where h = h])
          fix c assume c: "c \<in> set_tree r"
          then have "c \<notin> set_tree (sub (Node l b r) a)" using sub subl d by auto
          moreover have "c \<noteq> q" using True c d by auto
          ultimately show "h' c = h c" using Node.prems(4)[of c] c by simp
        qed (rule bn(5))
        ultimately show ?thesis using hb bn pa al ab by simp
      next
        case False
        have la: "left bn \<noteq> Some a"
        proof
          assume "left bn = Some a"
          with bn(4) assms(4) have "parent an = Some b" by (auto dest: reps_parent_root)
          with assms(5) False show False by simp
        qed
        have "b \<notin> set_tree (sub (Node l b r) a)" using sub subl d by auto
        then have hb: "h' b = h b" using Node.prems(4)[of b] False by simp
        have "reps h' (Some b) (left bn) (repl l a s')" using IH la by simp
        moreover have "reps h' (Some b) (right bn) r"
        proof (subst reps_frame[where h = h])
          fix c assume c: "c \<in> set_tree r"
          then have "c \<notin> set_tree (sub (Node l b r) a)" using sub subl d by auto
          moreover have "c \<noteq> q"
          proof
            assume "c = q"
            show False
            proof (cases "left bn = Some a")
              case True
              then show False using la by simp
            next
              case F: False
              from reps_parent_inner[OF bn(4) al assms(4) F] obtain e where "e \<in> set_tree l" "parent an = Some e"
                by auto
              then show False using assms(5) \<open>c = q\<close> c d by auto
            qed
          qed
          ultimately show "h' c = h c" using Node.prems(4)[of c] c by simp
        qed (rule bn(5))
        ultimately show ?thesis using hb bn pa al ab by simp
      qed
    next
      case al: False
      then have ar: "a \<in> set_tree r" using Node.prems(3) ab by simp
      have sub: "sub (Node l b r) a = sub r a" using al ab by simp
      have subr: "set_tree (sub r a) \<subseteq> set_tree r" by (rule set_tree_sub)
      have ln: "left bn \<noteq> Some a" using bn(4) al by (auto simp: reps_Some)
      have fr: "\<And>c. c \<in> set_tree r \<Longrightarrow> c \<notin> set_tree (sub r a) \<Longrightarrow> c \<noteq> q \<Longrightarrow> h' c = h c"
        using Node.prems(4) sub by auto
      note IH = Node.IH(2)[OF bn(5) d(2) ar fr]
      show ?thesis
      proof (cases "q = b")
        case True
        have ra: "right bn = Some a"
        proof (rule ccontr)
          assume "right bn \<noteq> Some a"
          from reps_parent_inner[OF bn(5) ar assms(4) this] obtain c where "c \<in> set_tree r" "parent an = Some c"
            by auto
          then show False using assms(5) True d by auto
        qed
        have hb: "h' b = Some (bn\<lparr>right := p'\<rparr>)" using assms(6,7) True bn ln by simp
        have "reps h' (Some b) p' (repl r a s')" using IH ra by simp
        moreover have "reps h' (Some b) (left bn) l"
        proof (subst reps_frame[where h = h])
          fix c assume c: "c \<in> set_tree l"
          then have "c \<notin> set_tree (sub (Node l b r) a)" using sub subr d by auto
          moreover have "c \<noteq> q" using True c d by auto
          ultimately show "h' c = h c" using Node.prems(4)[of c] c by simp
        qed (rule bn(4))
        ultimately show ?thesis using hb bn pa al ab by simp
      next
        case False
        have ra: "right bn \<noteq> Some a"
        proof
          assume "right bn = Some a"
          with bn(5) assms(4) have "parent an = Some b" by (auto dest: reps_parent_root)
          with assms(5) False show False by simp
        qed
        have "b \<notin> set_tree (sub (Node l b r) a)" using sub subr d by auto
        then have hb: "h' b = h b" using Node.prems(4)[of b] False by simp
        have "reps h' (Some b) (right bn) (repl r a s')" using IH ra by simp
        moreover have "reps h' (Some b) (left bn) l"
        proof (subst reps_frame[where h = h])
          fix c assume c: "c \<in> set_tree l"
          then have "c \<notin> set_tree (sub (Node l b r) a)" using sub subr d by auto
          moreover have "c \<noteq> q"
          proof
            assume "c = q"
            show False
            proof (cases "right bn = Some a")
              case True
              then show False using ra by simp
            next
              case F: False
              from reps_parent_inner[OF bn(5) ar assms(4) F] obtain e where "e \<in> set_tree r" "parent an = Some e"
                by auto
              then show False using assms(5) \<open>c = q\<close> c d by auto
            qed
          qed
          ultimately show "h' c = h c" using Node.prems(4)[of c] c by simp
        qed (rule bn(4))
        ultimately show ?thesis using hb bn pa al ab by simp
      qed
    qed
  qed
qed

lemma inorder_repl:
  "a \<in> set_tree t \<Longrightarrow> distinct (inorder t) \<Longrightarrow>
   \<exists>pre post. inorder t = pre @ inorder (sub t a) @ post \<and> (\<forall>s. inorder (repl t a s) = pre @ inorder s @ post)"
proof (induction t)
  case Leaf
  then show ?case by simp
next
  case (Node l b r)
  show ?case
  proof (cases "a = b")
    case True
    then show ?thesis by (intro exI[of _ "[]"]) simp
  next
    case ab: False
    show ?thesis
    proof (cases "a \<in> set_tree l")
      case True
      with Node obtain pre post where
        "inorder l = pre @ inorder (sub l a) @ post" "\<forall>s. inorder (repl l a s) = pre @ inorder s @ post"
        by auto
      then show ?thesis using True ab
        by (intro exI[of _ pre] exI[of _ "post @ b # inorder r"]) simp
    next
      case False
      with Node ab obtain pre post where
        "inorder r = pre @ inorder (sub r a) @ post" "\<forall>s. inorder (repl r a s) = pre @ inorder s @ post"
        by auto
      then show ?thesis using False ab
        by (intro exI[of _ "inorder l @ b # pre"] exI[of _ post]) simp
    qed
  qed
qed

lemma sorted_sub: "sorted_wrt (<) (keys h t) \<Longrightarrow> sorted_wrt (<) (keys h (sub t a))"
  by (induction t) (auto simp: keys_def sorted_wrt_append)

lemma child_of_parent:
  assumes "reps h par p t" "distinct (inorder t)" "a \<in> set_tree t" "h a = Some an" "p \<noteq> Some a"
  shows "\<exists>q qn l r. parent an = Some q \<and> q \<in> set_tree t \<and> h q = Some qn \<and> sub t q = Node l q r \<and>
           depth t a = Suc (depth t q) \<and>
           ((left qn = Some a \<and> sub t a = l) \<or> (right qn = Some a \<and> sub t a = r \<and> left qn \<noteq> Some a))"
  using assms(1,2,3,5)
proof (induction t arbitrary: par p)
  case Leaf
  then show ?case by simp
next
  case (Node l b r)
  from Node.prems(1) obtain bn where bn: "p = Some b" "h b = Some bn" "parent bn = par"
    "reps h (Some b) (left bn) l" "reps h (Some b) (right bn) r"
    by (auto split: option.splits)
  from Node.prems(2) have d: "distinct (inorder l)" "distinct (inorder r)" "b \<notin> set_tree l" "b \<notin> set_tree r"
    "set_tree l \<inter> set_tree r = {}"
    by auto
  have ab: "a \<noteq> b" using Node.prems(4) bn by simp
  show ?case
  proof (cases "a \<in> set_tree l")
    case al: True
    show ?thesis
    proof (cases "left bn = Some a")
      case True
      with bn(4) assms(4) have pa: "parent an = Some b" by (auto dest: reps_parent_root)
      from True bn(4) obtain l' r' where l: "l = Node l' a r'" by (auto simp: reps_Some)
      then have "sub (Node l b r) a = l" "depth (Node l b r) a = Suc 0" "depth (Node l b r) b = 0"
        using ab by simp_all
      then show ?thesis using pa bn True by auto
    next
      case False
      from Node.IH(1)[OF bn(4) d(1) al False] obtain q qn l' r' where
        q: "parent an = Some q" "q \<in> set_tree l" "h q = Some qn" "sub l q = Node l' q r'"
           "depth l a = Suc (depth l q)"
           "(left qn = Some a \<and> sub l a = l') \<or> (right qn = Some a \<and> sub l a = r' \<and> left qn \<noteq> Some a)"
        by blast
      have "q \<noteq> b" using q(2) d by auto
      then show ?thesis using q al ab by auto
    qed
  next
    case al: False
    then have ar: "a \<in> set_tree r" using Node.prems(3) ab by simp
    have ln: "left bn \<noteq> Some a" using bn(4) al by (auto simp: reps_Some)
    show ?thesis
    proof (cases "right bn = Some a")
      case True
      with bn(5) assms(4) have pa: "parent an = Some b" by (auto dest: reps_parent_root)
      from True bn(5) obtain l' r' where r: "r = Node l' a r'" by (auto simp: reps_Some)
      then have "sub (Node l b r) a = r" "depth (Node l b r) a = Suc 0" "depth (Node l b r) b = 0"
        using ab al by simp_all
      then show ?thesis using pa bn True ln by auto
    next
      case False
      from Node.IH(2)[OF bn(5) d(2) ar False] obtain q qn l' r' where
        q: "parent an = Some q" "q \<in> set_tree r" "h q = Some qn" "sub r q = Node l' q r'"
           "depth r a = Suc (depth r q)"
           "(left qn = Some a \<and> sub r a = l') \<or> (right qn = Some a \<and> sub r a = r' \<and> left qn \<noteq> Some a)"
        by blast
      have "q \<noteq> b" "q \<notin> set_tree l" using q(2) d by auto
      then show ?thesis using q al ab by auto
    qed
  qed
qed

lemma rebuild_root_correct:
  fixes T :: "('k, 'v) sgt"
  assumes "reps (heap T) None (root T) t" "distinct (inorder t)" "w \<notin> set_tree t"
    "heap T w = Some wn" "right wn = None"
  shows "\<exists>h' r. rebuild_root T (Some w) (int (size t)) = ret (T\<lparr>heap := h', root := r, max_size := tree_size T\<rparr>) \<and>
           reps h' None r (build_tree (size t) (inorder t)) \<and> h' w = None \<and>
           (\<forall>a. a \<noteq> w \<longrightarrow> map_option pair (h' a) = map_option pair (heap T a)) \<and>
           (\<forall>a. a \<notin> set_tree t \<longrightarrow> a \<noteq> w \<longrightarrow> h' a = heap T a)"
proof -
  let ?t = "build_tree (size t) (inorder t)"
  from flatten_build[OF assms] obtain h1 z h2 r wn' where
    1: "flatten_wrapper (heap T) (root T) (Some w) = ret (h1, z)"
       "build h1 (int (size t)) z = ret (h2, Some w)"
       "h2 w = Some wn'" "left wn' = r" "right wn' = None"
       "reps h2 None r ?t"
       "\<forall>a. a \<notin> set_tree t \<longrightarrow> a \<noteq> w \<longrightarrow> h2 a = heap T a" "same_pairs (heap T) h2"
    by blast
  define h' where "h' = h2(w := None)"
  have st: "set_tree ?t = set_tree t"
    by (simp add: set_build_tree length_inorder)
  have del: "delete_node (h2(w \<mapsto> wn'\<lparr>left := None\<rparr>)) (Some w) = ret h'"
    using delete_single[of "h2(w \<mapsto> wn'\<lparr>left := None\<rparr>)" w "wn'\<lparr>left := None\<rparr>"] 1(5)
    by (simp add: h'_def)
  have "rebuild_root T (Some w) (int (size t)) = ret (T\<lparr>heap := h', root := r, max_size := tree_size T\<rparr>)"
    by (simp add: rebuild_root_def 1(1,2,3,4) del Let_def)
  moreover have "reps h' None r ?t"
    using 1(6) assms(3) st by (subst reps_frame[where h = h2]) (auto simp: h'_def)
  moreover have "\<forall>a. a \<noteq> w \<longrightarrow> map_option pair (h' a) = map_option pair (heap T a)"
    using 1(8) by (simp add: same_pairs_def h'_def)
  moreover have "\<forall>a. a \<notin> set_tree t \<longrightarrow> a \<noteq> w \<longrightarrow> h' a = heap T a"
    using 1(7) by (simp add: h'_def)
  moreover have "h' w = None" by (simp add: h'_def)
  ultimately show ?thesis by blast
qed

lemma key_of_same: "map_option pair (h' a) = map_option pair (h a) \<Longrightarrow> h a \<noteq> None \<Longrightarrow> key_of h' a = key_of h a"
  by (cases "h a"; cases "h' a") (auto simp: key_of_def)

lemma tree_inv_transfer:
  assumes "tree_inv T t" "reps (heap T') None (root T') t'" "inorder t' = inorder t"
    "\<forall>a\<in>set_tree t. map_option pair (heap T' a) = map_option pair (heap T a)"
    "tree_size T' = tree_size T" "tree_size T' \<le> max_size T'"
    "first T' = first T" "last_node T' = last_node T"
    "\<forall>a. nxt T' \<le> a \<longrightarrow> heap T' a = None"
  shows "tree_inv T' t'"
proof -
  have al: "\<And>a. a \<in> set_tree t \<Longrightarrow> heap T a \<noteq> None"
    using assms(1) by (auto simp: tree_inv_def dest: reps_alloc)
  have "map (key_of (heap T')) (inorder t) = map (key_of (heap T)) (inorder t)"
    using assms(4) al by (intro map_cong) (auto intro: key_of_same)
  then have k: "keys (heap T') t' = keys (heap T) t" using assms(3) by (simp add: keys_def)
  have sz: "size t' = size t" using assms(3) by (metis length_inorder)
  show ?thesis
    using assms(1,2,5,6,7,8,9) k sz unfolding tree_inv_def assms(3) by simp
qed

lemma distinct_sub: "distinct (inorder t) \<Longrightarrow> distinct (inorder (sub t a))"
  by (induction t) auto

lemma tree_inv_fresh: "tree_inv T t \<Longrightarrow> nxt T \<notin> set_tree t"
  by (auto simp: tree_inv_def dest: reps_alloc)

lemma rebuild_at_correct:
  fixes T :: "('k::{linorder,default}, 'v::default) sgt"
  assumes inv: "tree_inv T t" and scn: "scn \<in> set_tree t"
  shows "\<exists>T' t'. rebuild_at T (Some scn) (int (size (sub t scn))) = ret T' \<and> tree_inv T' t' \<and>
           inorder t' = inorder t \<and> same_pairs (heap T) (heap T') \<and> nxt T' = nxt T + 1 \<and>
           first T' = first T \<and> last_node T' = last_node T \<and> max_size T' = tree_size T \<and>
           t' = repl t scn (build_tree (size (sub t scn)) (inorder (sub t scn)))"
proof -
  define h where "h = heap T"
  define w where "w = nxt T"
  define wn :: "('k, 'v) node" where "wn = \<lparr>parent = None, left = None, right = None, pair = (default, default)\<rparr>"
  define h1 where "h1 = h(w \<mapsto> wn)"
  define T1 where "T1 = T\<lparr>heap := h1, nxt := nxt T + 1\<rparr>"
  define s where "s = sub t scn"
  define s' where "s' = build_tree (size s) (inorder s)"
  have T1s: "heap T1 = h1" "root T1 = root T" "tree_size T1 = tree_size T" "nxt T1 = nxt T + 1"
    "first T1 = first T" "last_node T1 = last_node T"
    by (simp_all add: T1_def)
  have nn: "new_node default default T = (T1, Some w)"
    by (simp add: new_node_def T1_def h1_def h_def w_def wn_def)
  from inv have r: "reps h None (root T) t" and d: "distinct (inorder t)"
    and so: "sorted_wrt (<) (keys h t)" and al: "\<forall>a. nxt T \<le> a \<longrightarrow> h a = None"
    by (simp_all add: tree_inv_def h_def)
  have wt: "w \<notin> set_tree t" using inv by (simp add: w_def tree_inv_fresh)
  have hw: "h w = None" using al by (simp add: w_def)
  have r1: "reps h1 None (root T) t"
    using r wt by (subst reps_frame[where h = h]) (auto simp: h1_def)
  from reps_alloc[OF r scn] obtain sn where sn: "h scn = Some sn" by auto
  have sw: "scn \<noteq> w" using scn wt by auto
  have sn1: "h1 scn = Some sn" using sn sw by (simp add: h1_def)
  have rs: "reps h1 (parent sn) (Some scn) s"
    unfolding s_def by (rule reps_sub[OF r1 scn sn1])
  have ds: "distinct (inorder s)" unfolding s_def by (rule distinct_sub[OF d])
  have ss: "set_tree s \<subseteq> set_tree t" unfolding s_def by (rule set_tree_sub)
  have ws: "w \<notin> set_tree s" using wt ss by auto
  have h1w: "h1 w = Some wn" by (simp add: h1_def)
  have wr: "right wn = None" by (simp add: wn_def)
  have io': "inorder s' = inorder s" by (simp add: s'_def inorder_build_tree length_inorder)
  have st': "set_tree s' = set_tree s" using io' by (metis set_inorder)
  show ?thesis
  proof (cases "parent sn")
    case None
    have rt: "root T = Some scn"
    proof (rule ccontr)
      assume "root T \<noteq> Some scn"
      from child_of_parent[OF r d scn sn this] None show False by auto
    qed
    then have st: "s = t" using r by (cases t) (auto simp: s_def)
    have r1': "reps (heap T1) None (root T1) t" using r1 by (simp add: T1_def)
    have "heap T1 w = Some wn" using h1w by (simp add: T1_def)
    from rebuild_root_correct[OF r1' d wt this wr] obtain h' rr where
      1: "rebuild_root T1 (Some w) (int (size t)) = ret (T1\<lparr>heap := h', root := rr, max_size := tree_size T1\<rparr>)"
         "reps h' None rr (build_tree (size t) (inorder t))" "h' w = None"
         "\<forall>a. a \<noteq> w \<longrightarrow> map_option pair (h' a) = map_option pair (heap T1 a)"
         "\<forall>a. a \<notin> set_tree t \<longrightarrow> a \<noteq> w \<longrightarrow> h' a = heap T1 a"
      by blast
    define T' where "T' = T1\<lparr>heap := h', root := rr, max_size := tree_size T1\<rparr>"
    have run: "rebuild_at T (Some scn) (int (size (sub t scn))) = ret T'"
      using 1(1) sn1 None st by (simp add: rebuild_at_def nn T1s T'_def s_def)
    have sp: "same_pairs (heap T) h'"
      unfolding same_pairs_def
    proof
      fix a show "map_option pair (h' a) = map_option pair (heap T a)"
        using 1(3,4) hw by (cases "a = w") (auto simp: T1_def h1_def h_def)
    qed
    have al': "\<forall>a. nxt T' \<le> a \<longrightarrow> heap T' a = None"
    proof (intro allI impI)
      fix a assume "nxt T' \<le> a"
      then have a: "nxt T \<le> a" "a \<noteq> w" by (auto simp: T'_def T1_def w_def)
      then have "h a = None" using al by simp
      then have "a \<notin> set_tree t" using reps_alloc[OF r, of a] by blast
      then show "heap T' a = None" using 1(5) a \<open>h a = None\<close> by (simp add: T'_def T1_def h1_def)
    qed
    have "tree_inv T' s'"
    proof (rule tree_inv_transfer[OF inv])
      show "reps (heap T') None (root T') s'" using 1(2) by (simp add: T'_def s'_def st)
      show "inorder s' = inorder t" using io' st by simp
      show "\<forall>a\<in>set_tree t. map_option pair (heap T' a) = map_option pair (heap T a)"
        using sp by (simp add: same_pairs_def T'_def)
      show "tree_size T' = tree_size T" by (simp add: T'_def T1_def)
      show "tree_size T' \<le> max_size T'" by (simp add: T'_def T1_def)
      show "first T' = first T" by (simp add: T'_def T1_def)
      show "last_node T' = last_node T" by (simp add: T'_def T1_def)
      show "\<forall>a. nxt T' \<le> a \<longrightarrow> heap T' a = None" by (rule al')
    qed
    moreover have "repl t scn s' = s'" using rt r by (cases t) auto
    ultimately show ?thesis
      using run io' st sp by (auto simp: T'_def T1_def s'_def s_def)
  next
    case (Some q)
    have rn: "root T \<noteq> Some scn"
    proof
      assume "root T = Some scn"
      with r sn have "parent sn = None" by (auto dest: reps_parent_root)
      with Some show False by simp
    qed
    from child_of_parent[OF r d scn sn rn] Some obtain qn l rr0 where
      q: "q \<in> set_tree t" "h q = Some qn" "sub t q = Node l q rr0"
         "(left qn = Some scn \<and> s = l) \<or> (right qn = Some scn \<and> s = rr0 \<and> left qn \<noteq> Some scn)"
      by (auto simp: s_def)
    have dq: "distinct (inorder (Node l q rr0))" using distinct_sub[OF d, of q] q(3) by simp
    have qs: "q \<notin> set_tree s" using dq q(4) by auto
    have qw: "q \<noteq> w" using q(1) wt by auto
    have soq: "sorted_wrt (<) (keys h (Node l q rr0))" using sorted_sub[OF so, of q] q(3) by simp
    have side: "\<And>c. c \<in> set_tree s \<Longrightarrow> (key_of h c < key_of h q) = (left qn = Some scn)"
      using soq q(4) by (auto simp: keys_def sorted_wrt_append)
    have rs': "reps h1 (Some q) (Some scn) s" using rs Some by simp
    from flatten_build[OF rs' ds ws h1w wr] obtain h2 z hb rr wn' where
      2: "flatten_wrapper h1 (Some scn) (Some w) = ret (h2, z)"
         "build h2 (int (size s)) z = ret (hb, Some w)"
         "hb w = Some wn'" "left wn' = rr" "right wn' = None"
         "reps hb None rr s'"
         "\<forall>a. a \<notin> set_tree s \<longrightarrow> a \<noteq> w \<longrightarrow> hb a = h1 a" "same_pairs h1 hb"
      by (auto simp: s'_def)
    have sne: "scn \<in> set_tree s" using sub_root[OF scn] by (auto simp: s_def)
    then have "s' \<noteq> Leaf" using st' by auto
    with reps_root[OF 2(6)] obtain c cn where c: "rr = Some c" "hb c = Some cn" "c \<in> set_tree s'"
      by auto
    have cs: "c \<in> set_tree s" using c(3) st' by simp
    have cq: "c \<noteq> q" "c \<noteq> w" using cs qs ws by auto
    define h4 where "h4 = hb(c \<mapsto> cn\<lparr>parent := Some q\<rparr>)"
    have hbq: "hb q = Some qn" using 2(7) qs qw q(2) by (simp add: h1_def)
    have kc: "fst (pair cn) = key_of h c"
    proof -
      have "map_option pair (hb c) = map_option pair (h1 c)" using 2(8) by (simp add: same_pairs_def)
      then have "map_option pair (h1 c) = Some (pair cn)" using c(2) by simp
      then show ?thesis using cq by (auto simp: h1_def key_of_def)
    qed
    have kq: "fst (pair qn) = key_of h q" using q(2) by (simp add: key_of_def)
    define qn' where "qn' = (if left qn = Some scn then qn\<lparr>left := rr\<rparr> else qn\<lparr>right := rr\<rparr>)"
    define h5 where "h5 = h4(q \<mapsto> qn')"
    have u5: "(if fst (pair cn) < fst (pair qn)
               then upd h4 (Some q) (\<lambda>n. n\<lparr>left := rr\<rparr>) else upd h4 (Some q) (\<lambda>n. n\<lparr>right := rr\<rparr>)) = ret h5"
      using side[OF cs] hbq cq by (simp add: kc kq h4_def h5_def qn'_def)
    have h5w: "h5 w = Some wn'" using 2(3) cq qw by (simp add: h5_def h4_def)
    define h7 where "h7 = h5(w := None)"
    have del: "delete_node (h5(w \<mapsto> wn'\<lparr>left := None\<rparr>)) (Some w) = ret h7"
      using delete_single[of "h5(w \<mapsto> wn'\<lparr>left := None\<rparr>)" w "wn'\<lparr>left := None\<rparr>"] 2(5)
      by (simp add: h7_def)
    define T' where "T' = T1\<lparr>heap := h7, max_size := tree_size T1\<rparr>"
    have g4c: "get h4 (Some c) = ret (cn\<lparr>parent := Some q\<rparr>)" by (simp add: h4_def)
    have g4q: "get h4 (Some q) = ret qn" using hbq cq by (simp add: h4_def)
    have u4: "upd hb (Some c) (\<lambda>n. n\<lparr>parent := Some q\<rparr>) = ret h4" using c(2) by (simp add: h4_def)
    have u6: "upd h5 (Some w) (\<lambda>n. n\<lparr>left := None\<rparr>) = ret (h5(w \<mapsto> wn'\<lparr>left := None\<rparr>))"
      using h5w by simp
    have run: "rebuild_at T (Some scn) (int (size (sub t scn))) = ret T'"
      unfolding rebuild_at_def nn
      using sn1 Some 2(1,2,3) 2(4)[unfolded c(1)] u4 g4c g4q u5[unfolded c(1)] u6 del
      by (simp add: T1s s_def[symmetric] Let_def T'_def
          del: not_None_eq split del: if_split cong: bindE_weak_cong)
    have h7q: "h7 q = Some qn'" using qw by (simp add: h7_def h5_def)
    have fr7: "\<And>b. b \<noteq> q \<Longrightarrow> b \<noteq> w \<Longrightarrow> b \<noteq> c \<Longrightarrow> h7 b = hb b"
      by (simp add: h7_def h5_def h4_def)
    have h7c: "h7 c = Some (cn\<lparr>parent := Some q\<rparr>)" using cq by (simp add: h7_def h5_def h4_def)
    have rs7: "reps h7 (Some q) rr s'"
    proof (rule reps_reparent[OF 2(6)])
      show "distinct (inorder s')" using ds io' by simp
    next
      fix a assume a: "a \<in> set_tree s'" "Some a \<noteq> rr"
      then have "a \<noteq> q" "a \<noteq> w" "a \<noteq> c" using st' qs ws c(1) by auto
      then show "h7 a = hb a" by (rule fr7)
    next
      fix a n assume "rr = Some a" "hb a = Some n"
      then show "h7 a = Some (n\<lparr>parent := Some q\<rparr>)" using c h7c by simp
    qed
    have fr: "\<And>b. b \<in> set_tree t \<Longrightarrow> b \<notin> set_tree (sub t scn) \<Longrightarrow> b \<noteq> q \<Longrightarrow> h7 b = h b"
    proof -
      fix b assume b: "b \<in> set_tree t" "b \<notin> set_tree (sub t scn)" "b \<noteq> q"
      then have n: "b \<noteq> w" "b \<noteq> c" "b \<notin> set_tree s" using wt cs by (auto simp: s_def)
      then have "h7 b = hb b" using b(3) by (intro fr7)
      also have "\<dots> = h1 b" using 2(7) n by simp
      also have "\<dots> = h b" using n by (simp add: h1_def)
      finally show "h7 b = h b" .
    qed
    have "reps h7 None (if root T = Some scn then rr else root T) (repl t scn s')"
      by (rule reps_replace[OF r d scn sn Some q(2) h7q[unfolded qn'_def] rs7 fr])
    then have r7: "reps h7 None (root T) (repl t scn s')" using rn by simp
    from inorder_repl[OF scn d] obtain pre post where
      pp: "inorder t = pre @ inorder (sub t scn) @ post" "\<forall>x. inorder (repl t scn x) = pre @ inorder x @ post"
      by blast
    have io: "inorder (repl t scn s') = inorder t" using pp io' by (simp add: s_def)
    have sp: "same_pairs (heap T) h7"
      unfolding same_pairs_def
    proof
      fix a
      have 1: "map_option pair (hb a) = map_option pair (h1 a)" using 2(8) by (simp add: same_pairs_def)
      show "map_option pair (h7 a) = map_option pair (heap T a)"
      proof (cases "a = w")
        case True
        then show ?thesis using hw by (simp add: h7_def h_def)
      next
        case aw: False
        show ?thesis
        proof (cases "a = q")
          case True
          then show ?thesis using h7q q(2) by (simp add: qn'_def h_def)
        next
          case aq: False
          show ?thesis
          proof (cases "a = c")
            case True
            then show ?thesis using h7c 1 c(2) aw by (simp add: h1_def h_def)
          next
            case False
            then have "h7 a = hb a" using aw aq by (intro fr7)
            then show ?thesis using 1 aw by (simp add: h1_def h_def)
          qed
        qed
      qed
    qed
    have al': "\<forall>a. nxt T' \<le> a \<longrightarrow> heap T' a = None"
    proof (intro allI impI)
      fix a assume "nxt T' \<le> a"
      then have a: "nxt T \<le> a" "a \<noteq> w" by (auto simp: T'_def T1_def w_def)
      then have "h a = None" using al by simp
      moreover have "map_option pair (h7 a) = map_option pair (h a)" using sp by (simp add: same_pairs_def h_def)
      ultimately show "heap T' a = None" by (simp add: T'_def)
    qed
    have "tree_inv T' (repl t scn s')"
    proof (rule tree_inv_transfer[OF inv])
      show "reps (heap T') None (root T') (repl t scn s')" using r7 by (simp add: T'_def T1_def)
      show "inorder (repl t scn s') = inorder t" by (rule io)
      show "\<forall>a\<in>set_tree t. map_option pair (heap T' a) = map_option pair (heap T a)"
        using sp by (simp add: same_pairs_def T'_def)
      show "tree_size T' = tree_size T" by (simp add: T'_def T1_def)
      show "tree_size T' \<le> max_size T'" by (simp add: T'_def T1_def)
      show "first T' = first T" by (simp add: T'_def T1_def)
      show "last_node T' = last_node T" by (simp add: T'_def T1_def)
      show "\<forall>a. nxt T' \<le> a \<longrightarrow> heap T' a = None" by (rule al')
    qed
    then show ?thesis
      using run io sp by (auto simp: T'_def T1_def s'_def s_def)
  qed
qed

lemma ins_path_tmp:
  "ins_path h k t tmp d lm rm = Inr (q, d', lm', rm') \<Longrightarrow>
   (t = Leaf \<and> q = tmp) \<or> (\<exists>a\<in>set_tree t. q = Some a)"
  by (induction t arbitrary: tmp d lm rm) (fastforce split: if_splits)+

lemma ins_path_not_found:
  "lookup_addr h t k = None \<Longrightarrow> \<exists>q d' lm' rm'. ins_path h k t tmp d lm rm = Inr (q, d', lm', rm')"
  by (induction t arbitrary: tmp d lm rm) (auto split: if_splits)

lemma ins_path_flags:
  "sorted_wrt (<) (keys h t) \<Longrightarrow> ins_path h k t tmp d lm rm = Inr (q, d', lm', rm') \<Longrightarrow>
   lm' = (lm \<and> (\<forall>a\<in>set_tree t. k < key_of h a)) \<and> rm' = (rm \<and> (\<forall>a\<in>set_tree t. key_of h a < k))"
proof (induction t arbitrary: tmp d lm rm)
  case Leaf
  then show ?case by simp
next
  case (Node l a r)
  from Node.prems(1) have s: "sorted_wrt (<) (keys h l)" "sorted_wrt (<) (keys h r)"
    "\<forall>b\<in>set_tree l. key_of h b < key_of h a" "\<forall>b\<in>set_tree r. key_of h a < key_of h b"
    by (auto simp: keys_def sorted_wrt_append)
  show ?case
  proof (cases "k < key_of h a")
    case True
    with Node.prems(2) have "ins_path h k l (Some a) (d + 1) lm False = Inr (q, d', lm', rm')" by simp
    from Node.IH(1)[OF s(1) this] have "lm' = (lm \<and> (\<forall>b\<in>set_tree l. k < key_of h b))" "rm' = False"
      by auto
    moreover have "(\<forall>b\<in>set_tree (Node l a r). k < key_of h b) = (\<forall>b\<in>set_tree l. k < key_of h b)"
      using True s(4) by auto
    moreover have "\<not> (\<forall>b\<in>set_tree (Node l a r). key_of h b < k)" using True by auto
    ultimately show ?thesis by blast
  next
    case False
    with Node.prems(2) have ne: "key_of h a < k" by (auto split: if_splits)
    with Node.prems(2) False have "ins_path h k r (Some a) (d + 1) False rm = Inr (q, d', lm', rm')" by simp
    from Node.IH(2)[OF s(2) this] have "rm' = (rm \<and> (\<forall>b\<in>set_tree r. key_of h b < k))" "lm' = False"
      by auto
    moreover have "(\<forall>b\<in>set_tree (Node l a r). key_of h b < k) = (\<forall>b\<in>set_tree r. key_of h b < k)"
      using ne s(3) by auto
    moreover have "\<not> (\<forall>b\<in>set_tree (Node l a r). k < key_of h b)" using False by auto
    ultimately show ?thesis by blast
  qed
qed

lemma set_ins_tree: "set_tree (ins_tree h k x t) = insert x (set_tree t)"
  by (induction t) auto

lemma size_ins_tree: "size (ins_tree h k x t) = size t + 1"
  by (induction t) auto

lemma distinct_ins_tree: "distinct (inorder t) \<Longrightarrow> x \<notin> set_tree t \<Longrightarrow> distinct (inorder (ins_tree h k x t))"
  by (induction t) (auto simp: set_ins_tree)

lemma hd_ins_tree:
  "sorted_wrt (<) (keys h t) \<Longrightarrow>
   hd (inorder (ins_tree h k x t)) = (if \<forall>a\<in>set_tree t. k < key_of h a then x else hd (inorder t))"
proof (induction t)
  case Leaf
  then show ?case by simp
next
  case (Node l a r)
  from Node.prems(1) have s: "sorted_wrt (<) (keys h l)" "sorted_wrt (<) (keys h r)"
    "\<forall>b\<in>set_tree l. key_of h b < key_of h a" "\<forall>b\<in>set_tree r. key_of h a < key_of h b"
    by (auto simp: keys_def sorted_wrt_append)
  have ne: "inorder (ins_tree h k x l) \<noteq> []" by (cases l) auto
  show ?case
  proof (cases "k < key_of h a")
    case True
    have "(\<forall>b\<in>set_tree (Node l a r). k < key_of h b) = (\<forall>b\<in>set_tree l. k < key_of h b)"
      using True s(4) by auto
    then show ?thesis using True Node.IH(1)[OF s(1)] ne by (cases l) (auto simp: hd_append)
  next
    case False
    then have "\<not> (\<forall>b\<in>set_tree (Node l a r). k < key_of h b)" by auto
    then show ?thesis using False by (cases l) (auto simp: hd_append)
  qed
qed

lemma last_ins_tree:
  "sorted_wrt (<) (keys h t) \<Longrightarrow> k \<notin> set (keys h t) \<Longrightarrow>
   last (inorder (ins_tree h k x t)) = (if \<forall>a\<in>set_tree t. key_of h a < k then x else last (inorder t))"
proof (induction t)
  case Leaf
  then show ?case by simp
next
  case (Node l a r)
  from Node.prems(1) have s: "sorted_wrt (<) (keys h l)" "sorted_wrt (<) (keys h r)"
    "\<forall>b\<in>set_tree l. key_of h b < key_of h a" "\<forall>b\<in>set_tree r. key_of h a < key_of h b"
    by (auto simp: keys_def sorted_wrt_append)
  from Node.prems(2) have nk: "k \<noteq> key_of h a" "k \<notin> set (keys h r)" by (auto simp: keys_def)
  have ne: "inorder (ins_tree h k x r) \<noteq> []" by (cases r) auto
  show ?case
  proof (cases "k < key_of h a")
    case True
    then have "\<not> (\<forall>b\<in>set_tree (Node l a r). key_of h b < k)" by auto
    then show ?thesis using True by (cases r) auto
  next
    case False
    then have lt: "key_of h a < k" using nk by auto
    have "(\<forall>b\<in>set_tree (Node l a r). key_of h b < k) = (\<forall>b\<in>set_tree r. key_of h b < k)"
      using lt s(3) by auto
    then show ?thesis using False Node.IH(2)[OF s(2) nk(2)] ne by (cases r) auto
  qed
qed

lemma sorted_ins_tree:
  assumes "sorted_wrt (<) (keys h t)" "k \<notin> set (keys h t)"
    "key_of h' x = k" "\<And>a. a \<in> set_tree t \<Longrightarrow> key_of h' a = key_of h a"
  shows "sorted_wrt (<) (keys h' (ins_tree h k x t))"
  using assms(1,2,4)
proof (induction t)
  case Leaf
  then show ?case by (simp add: keys_def)
next
  case (Node l a r)
  from Node.prems(1) have s: "sorted_wrt (<) (keys h l)" "sorted_wrt (<) (keys h r)"
    "\<forall>b\<in>set_tree l. key_of h b < key_of h a" "\<forall>b\<in>set_tree r. key_of h a < key_of h b"
    by (auto simp: keys_def sorted_wrt_append)
  from Node.prems(2) have nk: "k \<noteq> key_of h a" "k \<notin> set (keys h l)" "k \<notin> set (keys h r)"
    by (auto simp: keys_def)
  have same: "\<And>b. b \<in> set_tree (Node l a r) \<Longrightarrow> key_of h' b = key_of h b" using Node.prems(3) by blast
  have kl: "keys h' l = keys h l" "keys h' r = keys h r"
    using same by (auto simp: keys_def)
  have lr: "\<forall>b\<in>set_tree l. \<forall>c\<in>set_tree r. key_of h b < key_of h c" using s(3,4) by force
  show ?case
  proof (cases "k < key_of h a")
    case True
    have 1: "sorted_wrt (<) (keys h' (ins_tree h k x l))"
      using Node.IH(1)[OF s(1) nk(2)] same by simp
    have 2: "\<forall>b\<in>set_tree (ins_tree h k x l). key_of h' b < key_of h' a"
      using True s(3) same assms(3) by (auto simp: set_ins_tree)
    have 3: "\<forall>b\<in>set_tree (ins_tree h k x l). \<forall>c\<in>set_tree r. key_of h' b < key_of h' c"
      using True s(3,4) lr same assms(3) by (force simp: set_ins_tree)
    have 4: "sorted_wrt (<) (keys h' r)" "\<forall>c\<in>set_tree r. key_of h' a < key_of h' c"
      using s same kl by auto
    show ?thesis using True 1 2 3 4 by (auto simp: keys_def sorted_wrt_append)
  next
    case False
    then have lt: "key_of h a < k" using nk by auto
    have 1: "sorted_wrt (<) (keys h' (ins_tree h k x r))"
      using Node.IH(2)[OF s(2) nk(3)] same by simp
    have 2: "\<forall>b\<in>set_tree (ins_tree h k x r). key_of h' a < key_of h' b"
      using lt s(4) same assms(3) by (auto simp: set_ins_tree)
    have 3: "\<forall>b\<in>set_tree l. \<forall>c\<in>set_tree (ins_tree h k x r). key_of h' b < key_of h' c"
      using lt s(3,4) lr same assms(3) by (force simp: set_ins_tree)
    have 4: "sorted_wrt (<) (keys h' l)" "\<forall>c\<in>set_tree l. key_of h' c < key_of h' a"
      using s same kl by auto
    show ?thesis using False 1 2 3 4 by (auto simp: keys_def sorted_wrt_append)
  qed
qed

lemma ins_attach:
  fixes h :: "('k::linorder, 'v) heap"
  assumes "reps h par p t" "t \<noteq> Leaf" "distinct (inorder t)" "x \<notin> set_tree t"
    "h x = Some xn" "left xn = None" "right xn = None"
    "ins_path h k t tmp d lm rm = Inr (Some q, d', lm', rm')" "h q = Some qn"
    "h' = h(x \<mapsto> xn\<lparr>parent := Some q\<rparr>,
            q \<mapsto> (if k < key_of h q then qn\<lparr>left := Some x\<rparr> else qn\<lparr>right := Some x\<rparr>))"
  shows "reps h' par p (ins_tree h k x t)"
  using assms(1,2,3,4,8)
proof (induction t arbitrary: par p tmp d lm rm)
  case Leaf
  then show ?case by simp
next
  case (Node l a r)
  from Node.prems(1) obtain an where an: "p = Some a" "h a = Some an" "parent an = par"
    "reps h (Some a) (left an) l" "reps h (Some a) (right an) r"
    by (auto split: option.splits)
  from Node.prems(3) have dd: "distinct (inorder l)" "distinct (inorder r)" "a \<notin> set_tree l" "a \<notin> set_tree r"
    by auto
  from Node.prems(4) have xx: "x \<noteq> a" "x \<notin> set_tree l" "x \<notin> set_tree r" by auto
  have hx: "h' x = Some (xn\<lparr>parent := Some q\<rparr>)"
  proof -
    have "q \<noteq> x" using ins_path_tmp[OF Node.prems(5)] Node.prems(4) by auto
    then show ?thesis by (simp add: assms(10))
  qed
  show ?case
  proof (cases "k < key_of h a")
    case True
    then have ip: "ins_path h k l (Some a) (d + 1) lm False = Inr (Some q, d', lm', rm')"
      using Node.prems(5) by simp
    have rr: "reps h' (Some a) (right an) r" if "q \<notin> set_tree r"
      using an(5) xx that by (subst reps_frame[where h = h]) (auto simp: assms(10))
    show ?thesis
    proof (cases l)
      case Leaf
      with ip have qa: "q = a" by simp
      then have "qn = an" using assms(9) an(2) by simp
      then have ha: "h' a = Some (an\<lparr>left := Some x\<rparr>)" using qa True xx by (simp add: assms(10))
      have "left an = None" using an(4) Leaf by simp
      then show ?thesis using True Leaf ha hx an qa rr dd assms(6,7) by simp
    next
      case N: (Node l1 b r1)
      then have ln: "l \<noteq> Leaf" by simp
      from ins_path_tmp[OF ip] ln have ql: "q \<in> set_tree l" by auto
      then have qa: "q \<noteq> a" "q \<notin> set_tree r" using dd Node.prems(3) by auto
      have ha: "h' a = Some an" using qa xx an(2) by (simp add: assms(10))
      have "reps h' (Some a) (left an) (ins_tree h k x l)"
        by (rule Node.IH(1)[OF an(4) ln dd(1) xx(2) ip])
      then show ?thesis using True ha an rr[OF qa(2)] by simp
    qed
  next
    case False
    then have ip: "ins_path h k r (Some a) (d + 1) False rm = Inr (Some q, d', lm', rm')"
      using Node.prems(5) by (auto split: if_splits)
    have ll: "reps h' (Some a) (left an) l" if "q \<notin> set_tree l"
      using an(4) xx that by (subst reps_frame[where h = h]) (auto simp: assms(10))
    show ?thesis
    proof (cases r)
      case Leaf
      with ip have qa: "q = a" by simp
      then have "qn = an" using assms(9) an(2) by simp
      then have ha: "h' a = Some (an\<lparr>right := Some x\<rparr>)" using qa False xx by (simp add: assms(10))
      have "right an = None" using an(5) Leaf by simp
      then show ?thesis using False Leaf ha hx an qa ll dd assms(6,7) by simp
    next
      case N: (Node l1 b r1)
      then have rn: "r \<noteq> Leaf" by simp
      from ins_path_tmp[OF ip] rn have qr: "q \<in> set_tree r" by auto
      then have qa: "q \<noteq> a" "q \<notin> set_tree l" using dd Node.prems(3) by auto
      have ha: "h' a = Some an" using qa xx an(2) by (simp add: assms(10))
      have "reps h' (Some a) (right an) (ins_tree h k x r)"
        by (rule Node.IH(2)[OF an(5) rn dd(2) xx(3) ip])
      then show ?thesis using False ha an ll[OF qa(2)] by simp
    qed
  qed
qed

lemma scapegoat_root: "scapegoat (Node l a r) a = None"
  by simp

lemma scapegoat_step:
  assumes "distinct (inorder t)" "q \<in> set_tree t" "sub t q = Node l q r" "a \<in> set_tree t"
    "sub t a = l \<or> sub t a = r"
  shows "scapegoat t a = (if node_balanced (Node l q r) then scapegoat t q else Some q)"
  using assms
proof (induction t)
  case Leaf
  then show ?case by simp
next
  case (Node l' b r')
  from Node.prems(1) have d: "distinct (inorder l')" "distinct (inorder r')" "b \<notin> set_tree l'"
    "b \<notin> set_tree r'" "set_tree l' \<inter> set_tree r' = {}" by auto
  from sub_root[OF Node.prems(4)] obtain la ra where sa: "sub (Node l' b r') a = Node la a ra" by blast
  show ?case
  proof (cases "q = b")
    case True
    then have lr: "l = l'" "r = r'" using Node.prems(3) by simp_all
    from Node.prems(5) show ?thesis
    proof
      assume "sub (Node l' b r') a = l"
      then have l: "l' = Node la a ra" using sa lr by simp
      then have "a \<noteq> b" "a \<in> set_tree l'" using d(3) by auto
      then show ?thesis using True lr l by simp
    next
      assume "sub (Node l' b r') a = r"
      then have r: "r' = Node la a ra" using sa lr by simp
      then have "a \<noteq> b" "a \<in> set_tree r'" "a \<notin> set_tree l'" using d(4,5) by auto
      then show ?thesis using True lr r by simp
    qed
  next
    case False
    have as: "a \<in> set_tree (sub (Node l' b r') q)"
      using Node.prems(3,5) sa by auto
    have ab: "a \<noteq> b"
    proof
      assume "a = b"
      then have "b \<in> set_tree (sub (Node l' b r') q)" using as by simp
      moreover have "set_tree (sub (Node l' b r') q) \<subseteq> set_tree l' \<union> set_tree r'"
        using False set_tree_sub[of l' q] set_tree_sub[of r' q] by auto
      ultimately show False using d(3,4) by auto
    qed
    show ?thesis
    proof (cases "q \<in> set_tree l'")
      case True
      then have sq: "sub l' q = Node l q r" using Node.prems(3) False by simp
      have al: "a \<in> set_tree l'" using as True False set_tree_sub[of l' q] by auto
      then have "sub l' a = l \<or> sub l' a = r" using Node.prems(5) ab by simp
      from Node.IH(1)[OF d(1) True sq al this]
      show ?thesis using True al ab False by simp
    next
      case qr: False
      then have qr': "q \<in> set_tree r'" using Node.prems(2) False by auto
      have sq: "sub r' q = Node l q r" using Node.prems(3) False qr by simp
      have ar: "a \<in> set_tree r'" using as qr False set_tree_sub[of r' q] by auto
      then have anl: "a \<notin> set_tree l'" using d(5) by auto
      then have "sub r' a = l \<or> sub r' a = r" using Node.prems(5) ab by simp
      from Node.IH(2)[OF d(2) qr' sq ar this]
      show ?thesis using qr anl ab False by simp
    qed
  qed
qed

lemma ins_path_depth:
  "x \<notin> set_tree t \<Longrightarrow> ins_path h k t tmp d0 lm rm = Inr (q, d, lm', rm') \<Longrightarrow>
   d = d0 + int (depth (ins_tree h k x t) x)"
proof (induction t arbitrary: tmp d0 lm rm)
  case Leaf
  then show ?case by simp
next
  case (Node l a r)
  from Node.prems(1) have xa: "x \<noteq> a" "x \<notin> set_tree l" "x \<notin> set_tree r" by auto
  show ?case
  proof (cases "k < key_of h a")
    case True
    with Node.prems(2) have "ins_path h k l (Some a) (d0 + 1) lm False = Inr (q, d, lm', rm')" by simp
    from Node.IH(1)[OF xa(2) this] show ?thesis using True xa by (simp add: set_ins_tree)
  next
    case False
    with Node.prems(2) have "ins_path h k r (Some a) (d0 + 1) False rm = Inr (q, d, lm', rm')"
      by (auto split: if_splits)
    from Node.IH(2)[OF xa(3) this] show ?thesis using False xa by (simp add: set_ins_tree)
  qed
qed

lemma scapegoat_loop_correct:
  fixes T :: "('k::{linorder,default}, 'v::default) sgt"
  assumes "tree_inv T t" "a \<in> set_tree t"
  shows "\<exists>T' t'. scapegoat_loop T (Some a) = ret T' \<and> tree_inv T' t' \<and> inorder t' = inorder t \<and>
           same_pairs (heap T) (heap T') \<and> first T' = first T \<and> last_node T' = last_node T \<and>
           nxt T \<le> nxt T' \<and> t' = rebuilt t a"
  using assms(2)
proof (induction "depth t a" arbitrary: a rule: less_induct)
  case less
  from assms(1) have r: "reps (heap T) None (root T) t" and d: "distinct (inorder t)"
    by (simp_all add: tree_inv_def)
  from reps_alloc[OF r less.prems] obtain an where an: "heap T a = Some an" by auto
  show ?case
  proof (cases "parent an")
    case None
    then have "scapegoat_loop T (Some a) = ret T"
      using an by (subst scapegoat_loop.simps) simp
    moreover have "root T = Some a"
    proof (rule ccontr)
      assume "root T \<noteq> Some a"
      from child_of_parent[OF r d less.prems an this] None show False by auto
    qed
    then have "rebuilt t a = t" using r by (cases t) (auto simp: rebuilt_def)
    ultimately show ?thesis using assms(1) by auto
  next
    case (Some q)
    have rn: "root T \<noteq> Some a"
    proof
      assume "root T = Some a"
      with r an have "parent an = None" by (auto dest: reps_parent_root)
      with Some show False by simp
    qed
    from child_of_parent[OF r d less.prems an rn] Some obtain qn l rr where
      q: "q \<in> set_tree t" "heap T q = Some qn" "sub t q = Node l q rr" "depth t a = Suc (depth t q)"
         "sub t a = l \<or> sub t a = rr"
      by auto
    have rq: "reps (heap T) (parent qn) (Some q) (Node l q rr)"
      using reps_sub[OF r q(1,2)] q(3) by simp
    then have rl: "reps (heap T) (Some q) (left qn) l" and rrr: "reps (heap T) (Some q) (right qn) rr"
      using q(2) by auto
    have n1: "node_size (heap T) (Some q) = ret (int (size (sub t q)))"
      using node_size_reps[OF rq] q(3) by simp
    have n2: "node_size (heap T) (left qn) = ret (int (size l))" by (rule node_size_reps[OF rl])
    have n3: "node_size (heap T) (right qn) = ret (int (size rr))" by (rule node_size_reps[OF rrr])
    define B where "B = (real_of_int (int (size l)) \<le> alpha * real_of_int (int (size (sub t q))) \<and>
       real_of_int (int (size rr)) \<le> alpha * real_of_int (int (size (sub t q))))"
    have bal: "(if real_of_int (int (size l)) \<le> alpha * real_of_int (int (size (sub t q)))
           then bindE (node_size (heap T) (right qn))
                 (\<lambda>rs. ret (real_of_int rs \<le> alpha * real_of_int (int (size (sub t q)))))
           else ret False) = ret B"
      by (simp add: n3 B_def)
    have step: "scapegoat_loop T (Some a) =
        (if \<not> B then rebuild_at T (Some q) (int (size (sub t q))) else scapegoat_loop T (Some q))"
      apply (subst scapegoat_loop.simps)
      using an Some q(2) n1 n2 bal
      apply (simp add: Let_def del: not_None_eq of_int_of_nat_eq split del: if_split cong: bindE_weak_cong)
      apply (simp cong: if_cong)
      done
    have nb: "B = node_balanced (Node l q rr)" by (simp add: B_def q(3))
    have sg: "scapegoat t a = (if B then scapegoat t q else Some q)"
      unfolding nb by (rule scapegoat_step[OF d q(1,3) less.prems q(5)])
    show ?thesis
    proof (cases B)
      case True
      have "depth t q < depth t a" using q(4) by simp
      moreover have "rebuilt t a = rebuilt t q" using sg True by (simp add: rebuilt_def)
      ultimately show ?thesis using less.hyps[OF _ q(1)] step True by simp
    next
      case False
      from rebuild_at_correct[OF assms(1) q(1)] obtain T' t' where
        rb: "rebuild_at T (Some q) (int (size (sub t q))) = ret T'" "tree_inv T' t'"
            "inorder t' = inorder t" "same_pairs (heap T) (heap T')" "nxt T' = nxt T + 1"
            "first T' = first T" "last_node T' = last_node T"
            "t' = repl t q (build_tree (size (sub t q)) (inorder (sub t q)))"
        by blast
      have "scapegoat_loop T (Some a) = ret T'" using step False rb(1) by simp
      moreover have "nxt T \<le> nxt T'" using rb(5) by simp
      moreover have "t' = rebuilt t a" using sg False rb(8) by (simp add: rebuilt_def)
      ultimately show ?thesis using rb(2,3,4,6,7) by blast
    qed
  qed
qed

lemma lookup_addr_absent: "k \<notin> set (keys h t) \<Longrightarrow> lookup_addr h t k = None"
proof (cases "lookup_addr h t k")
  case None
  then show ?thesis .
next
  case (Some a)
  assume "k \<notin> set (keys h t)"
  with lookup_addr_Some[OF Some] show ?thesis by (auto simp: keys_def)
qed

lemma h_alpha_search_one: "h_alpha_search 1 0 = 0"
  by (subst h_alpha_search.simps) (simp add: alpha_def)

lemma insert_kv_attach:
  fixes T :: "('k::{linorder,default}, 'v::default) sgt"
  assumes "tree_inv T t" "k \<notin> set (keys (heap T) t)"
  shows "\<exists>tmp d lm rm. ins_path (heap T) k t None 0 True True = Inr (tmp, d, lm, rm) \<and>
      insert_kv T k v =
        bindE (if d > h_alpha (attach T k v tmp lm rm) \<and> tree_size (attach T k v tmp lm rm) > 2
               then scapegoat_loop (attach T k v tmp lm rm) (Some (nxt T))
               else ret (attach T k v tmp lm rm)) (\<lambda>T8. ret (T8, Some (nxt T), True))"
proof -
  define x where "x = nxt T"
  define xn0 :: "('k, 'v) node" where "xn0 = \<lparr>parent = None, left = None, right = None, pair = (k, v)\<rparr>"
  define h1 where "h1 = (heap T)(x \<mapsto> xn0)"
  from assms(1) have r: "reps (heap T) None (root T) t" by (simp add: tree_inv_def)
  have fresh: "x \<notin> set_tree t" using tree_inv_fresh[OF assms(1)] by (simp add: x_def)
  have r1: "reps h1 None (root T) t"
    using r fresh by (subst reps_frame[where h = "heap T"]) (auto simp: h1_def)
  have ko: "key_of h1 a = key_of (heap T) a" if "a \<in> set_tree t" for a
    using that fresh by (auto simp: key_of_def h1_def)
  have ip_eq: "ins_path h1 k s tmp d lm rm = ins_path (heap T) k s tmp d lm rm"
    if "set_tree s \<subseteq> set_tree t" for s tmp d lm rm
    using that by (induction s arbitrary: tmp d lm rm) (auto simp: ko)
  from ins_path_not_found[OF lookup_addr_absent[OF assms(2)]]
  obtain tmp d lm rm where ip: "ins_path (heap T) k t None 0 True True = Inr (tmp, d, lm, rm)"
    by blast
  have il: "insert_loop h1 k (root T) None 0 True True = ret (Inr (tmp, d, lm, rm))"
    using insert_loop_reps[OF r1] ip_eq[of t] ip by simp
  have tq: "\<exists>qn. heap T q = Some qn" if "tmp = Some q" for q
  proof -
    from ins_path_tmp[OF ip] that have "q \<in> set_tree t" by auto
    from reps_alloc[OF r this] show ?thesis by auto
  qed
  have qx: "q \<noteq> x" if "tmp = Some q" for q
    using ins_path_tmp[OF ip] that fresh by auto
  show ?thesis
  proof (cases tmp)
    case None
    show ?thesis
      apply (rule exI[of _ tmp], rule exI[of _ d], rule exI[of _ lm], rule exI[of _ rm])
      apply (rule conjI[OF ip])
      using il None
      apply (simp add: insert_kv_def new_node_def attach_def Let_def x_def[symmetric] h1_def[symmetric] xn0_def[symmetric]
          split del: if_split cong: bindE_weak_cong)
      apply (cases lm; cases rm; simp add: h1_def xn0_def x_def attach_def Let_def split del: if_split cong: if_cong)
      done
  next
    case (Some q)
    from tq[OF Some] obtain qn where qn: "heap T q = Some qn" by auto
    have kq: "fst (pair qn) = key_of (heap T) q" using qn by (simp add: key_of_def)
    show ?thesis
      apply (rule exI[of _ tmp], rule exI[of _ d], rule exI[of _ lm], rule exI[of _ rm])
      apply (rule conjI[OF ip])
      using il Some qn qx[OF Some]
      apply (simp add: insert_kv_def new_node_def attach_def Let_def x_def[symmetric] h1_def[symmetric] xn0_def[symmetric]
          split del: if_split cong: bindE_weak_cong)
      apply (simp add: h1_def xn0_def kq Let_def split del: if_split cong: bindE_weak_cong)
      apply (cases "k < key_of (heap T) q"; cases lm; cases rm;
          simp add: fun_upd_twist x_def attach_def Let_def split del: if_split cong: if_cong)
      done
  qed
qed

lemma ins_tree_cong:
  "(\<And>a. a \<in> set_tree t \<Longrightarrow> key_of h' a = key_of h a) \<Longrightarrow> ins_tree h' k x t = ins_tree h k x t"
  by (induction t) auto

lemma ins_path_cong:
  "(\<And>a. a \<in> set_tree t \<Longrightarrow> key_of h' a = key_of h a) \<Longrightarrow>
   ins_path h' k t tmp d lm rm = ins_path h k t tmp d lm rm"
  by (induction t arbitrary: tmp d lm rm) auto

lemma ins_tree_not_Leaf: "ins_tree h k x t \<noteq> Leaf"
  by (cases t) auto

lemma attach_inv:
  fixes T :: "('k::linorder, 'v) sgt"
  assumes "tree_inv T t" "k \<notin> set (keys (heap T) t)"
    "ins_path (heap T) k t None 0 True True = Inr (tmp, d, lm, rm)"
  shows "tree_inv (attach T k v tmp lm rm) (ins_tree (heap T) k (nxt T) t)"
proof -
  define x where "x = nxt T"
  define xn0 :: "('k, 'v) node" where "xn0 = \<lparr>parent = None, left = None, right = None, pair = (k, v)\<rparr>"
  define h1 where "h1 = (heap T)(x \<mapsto> xn0)"
  define T' where "T' = attach T k v tmp lm rm"
  from assms(1) have r: "reps (heap T) None (root T) t" and di: "distinct (inorder t)"
    and so: "sorted_wrt (<) (keys (heap T) t)" and sz: "tree_size T = int (size t)"
    and ms: "tree_size T \<le> max_size T"
    and fi: "first T = (if inorder t = [] then None else Some (hd (inorder t)))"
    and la: "last_node T = (if inorder t = [] then None else Some (last (inorder t)))"
    and fr: "\<forall>a. nxt T \<le> a \<longrightarrow> heap T a = None"
    by (simp_all add: tree_inv_def)
  have fresh: "x \<notin> set_tree t" using tree_inv_fresh[OF assms(1)] by (simp add: x_def)
  have r1: "reps h1 None (root T) t"
    using r fresh by (subst reps_frame[where h = "heap T"]) (auto simp: h1_def)
  have ko1: "key_of h1 a = key_of (heap T) a" if "a \<in> set_tree t" for a
    using that fresh by (auto simp: key_of_def h1_def)
  have fields: "nxt T' = x + 1" "tree_size T' = tree_size T + 1"
    "max_size T' = max (max_size T) (tree_size T + 1)"
    "first T' = (if lm then Some x else first T)"
    "last_node T' = (if rm then Some x else last_node T)"
    "root T' = (if tmp = None then Some x else root T)"
    by (simp_all add: T'_def attach_def Let_def x_def)
  have hx: "heap T' x = Some (xn0\<lparr>parent := tmp\<rparr>)"
    using ins_path_tmp[OF assms(3)] fresh
    by (auto simp: T'_def attach_def Let_def x_def xn0_def split: option.splits)
  have pres: "map_option pair (heap T' a) = map_option pair (heap T a)" if "a \<noteq> x" for a
  proof (cases tmp)
    case None
    then show ?thesis using that by (simp add: T'_def attach_def Let_def x_def)
  next
    case (Some q)
    from ins_path_tmp[OF assms(3)] Some have "q \<in> set_tree t" by auto
    from reps_alloc[OF r this] obtain qn where "heap T q = Some qn" by auto
    then show ?thesis using that Some by (simp add: T'_def attach_def Let_def x_def)
  qed
  have ko: "key_of (heap T') a = key_of (heap T) a" if "a \<in> set_tree t" for a
  proof -
    have "a \<noteq> x" using that fresh by auto
    from pres[OF this] reps_alloc[OF r that] show ?thesis by (rule key_of_same)
  qed
  have kx: "key_of (heap T') x = k" using hx by (simp add: key_of_def xn0_def)
  have rp: "reps (heap T') None (root T') (ins_tree (heap T) k x t)"
  proof (cases t)
    case Leaf
    with assms(3) have "tmp = None" by simp
    then show ?thesis using Leaf hx fields by (simp add: xn0_def)
  next
    case (Node l a rr)
    then have ne: "t \<noteq> Leaf" by simp
    from ins_path_tmp[OF assms(3)] ne obtain q where q: "tmp = Some q" "q \<in> set_tree t" by auto
    from reps_alloc[OF r q(2)] obtain qn where qn: "heap T q = Some qn" by auto
    have qx: "q \<noteq> x" using q fresh by auto
    have ip1: "ins_path h1 k t None 0 True True = Inr (Some q, d, lm, rm)"
      using ins_path_cong[of t h1 "heap T"] ko1 assms(3) q by simp
    have h': "heap T' = h1(x \<mapsto> xn0\<lparr>parent := Some q\<rparr>,
        q \<mapsto> (if k < key_of h1 q then qn\<lparr>left := Some x\<rparr> else qn\<lparr>right := Some x\<rparr>))"
      using q qn ko1[OF q(2)] by (simp add: T'_def attach_def Let_def x_def h1_def xn0_def)
    have "reps (heap T') None (root T) (ins_tree h1 k x t)"
      by (rule ins_attach[OF r1 ne di fresh _ _ _ ip1 _ h'])
         (simp_all add: h1_def xn0_def qx qn)
    moreover have "ins_tree h1 k x t = ins_tree (heap T) k x t"
      by (rule ins_tree_cong) (rule ko1)
    ultimately show ?thesis using fields q by simp
  qed
  have fl: "lm = (\<forall>a\<in>set_tree t. k < key_of (heap T) a)" "rm = (\<forall>a\<in>set_tree t. key_of (heap T) a < k)"
    using ins_path_flags[OF so assms(3)] by simp_all
  have f1: "first T' = Some (hd (inorder (ins_tree (heap T) k x t)))"
    using fields(4) fl(1) fi hd_ins_tree[OF so, of k x] by (cases "inorder t = []") auto
  have l1: "last_node T' = Some (last (inorder (ins_tree (heap T) k x t)))"
    using fields(5) fl(2) la last_ins_tree[OF so assms(2), of x] by (cases "inorder t = []") auto
  have nx: "\<forall>a. nxt T' \<le> a \<longrightarrow> heap T' a = None"
  proof (intro allI impI)
    fix a assume a: "nxt T' \<le> a"
    then have ax: "a \<noteq> x" "nxt T \<le> a" using fields(1) by (simp_all add: x_def)
    from pres[OF ax(1)] fr ax(2) show "heap T' a = None" by simp
  qed
  have "sorted_wrt (<) (keys (heap T') (ins_tree (heap T) k x t))"
    by (rule sorted_ins_tree[OF so assms(2) kx ko])
  then show ?thesis
    using rp distinct_ins_tree[OF di fresh] f1 l1 nx fields(2,3) sz ms
    unfolding tree_inv_def T'_def[symmetric] x_def[symmetric]
    by (simp add: size_ins_tree ins_tree_not_Leaf)
qed

lemma attach_heap:
  fixes T :: "('k::linorder, 'v) sgt"
  assumes "tree_inv T t" "ins_path (heap T) k t None 0 True True = Inr (tmp, d, lm, rm)"
  shows "map_option pair (heap (attach T k v tmp lm rm) (nxt T)) = Some (k, v)"
    "a \<noteq> nxt T \<Longrightarrow> map_option pair (heap (attach T k v tmp lm rm) a) = map_option pair (heap T a)"
    "nxt (attach T k v tmp lm rm) = nxt T + 1"
    "tree_size (attach T k v tmp lm rm) = tree_size T + 1"
proof -
  from assms(1) have r: "reps (heap T) None (root T) t" by (simp add: tree_inv_def)
  have q: "q \<in> set_tree t" if "tmp = Some q" for q using ins_path_tmp[OF assms(2)] that by auto
  have qn: "\<exists>qn. heap T q = Some qn" if "tmp = Some q" for q using reps_alloc[OF r q[OF that]] by auto
  have qx: "q \<noteq> nxt T" if "tmp = Some q" for q using q[OF that] tree_inv_fresh[OF assms(1)] by auto
  show "map_option pair (heap (attach T k v tmp lm rm) (nxt T)) = Some (k, v)"
    using qx by (auto simp: attach_def Let_def split: option.splits)
  show "a \<noteq> nxt T \<Longrightarrow> map_option pair (heap (attach T k v tmp lm rm) a) = map_option pair (heap T a)"
    using qn by (auto simp: attach_def Let_def split: option.splits)
  show "nxt (attach T k v tmp lm rm) = nxt T + 1" "tree_size (attach T k v tmp lm rm) = tree_size T + 1"
    by (simp_all add: attach_def Let_def)
qed

lemma find_key_inv: "tree_inv T t \<Longrightarrow> find_key T k = ret (lookup_addr (heap T) t k)"
  by (simp add: find_key_def tree_inv_def find_loop_reps[where par = None and t = t] end_it_def)

lemma find_key_present:
  "tree_inv T t \<Longrightarrow> a \<in> set_tree t \<Longrightarrow> key_of (heap T) a = k \<Longrightarrow> find_key T k = ret (Some a)"
  using lookup_addr_mem[of "heap T" t a] by (auto simp: find_key_inv tree_inv_def)

lemma find_key_absent:
  "tree_inv T t \<Longrightarrow> k \<notin> set (keys (heap T) t) \<Longrightarrow> find_key T k = ret (end_it T)"
  by (simp add: find_key_inv lookup_addr_absent end_it_def)

lemma insert_new:
  fixes T :: "('k::{linorder,default}, 'v::default) sgt"
  assumes "tree_inv T t" "k \<notin> set (keys (heap T) t)"
  shows "\<exists>T' t'. insert_kv T k v = ret (T', Some (nxt T), True) \<and> tree_inv T' t' \<and>
           inorder t' = inorder (ins_tree (heap T) k (nxt T) t) \<and>
           map_option pair (heap T' (nxt T)) = Some (k, v) \<and>
           (\<forall>a. a \<noteq> nxt T \<longrightarrow> map_option pair (heap T' a) = map_option pair (heap T a)) \<and>
           tree_size T' = tree_size T + 1 \<and> nxt T < nxt T' \<and>
           t' = (if h_alpha_search (int (size (ins_tree (heap T) k (nxt T) t))) 0
                     < int (depth (ins_tree (heap T) k (nxt T) t) (nxt T)) \<and>
                   2 < size (ins_tree (heap T) k (nxt T) t)
                 then rebuilt (ins_tree (heap T) k (nxt T) t) (nxt T)
                 else ins_tree (heap T) k (nxt T) t)"
proof -
  from insert_kv_attach[OF assms, of v] obtain tmp d lm rm where
    ip: "ins_path (heap T) k t None 0 True True = Inr (tmp, d, lm, rm)" and
    eq: "insert_kv T k v =
        bindE (if d > h_alpha (attach T k v tmp lm rm) \<and> tree_size (attach T k v tmp lm rm) > 2
               then scapegoat_loop (attach T k v tmp lm rm) (Some (nxt T))
               else ret (attach T k v tmp lm rm)) (\<lambda>T8. ret (T8, Some (nxt T), True))"
    by blast
  define T7 where "T7 = attach T k v tmp lm rm"
  define t7 where "t7 = ins_tree (heap T) k (nxt T) t"
  have inv7: "tree_inv T7 t7" unfolding T7_def t7_def by (rule attach_inv[OF assms ip])
  note ah = attach_heap[OF assms(1) ip, where v = v, folded T7_def]
  have x7: "nxt T \<in> set_tree t7" by (simp add: t7_def set_ins_tree)
  have dd: "d = int (depth t7 (nxt T))"
    using ins_path_depth[OF tree_inv_fresh[OF assms(1)] ip] by (simp add: t7_def)
  have sz7: "tree_size T7 = int (size t7)" using inv7 by (simp add: tree_inv_def)
  have ceq: "(d > h_alpha T7 \<and> tree_size T7 > 2) =
      (h_alpha_search (int (size t7)) 0 < int (depth t7 (nxt T)) \<and> 2 < size t7)"
    by (simp add: dd h_alpha_def sz7)
  show ?thesis
  proof (cases "d > h_alpha T7 \<and> tree_size T7 > 2")
    case True
    from scapegoat_loop_correct[OF inv7 x7] obtain T' t' where
      s: "scapegoat_loop T7 (Some (nxt T)) = ret T'" "tree_inv T' t'" "inorder t' = inorder t7"
         "same_pairs (heap T7) (heap T')" "nxt T7 \<le> nxt T'"
         "t' = rebuilt t7 (nxt T)"
      by blast
    have sz: "tree_size T' = tree_size T7"
      using s(2,3) inv7 by (simp add: tree_inv_def) (metis length_inorder)
    have "insert_kv T k v = ret (T', Some (nxt T), True)"
      using eq True s(1) by (simp add: T7_def)
    moreover have sp: "map_option pair (heap T' a) = map_option pair (heap T7 a)" for a
      using s(4) by (simp add: same_pairs_def)
    moreover have "map_option pair (heap T' (nxt T)) = Some (k, v)" using sp ah(1) by simp
    moreover have "\<forall>a. a \<noteq> nxt T \<longrightarrow> map_option pair (heap T' a) = map_option pair (heap T a)"
      using sp ah(2) by simp
    moreover have "tree_size T' = tree_size T + 1" "nxt T < nxt T'" using sz ah(3,4) s(5) by simp_all
    moreover have "t' = (if h_alpha_search (int (size t7)) 0 < int (depth t7 (nxt T)) \<and> 2 < size t7
                         then rebuilt t7 (nxt T) else t7)"
      using s(6) by (simp only: if_P[OF True[unfolded ceq]])
    ultimately show ?thesis using s(2,3) unfolding t7_def by blast
  next
    case False
    have "insert_kv T k v = ret (T7, Some (nxt T), True)"
      unfolding eq using False[unfolded T7_def] by (subst if_not_P) (simp_all add: T7_def)
    moreover have "\<forall>a. a \<noteq> nxt T \<longrightarrow> map_option pair (heap T7 a) = map_option pair (heap T a)"
      using ah(2) by simp
    moreover have "nxt T < nxt T7" using ah(3) by simp
    moreover have "t7 = (if h_alpha_search (int (size t7)) 0 < int (depth t7 (nxt T)) \<and> 2 < size t7
                         then rebuilt t7 (nxt T) else t7)"
      by (simp only: if_not_P[OF False[unfolded ceq]])
    ultimately show ?thesis using inv7 ah(1,4) unfolding t7_def by blast
  qed
qed

lemma reps_pair_upd:
  "h a = Some an \<Longrightarrow> reps (h(a \<mapsto> an\<lparr>pair := pr\<rparr>)) par p t = reps h par p t"
  by (induction t arbitrary: par p) (auto split: option.splits)

lemma insert_dup:
  fixes T :: "('k::{linorder,default}, 'v::default) sgt"
  assumes "tree_inv T t" "a \<in> set_tree t" "key_of (heap T) a = k" "heap T a = Some an"
  shows "insert_kv T k v =
     ret (T\<lparr>nxt := nxt T + 1,
            heap := (if v \<noteq> snd (pair an) then (heap T)(a \<mapsto> an\<lparr>pair := (fst (pair an), v)\<rparr>) else heap T)\<rparr>,
          Some a, v \<noteq> snd (pair an))"
proof -
  define x where "x = nxt T"
  define xn0 :: "('k, 'v) node" where "xn0 = \<lparr>parent = None, left = None, right = None, pair = (k, v)\<rparr>"
  define h1 where "h1 = (heap T)(x \<mapsto> xn0)"
  from assms(1) have r: "reps (heap T) None (root T) t" and so: "sorted_wrt (<) (keys (heap T) t)"
    and fr: "heap T x = None" by (simp_all add: tree_inv_def x_def)
  have fresh: "x \<notin> set_tree t" using tree_inv_fresh[OF assms(1)] by (simp add: x_def)
  have ax: "a \<noteq> x" using assms(2) fresh by auto
  have r1: "reps h1 None (root T) t"
    using r fresh by (subst reps_frame[where h = "heap T"]) (auto simp: h1_def)
  have ko1: "key_of h1 b = key_of (heap T) b" if "b \<in> set_tree t" for b
    using that fresh by (auto simp: key_of_def h1_def)
  have "ins_path h1 k t None 0 True True = ins_path (heap T) k t None 0 True True"
    by (rule ins_path_cong) (rule ko1)
  also have "\<dots> = Inl (Some a)"
    using ins_path_found[OF lookup_addr_mem[OF so assms(2)]] assms(3) by simp
  finally have il: "insert_loop h1 k (root T) None 0 True True = ret (Inl (Some a))"
    using insert_loop_reps[OF r1] by simp
  have e1: "(h1(a \<mapsto> an\<lparr>pair := (fst (pair an), v)\<rparr>))(x := None) = (heap T)(a \<mapsto> an\<lparr>pair := (fst (pair an), v)\<rparr>)"
    using fr ax by (auto simp: h1_def fun_eq_iff)
  have e2: "h1(x := None) = heap T" using fr by (auto simp: h1_def fun_eq_iff)
  have d1: "delete_node (h1(a \<mapsto> an\<lparr>pair := (fst (pair an), v)\<rparr>)) (Some x) = ret ((heap T)(a \<mapsto> an\<lparr>pair := (fst (pair an), v)\<rparr>))"
    using delete_single[of "h1(a \<mapsto> an\<lparr>pair := (fst (pair an), v)\<rparr>)" x xn0] ax e1
    by (simp add: h1_def xn0_def)
  have d2: "delete_node h1 (Some x) = ret (heap T)"
    using delete_single[of h1 x xn0] e2 by (simp add: h1_def xn0_def)
  have g: "h1 x = Some xn0" "h1 a = Some an" using ax assms(4) by (simp_all add: h1_def)
  show ?thesis
    using il g d1 d2
    apply (simp add: insert_kv_def new_node_def Let_def x_def[symmetric] h1_def[symmetric] xn0_def[symmetric]
          split del: if_split cong: bindE_weak_cong)
    apply (cases "v = snd (pair an)"; simp add: xn0_def)
    done
qed

lemma insert_dup_inv:
  fixes T :: "('k::{linorder,default}, 'v::default) sgt"
  assumes "tree_inv T t" "a \<in> set_tree t" "heap T a = Some an"
  shows "tree_inv (T\<lparr>nxt := nxt T + 1,
            heap := (if v \<noteq> snd (pair an) then (heap T)(a \<mapsto> an\<lparr>pair := (fst (pair an), v)\<rparr>) else heap T)\<rparr>) t"
proof -
  define h' where "h' = (if v \<noteq> snd (pair an) then (heap T)(a \<mapsto> an\<lparr>pair := (fst (pair an), v)\<rparr>) else heap T)"
  have r: "reps h' None (root T) t"
    using assms(1,3) by (simp add: h'_def tree_inv_def reps_pair_upd)
  have "key_of h' b = key_of (heap T) b" for b
    using assms(3) by (simp add: h'_def key_of_def)
  then have k: "keys h' t = keys (heap T) t" by (simp add: keys_def)
  have n: "\<forall>b. nxt T + 1 \<le> b \<longrightarrow> h' b = None"
    using assms(1,3) by (auto simp: h'_def tree_inv_def)
  show ?thesis
    using assms(1) r k n unfolding tree_inv_def h'_def[symmetric] by simp
qed

lemma tree_inv_keys_distinct:
  "tree_inv T t \<Longrightarrow> a \<in> set_tree t \<Longrightarrow> b \<in> set_tree t \<Longrightarrow>
   key_of (heap T) a = key_of (heap T) b \<Longrightarrow> a = b"
proof -
  assume "tree_inv T t" and a: "a \<in> set_tree t" and b: "b \<in> set_tree t"
    and k: "key_of (heap T) a = key_of (heap T) b"
  then have s: "sorted_wrt (<) (keys (heap T) t)" by (simp add: tree_inv_def)
  have "Some a = lookup_addr (heap T) t (key_of (heap T) a)" using lookup_addr_mem[OF s a] by simp
  also have "\<dots> = lookup_addr (heap T) t (key_of (heap T) b)" by (simp only: k)
  also have "\<dots> = Some b" by (rule lookup_addr_mem[OF s b])
  finally show "a = b" by simp
qed

lemma one_node_inv: "tree_inv one_node \<langle>\<langle>\<rangle>, 0, \<langle>\<rangle>\<rangle>"
  by (simp add: tree_inv_def one_node_def keys_def)

section \<open>Deletion keeps the invariant\<close>

lemma take_min_inorder: "t \<noteq> Leaf \<Longrightarrow> inorder t = fst (take_min t) # inorder (snd (take_min t))"
  by (induction t) auto

lemma take_min_hd: "t \<noteq> Leaf \<Longrightarrow> fst (take_min t) = hd (inorder t)"
  using take_min_inorder[of t] by simp

lemma inorder_del_root: "inorder (del_root (Node l a r)) = inorder l @ inorder r"
  using take_min_inorder[of r] by auto

lemma inorder_del_tree:
  assumes "a \<in> set_tree t" "distinct (inorder t)"
  shows "inorder (del_tree t a) = remove1 a (inorder t)"
proof -
  from inorder_repl[OF assms] obtain pre post where
    p: "inorder t = pre @ inorder (sub t a) @ post" "\<forall>s. inorder (repl t a s) = pre @ inorder s @ post"
    by blast
  from sub_root[OF assms(1)] obtain l r where s: "sub t a = Node l a r" by blast
  have d: "a \<notin> set pre" "a \<notin> set (inorder l)"
    using assms(2) p(1) s by auto
  have "inorder (del_tree t a) = pre @ inorder l @ inorder r @ post"
    using p(2) s by (simp add: del_tree_def inorder_del_root del: del_root.simps)
  moreover have "remove1 a (inorder t) = pre @ inorder l @ inorder r @ post"
    using p(1) s d by (simp add: remove1_append)
  ultimately show ?thesis by simp
qed

lemma take_min_repl:
  "t \<noteq> Leaf \<Longrightarrow> distinct (inorder t) \<Longrightarrow>
   \<exists>ry. sub t (fst (take_min t)) = Node Leaf (fst (take_min t)) ry \<and>
        snd (take_min t) = repl t (fst (take_min t)) ry \<and> fst (take_min t) \<in> set_tree t"
proof (induction t)
  case Leaf
  then show ?case by simp
next
  case (Node l a r)
  show ?case
  proof (cases "l = Leaf")
    case True
    then show ?thesis by simp
  next
    case False
    from Node.prems have dl: "distinct (inorder l)" "a \<notin> set_tree l" by auto
    from Node.IH(1)[OF False dl(1)] obtain ry where
      ry: "sub l (fst (take_min l)) = Node Leaf (fst (take_min l)) ry"
          "snd (take_min l) = repl l (fst (take_min l)) ry" "fst (take_min l) \<in> set_tree l"
      by blast
    have "fst (take_min l) \<noteq> a" using ry(3) dl(2) by auto
    then show ?thesis using False ry by (intro exI[of _ ry]) simp
  qed
qed

lemma leftmost_reps: "reps h par (Some c) t \<Longrightarrow> leftmost h (Some c) = ret (Some (hd (inorder t)))"
proof (induction t arbitrary: par c)
  case Leaf
  then show ?case by simp
next
  case (Node l a r)
  from Node.prems obtain n where n: "c = a" "h a = Some n" "reps h (Some a) (left n) l"
    by (auto split: option.splits)
  show ?case
  proof (cases "left n")
    case None
    with n(3) have "l = Leaf" by (cases l) auto
    then show ?thesis using n None by (subst leftmost.simps) simp
  next
    case (Some d)
    with n(3) have "l \<noteq> Leaf" by (cases l) auto
    then have "hd (inorder (Node l a r)) = hd (inorder l)" by simp
    then show ?thesis using n Some Node.IH(1)[of "Some a" d] by (subst leftmost.simps) simp
  qed
qed

lemma rightmost_reps: "reps h par (Some c) t \<Longrightarrow> rightmost h (Some c) = ret (Some (last (inorder t)))"
proof (induction t arbitrary: par c)
  case Leaf
  then show ?case by simp
next
  case (Node l a r)
  from Node.prems obtain n where n: "c = a" "h a = Some n" "reps h (Some a) (right n) r"
    by (auto split: option.splits)
  show ?case
  proof (cases "right n")
    case None
    with n(3) have "r = Leaf" by (cases r) auto
    then show ?thesis using n None by (subst rightmost.simps) simp
  next
    case (Some d)
    with n(3) have "r \<noteq> Leaf" by (cases r) auto
    then have "last (inorder (Node l a r)) = last (inorder r)" by simp
    then show ?thesis using n Some Node.IH(2)[of "Some a" d] by (subst rightmost.simps) simp
  qed
qed

lemma hd_decomp:
  assumes "xs = pre @ a # post" "distinct xs" "hd xs = a"
  shows "pre = []"
proof (cases pre)
  case Nil
  then show ?thesis .
next
  case (Cons b bs)
  with assms(1,3) have "b = a" by simp
  with assms(1,2) Cons show ?thesis by simp
qed

lemma last_decomp:
  assumes "xs = pre @ a # post" "distinct xs" "last xs = a"
  shows "post = []"
proof (cases post rule: rev_cases)
  case Nil
  then show ?thesis .
next
  case (snoc bs b)
  with assms(1,3) have "b = a" by simp
  with assms(1,2) snoc show ?thesis by simp
qed

lemma next_node_first:
  fixes h :: "('k::linorder, 'v) heap"
  assumes "reps h None p t" "distinct (inorder t)" "sorted_wrt (<) (keys h t)" "t \<noteq> Leaf"
    "a = hd (inorder t)"
  shows "next_node h (Some a) = ret (if tl (inorder t) = [] then None else Some (hd (tl (inorder t))))"
proof -
  have at: "a \<in> set_tree t" using assms(4,5) hd_in_set[of "inorder t"] by simp
  from reps_alloc[OF assms(1) at] obtain an where an: "h a = Some an" by auto
  from sub_root[OF at] obtain la ra where s: "sub t a = Node la a ra" by blast
  from inorder_repl[OF at assms(2)] s obtain pre post where
    io: "inorder t = (pre @ inorder la) @ a # inorder ra @ post" by auto
  from hd_decomp[OF io assms(2) assms(5)[symmetric]] have e: "pre = []" "la = Leaf" by auto
  then have io': "inorder t = a # inorder ra @ post" using io by simp
  from reps_sub[OF assms(1) at an] s e have l: "left an = None" and r: "reps h (Some a) (right an) ra"
    using an by auto
  show ?thesis
  proof (cases "right an")
    case (Some c)
    with r have "ra \<noteq> Leaf" by (cases ra) auto
    then have "hd (tl (inorder t)) = hd (inorder ra)" "tl (inorder t) \<noteq> []" using io' by simp_all
    then show ?thesis using an Some leftmost_reps[of h "Some a" c ra] r
      by (simp add: next_node_def)
  next
    case None
    with r have ra: "ra = Leaf" by (cases ra) auto
    show ?thesis
    proof (cases "p = Some a")
      case True
      then have "parent an = None" using reps_parent_root[of h None a t an] assms(1) an by simp
      moreover have "sub t a = t" using assms(1) True by (cases t) auto
      then have "t = Node Leaf a Leaf" using s e ra by simp
      then have "inorder t = [a]" by simp
      ultimately show ?thesis using an None by (simp add: next_node_def)
    next
      case False
      from child_of_parent[OF assms(1,2) at an False] obtain q qn l r' where
        q: "parent an = Some q" "q \<in> set_tree t" "h q = Some qn" "sub t q = Node l q r'"
           "(left qn = Some a \<and> sub t a = l) \<or> (right qn = Some a \<and> sub t a = r' \<and> left qn \<noteq> Some a)"
        by blast
      from inorder_repl[OF q(2) assms(2)] q(4) obtain pre' post' where
        io2: "inorder t = pre' @ inorder l @ q # inorder r' @ post'" by auto
      have aq: "a \<noteq> q"
      proof
        assume "a = q"
        then have "a \<in> set_tree (sub t a)" "sub t a = Node l a r'" using q(4) by simp_all
        with q(5) s show False using assms(2) distinct_sub[OF assms(2), of a] by auto
      qed
      from q(5) show ?thesis
      proof
        assume A: "left qn = Some a \<and> sub t a = l"
        then have "l = Node Leaf a Leaf" using s e ra by simp
        then have "inorder t = pre' @ a # q # inorder r' @ post'" using io2 by simp
        from hd_decomp[OF this assms(2) assms(5)[symmetric]] this
        have io3: "inorder t = a # q # inorder r' @ post'" by simp
        then have "key_of h a < key_of h q" using assms(3) by (simp add: keys_def)
        then have "fst (pair an) < fst (pair qn)" using an q(3) by (simp add: key_of_def)
        then show ?thesis using an None q(1,3) io3 by (simp add: next_node_def)
      next
        assume B: "right qn = Some a \<and> sub t a = r' \<and> left qn \<noteq> Some a"
        then have "r' = Node Leaf a Leaf" using s e ra by simp
        then have "inorder t = (pre' @ inorder l @ [q]) @ a # post'" using io2 by simp
        from hd_decomp[OF this assms(2) assms(5)[symmetric]] show ?thesis by simp
      qed
    qed
  qed
qed

lemma prev_node_last:
  fixes h :: "('k::linorder, 'v) heap"
  assumes "reps h None p t" "distinct (inorder t)" "sorted_wrt (<) (keys h t)" "t \<noteq> Leaf"
    "a = last (inorder t)"
  shows "prev_node h (Some a) = ret (if butlast (inorder t) = [] then None else Some (last (butlast (inorder t))))"
proof -
  have at: "a \<in> set_tree t" using assms(4,5) last_in_set[of "inorder t"] by simp
  from reps_alloc[OF assms(1) at] obtain an where an: "h a = Some an" by auto
  from sub_root[OF at] obtain la ra where s: "sub t a = Node la a ra" by blast
  from inorder_repl[OF at assms(2)] s obtain pre post where
    io: "inorder t = (pre @ inorder la) @ a # inorder ra @ post" by auto
  from last_decomp[OF io assms(2) assms(5)[symmetric]] have e: "post = []" "ra = Leaf" by auto
  then have io': "inorder t = (pre @ inorder la) @ [a]" using io by simp
  from reps_sub[OF assms(1) at an] s e have r: "right an = None" and l: "reps h (Some a) (left an) la"
    using an by auto
  show ?thesis
  proof (cases "left an")
    case (Some c)
    with l have "la \<noteq> Leaf" by (cases la) auto
    then have "last (butlast (inorder t)) = last (inorder la)" "butlast (inorder t) \<noteq> []"
      using io' by (simp_all add: butlast_append)
    then show ?thesis using an Some rightmost_reps[of h "Some a" c la] l
      by (simp add: prev_node_def)
  next
    case None
    with l have la: "la = Leaf" by (cases la) auto
    show ?thesis
    proof (cases "p = Some a")
      case True
      then have "parent an = None" using reps_parent_root[of h None a t an] assms(1) an by simp
      moreover have "sub t a = t" using assms(1) True by (cases t) auto
      then have "t = Node Leaf a Leaf" using s e la by simp
      then have "inorder t = [a]" by simp
      ultimately show ?thesis using an None by (simp add: prev_node_def)
    next
      case False
      from child_of_parent[OF assms(1,2) at an False] obtain q qn l' r' where
        q: "parent an = Some q" "q \<in> set_tree t" "h q = Some qn" "sub t q = Node l' q r'"
           "(left qn = Some a \<and> sub t a = l') \<or> (right qn = Some a \<and> sub t a = r' \<and> left qn \<noteq> Some a)"
        by blast
      from inorder_repl[OF q(2) assms(2)] q(4) obtain pre' post' where
        io2: "inorder t = pre' @ inorder l' @ q # inorder r' @ post'" by auto
      from q(5) show ?thesis
      proof
        assume B: "right qn = Some a \<and> sub t a = r' \<and> left qn \<noteq> Some a"
        then have "r' = Node Leaf a Leaf" using s e la by simp
        then have i: "inorder t = (pre' @ inorder l' @ [q]) @ a # post'" using io2 by simp
        from last_decomp[OF this assms(2) assms(5)[symmetric]] this
        have io3: "inorder t = (pre' @ inorder l') @ [q, a]" by simp
        then have "sorted_wrt (<) (map (key_of h) (pre' @ inorder l') @ [key_of h q, key_of h a])"
          using assms(3) by (simp add: keys_def)
        then have "key_of h q < key_of h a" unfolding sorted_wrt_append by simp
        then have "fst (pair qn) < fst (pair an)" using an q(3) by (simp add: key_of_def)
        moreover have "butlast (inorder t) = (pre' @ inorder l') @ [q]" using io3 by (simp add: butlast_append)
        ultimately show ?thesis using an None q(1,3) by (simp add: prev_node_def)
      next
        assume A: "left qn = Some a \<and> sub t a = l'"
        then have "l' = Node Leaf a Leaf" using s e la by simp
        then have "inorder t = pre' @ a # (q # inorder r' @ post')" using io2 by simp
        from last_decomp[OF this assms(2) assms(5)[symmetric]] show ?thesis by simp
      qed
    qed
  qed
qed

lemma bindE_assoc: "bindE (bindE m f) g = bindE m (\<lambda>x. bindE (f x) g)"
proof (cases m)
  case None
  then show ?thesis by (simp add: bindE_def)
next
  case (Some r)
  then show ?thesis by (cases r) (simp_all add: bindE_def)
qed

lemma erase_phases:
  "erase T pos =
     bindE (if first T = pos then bindE (next_node (heap T) pos) (\<lambda>f. ret (T\<lparr>first := f\<rparr>)) else ret T) (\<lambda>T1.
     bindE (if last_node T1 = pos then bindE (prev_node (heap T1) pos) (\<lambda>l. ret (T1\<lparr>last_node := l\<rparr>)) else ret T1) (\<lambda>T2.
     bindE (erase_unlink T2 pos) (\<lambda>T10. erase_finish T10 pos)))"
  unfolding erase_def erase_unlink_def erase_finish_def bindE_assoc Let_def by (rule refl)

lemma subtree_shift_eval:
  assumes "heap T u = Some un" "\<And>q. parent un = Some q \<Longrightarrow> q \<noteq> u \<and> (\<exists>qn. heap T q = Some qn)"
    "\<And>c. v = Some c \<Longrightarrow> \<exists>cn. heap T c = Some cn"
  shows "subtree_shift T (Some u) v = ret (shift T u v)"
proof -
  have e: "(Some u = left qn) = (left qn = Some u)" for qn :: "('a, 'b) node" by auto
  show ?thesis
  proof (cases "parent un")
  case None
  show ?thesis
  proof (cases v)
    case N: None
    then show ?thesis using assms(1) None by (simp add: subtree_shift_def shift_def)
  next
    case (Some c)
    with assms(3) obtain cn where "heap T c = Some cn" by blast
    then show ?thesis using assms(1) None Some by (simp add: subtree_shift_def shift_def)
  qed
next
  case (Some q)
  with assms(2) obtain qn where q: "q \<noteq> u" "heap T q = Some qn" by blast
  show ?thesis
  proof (cases v)
    case None
    then show ?thesis using assms(1) Some q by (simp add: subtree_shift_def shift_def e)
  next
    case S: (Some c)
    with assms(3) obtain cn where "heap T c = Some cn" by blast
    then show ?thesis using assms(1) Some S q by (simp add: subtree_shift_def shift_def e)
  qed
qed
qed

lemma shift_fields:
  "first (shift T u v) = first T" "last_node (shift T u v) = last_node T"
  "tree_size (shift T u v) = tree_size T" "max_size (shift T u v) = max_size T"
  "nxt (shift T u v) = nxt T"
  "root (shift T u v) = (if parent (the (heap T u)) = None then v else root T)"
  by (simp_all add: shift_def Let_def split: option.splits)

lemma shift_other:
  "Some x \<noteq> parent (the (heap T u)) \<Longrightarrow> Some x \<noteq> v \<Longrightarrow> heap (shift T u v) x = heap T x"
  by (auto simp: shift_def Let_def split: option.splits)

lemma shift_parent:
  "parent (the (heap T u)) = Some q \<Longrightarrow> Some q \<noteq> v \<Longrightarrow> heap T q = Some qn \<Longrightarrow>
   heap (shift T u v) q = Some (if left qn = Some u then qn\<lparr>left := v\<rparr> else qn\<lparr>right := v\<rparr>)"
  by (auto simp: shift_def Let_def split: option.splits)

lemma shift_child:
  "heap T c = Some cn \<Longrightarrow> Some c \<noteq> parent (the (heap T u)) \<Longrightarrow> c \<noteq> u \<Longrightarrow>
   Some u \<noteq> parent (the (heap T u)) \<Longrightarrow>
   heap (shift T u (Some c)) c = Some (cn\<lparr>parent := parent (the (heap T u))\<rparr>)"
  by (auto simp: shift_def Let_def split: option.splits)

lemma shift_pairs: 
  "(\<And>q. parent (the (heap T u)) = Some q \<Longrightarrow> heap T q \<noteq> None) \<Longrightarrow>
   (\<And>c. v = Some c \<Longrightarrow> heap T c \<noteq> None) \<Longrightarrow>
   map_option pair (heap (shift T u v) x) = map_option pair (heap T x)"
  by (auto simp: shift_def Let_def split: option.splits)

lemma parent_outside:
  assumes "reps h None p t" "distinct (inorder t)" "a \<in> set_tree t" "h a = Some an" "parent an = Some q"
  shows "q \<in> set_tree t \<and> q \<notin> set_tree (sub t a) \<and> q \<noteq> a \<and> (\<exists>qn. h q = Some qn) \<and> p \<noteq> Some a"
proof -
  have pa: "p \<noteq> Some a"
  proof
    assume "p = Some a"
    then have "parent an = None" using reps_parent_root[of h None a t an] assms(1,4) by simp
    with assms(5) show False by simp
  qed
  from child_of_parent[OF assms(1,2,3,4) pa] assms(5) obtain qn l r where
    q: "q \<in> set_tree t" "h q = Some qn" "sub t q = Node l q r" "sub t a = l \<or> sub t a = r"
    by auto
  have "distinct (inorder (Node l q r))" using distinct_sub[OF assms(2), of q] q(3) by simp
  then have "q \<notin> set_tree l" "q \<notin> set_tree r" by auto
  then have n: "q \<notin> set_tree (sub t a)" using q(4) by auto
  moreover have "a \<in> set_tree (sub t a)" using sub_root[OF assms(3)] by auto
  ultimately have "q \<noteq> a" by auto
  then show ?thesis using q(1,2) n pa by blast
qed

lemma repl_wrapper:
  assumes "reps h None p t" "distinct (inorder t)" "a \<in> set_tree t" "h a = Some an"
    and "\<And>q qn. parent an = Some q \<Longrightarrow> h q = Some qn \<Longrightarrow>
           h' q = Some (if left qn = Some a then qn\<lparr>left := p'\<rparr> else qn\<lparr>right := p'\<rparr>)"
    and "reps h' (parent an) p' s'"
    and "\<And>x. x \<in> set_tree t \<Longrightarrow> x \<notin> set_tree (sub t a) \<Longrightarrow> Some x \<noteq> parent an \<Longrightarrow> h' x = h x"
  shows "reps h' None (if parent an = None then p' else p) (repl t a s')"
proof (cases "parent an")
  case None
  have "p = Some a"
  proof (rule ccontr)
    assume "p \<noteq> Some a"
    from child_of_parent[OF assms(1,2,3,4) this] None show False by auto
  qed
  then obtain l r where "t = Node l a r" using assms(1) by (cases t) auto
  then have "repl t a s' = s'" by simp
  then show ?thesis using assms(6) None by simp
next
  case (Some q)
  from parent_outside[OF assms(1,2,3,4) Some] obtain qn where
    q: "h q = Some qn" "p \<noteq> Some a" by blast
  have "reps h' None (if p = Some a then p' else p) (repl t a s')"
  proof (rule reps_replace[where h' = h' and p' = p' and s' = s', OF assms(1,2,3,4) Some q(1)])
    show "h' q = Some (if left qn = Some a then qn\<lparr>left := p'\<rparr> else qn\<lparr>right := p'\<rparr>)"
      by (rule assms(5)[OF Some q(1)])
    show "reps h' (Some q) p' s'" using assms(6) Some by simp
    show "\<And>b. b \<in> set_tree t \<Longrightarrow> b \<notin> set_tree (sub t a) \<Longrightarrow> b \<noteq> q \<Longrightarrow> h' b = h b"
      using assms(7) Some by simp
  qed
  then show ?thesis using q(2) Some by simp
qed

lemma sub_sub_disj:
  assumes "distinct (inorder t)" "sub t a = Node l a r"
  shows "a \<notin> set_tree l" "a \<notin> set_tree r" "set_tree l \<inter> set_tree r = {}"
    "distinct (inorder l)" "distinct (inorder r)" "set_tree l \<subseteq> set_tree t" "set_tree r \<subseteq> set_tree t"
proof -
  have d: "distinct (inorder (Node l a r))" using distinct_sub[OF assms(1), of a] assms(2) by simp
  then show "a \<notin> set_tree l" "a \<notin> set_tree r" "set_tree l \<inter> set_tree r = {}"
    "distinct (inorder l)" "distinct (inorder r)" by auto
  have "set_tree (Node l a r) \<subseteq> set_tree t" using set_tree_sub[of t a] assms(2) by simp
  then show "set_tree l \<subseteq> set_tree t" "set_tree r \<subseteq> set_tree t" by auto
qed

lemma unlink_one_child:
  fixes T :: "('k::linorder, 'v) sgt"
  assumes "reps (heap T) None (root T) t" "distinct (inorder t)" "a \<in> set_tree t"
    "heap T a = Some an" "sub t a = Node l a r"
    "reps (heap T) (Some a) v s" "s = l \<or> s = r" "del_root (Node l a r) = s"
  shows "subtree_shift T (Some a) v = ret (shift T a v) \<and> unlinked T t a (shift T a v)"
proof -
  define T' where "T' = shift T a v"
  note dj = sub_sub_disj[OF assms(2,5)]
  have ss: "set_tree s \<subseteq> set_tree (sub t a)" "a \<notin> set_tree s" "distinct (inorder s)"
    "set_tree s \<subseteq> set_tree t"
    using assms(5,7) dj by auto
  have po: "q \<in> set_tree t \<and> q \<notin> set_tree (sub t a) \<and> q \<noteq> a \<and> (\<exists>qn. heap T q = Some qn)"
    if "parent an = Some q" for q
    using parent_outside[OF assms(1,2,3,4) that] by blast
  have vc: "c \<in> set_tree s \<and> (\<exists>cn. heap T c = Some cn)" if "v = Some c" for c
    using reps_root[OF assms(6)] that by auto
  have pv: "Some q \<noteq> v" if "parent an = Some q" for q
    using po[OF that] vc[of q] ss(1) by auto
  have ev: "subtree_shift T (Some a) v = ret T'"
    unfolding T'_def using po vc by (intro subtree_shift_eval[OF assms(4)]) blast+
  have pu: "parent (the (heap T a)) = parent an" using assms(4) by simp
  have oth: "heap T' x = heap T x" if "Some x \<noteq> parent an" "Some x \<noteq> v" for x
    unfolding T'_def using that by (intro shift_other) (simp_all add: pu)
  have rs: "reps (heap T') (parent an) v s"
  proof (rule reps_reparent[OF assms(6) ss(3)])
    fix x assume x: "x \<in> set_tree s" "Some x \<noteq> v"
    have "Some x \<noteq> parent an" using po[of x] x(1) ss(1) by auto
    then show "heap T' x = heap T x" using x(2) by (rule oth)
  next
    fix c n assume c: "v = Some c" "heap T c = Some n"
    have "c \<in> set_tree s" using vc[OF c(1)] by simp
    then have ca: "c \<noteq> a" using ss(2) by auto
    have n1: "Some c \<noteq> parent (the (heap T a))" using pv[of c] c(1) by (auto simp: pu)
    have n2: "Some a \<noteq> parent (the (heap T a))" using po[of a] by (auto simp: pu)
    have "heap (shift T a (Some c)) c = Some (n\<lparr>parent := parent (the (heap T a))\<rparr>)"
      by (rule shift_child[OF c(2) n1 ca n2])
    then show "heap T' c = Some (n\<lparr>parent := parent an\<rparr>)" by (simp add: T'_def c(1) pu)
  qed
  have "reps (heap T') None (if parent an = None then v else root T) (repl t a s)"
  proof (rule repl_wrapper[OF assms(1,2,3,4) _ rs])
    fix q qn assume q: "parent an = Some q" "heap T q = Some qn"
    show "heap T' q = Some (if left qn = Some a then qn\<lparr>left := v\<rparr> else qn\<lparr>right := v\<rparr>)"
      unfolding T'_def using q pv[OF q(1)] by (intro shift_parent) (simp_all add: pu)
  next
    fix x assume x: "x \<in> set_tree t" "x \<notin> set_tree (sub t a)" "Some x \<noteq> parent an"
    have "Some x \<noteq> v" using vc[of x] x(2) ss(1) by auto
    with x(3) show "heap T' x = heap T x" by (rule oth)
  qed
  moreover have "root T' = (if parent an = None then v else root T)"
    by (simp add: T'_def shift_fields pu)
  ultimately have r': "reps (heap T') None (root T') (del_tree t a)"
    using assms(5,8) by (simp add: del_tree_def del: del_root.simps)
  have sp: "same_pairs (heap T) (heap T')"
    unfolding same_pairs_def T'_def
  proof
    fix x show "map_option pair (heap (shift T a v) x) = map_option pair (heap T x)"
      using po vc by (intro shift_pairs) (auto simp: pu)
  qed
  have fr: "\<forall>x. x \<notin> set_tree t \<longrightarrow> heap T' x = heap T x"
  proof (intro allI impI)
    fix x assume x: "x \<notin> set_tree t"
    have "Some x \<noteq> parent an" using po[of x] x by auto
    moreover have "Some x \<noteq> v" using vc[of x] x ss(4) by auto
    ultimately show "heap T' x = heap T x" by (rule oth)
  qed
  have ha: "heap T' a = heap T a"
  proof (rule oth)
    show "Some a \<noteq> parent an" using po[of a] by auto
    show "Some a \<noteq> v" using vc[of a] ss(2) by auto
  qed
  show ?thesis
    using ev r' sp fr ha unfolding unlinked_def T'_def[symmetric]
    by (simp add: T'_def shift_fields)
qed

lemma unlink_succ_child:
  fixes T :: "('k::linorder, 'v) sgt"
  assumes "reps (heap T) None (root T) t" "distinct (inorder t)" "a \<in> set_tree t"
    "heap T a = Some an" "sub t a = Node l a r" "l \<noteq> Leaf" "r \<noteq> Leaf" "hd (inorder r) = b"
    "right an = Some b"
  shows "\<exists>T'. erase_unlink T (Some a) = ret T' \<and> unlinked T t a T'"
proof -
  note dj = sub_sub_disj[OF assms(2,5)]
  from reps_sub[OF assms(1,3,4)] assms(5,4)
  have rl: "reps (heap T) (Some a) (left an) l" and rr: "reps (heap T) (Some a) (Some b) r"
    using assms(9) by auto
  from reps_root[OF rl] assms(6) obtain lc lcn where
    lc: "left an = Some lc" "heap T lc = Some lcn" "lc \<in> set_tree l"
    by blast
  from rr[unfolded reps_Some] obtain rl' rr' bn where
    b: "heap T b = Some bn" "r = Node rl' b rr'" "reps (heap T) (Some b) (left bn) rl'"
       "reps (heap T) (Some b) (right bn) rr'" "parent bn = Some a"
    by blast
  have rl'e: "rl' = Leaf"
  proof (rule ccontr)
    assume n: "rl' \<noteq> Leaf"
    then have "hd (inorder r) = hd (inorder rl')" using b(2) by simp
    moreover have "hd (inorder rl') \<in> set_tree rl'" using hd_in_set[of "inorder rl'"] n by simp
    moreover have "b \<notin> set_tree rl'" using dj(5) b(2) by auto
    ultimately show False using assms(8) by auto
  qed
  then have lb: "left bn = None" using b(3) by simp
  have po: "q \<in> set_tree t \<and> q \<notin> set_tree (sub t a) \<and> q \<noteq> a \<and> (\<exists>qn. heap T q = Some qn)"
    if "parent an = Some q" for q
    using parent_outside[OF assms(1,2,3,4) that] by blast
  have ins: "lc \<in> set_tree l" "b \<in> set_tree r" using lc(3) b(2) by simp_all
  have ne: "lc \<noteq> b" "lc \<noteq> a" "b \<noteq> a" "Some lc \<noteq> parent an" "Some b \<noteq> parent an" "Some a \<noteq> parent an"
    using ins dj(1,2,3) po[of lc] po[of b] po[of a] assms(5) by auto
  have pu: "parent (the (heap T a)) = parent an" using assms(4) by simp
  define T7 where "T7 = shift T a (Some b)"
  have e7: "subtree_shift T (Some a) (Some b) = ret T7"
    unfolding T7_def using po b(1) by (intro subtree_shift_eval[OF assms(4)]) auto
  have oth7: "heap T7 x = heap T x" if "Some x \<noteq> parent an" "x \<noteq> b" for x
    unfolding T7_def using that by (intro shift_other) (simp_all add: pu)
  have a7: "heap T7 a = Some an" using oth7[of a] ne assms(4) by simp
  have b7: "heap T7 b = Some (bn\<lparr>parent := parent an\<rparr>)"
    using shift_child[OF b(1), where u = a] ne by (simp add: T7_def pu)
  have lc7: "heap T7 lc = Some lcn" using oth7[of lc] ne lc(2) by simp
  define h9 where "h9 = (heap T7)(b \<mapsto> bn\<lparr>parent := parent an, left := Some lc\<rparr>,
                                     lc \<mapsto> lcn\<lparr>parent := Some b\<rparr>)"
  define T' where "T' = T7\<lparr>heap := h9\<rparr>"
  have nx: "next_node (heap T) (Some a) = ret (Some b)"
    using assms(4,8,9) leftmost_reps[OF rr] by (simp add: next_node_def)
  have ev: "erase_unlink T (Some a) = ret T'"
    using assms(4) lc(1) assms(9) nx b(1,5) e7 a7 b7 lc7 ne(1)
    by (simp add: erase_unlink_def T'_def h9_def)
  have oth9: "heap T' x = heap T x" if "Some x \<noteq> parent an" "x \<noteq> b" "x \<noteq> lc" for x
    using that oth7[of x] by (simp add: T'_def h9_def)
  have b9: "heap T' b = Some (bn\<lparr>parent := parent an, left := Some lc\<rparr>)"
    using ne by (simp add: T'_def h9_def)
  have lc9: "heap T' lc = Some (lcn\<lparr>parent := Some b\<rparr>)" by (simp add: T'_def h9_def)
  have rl9: "reps (heap T') (Some b) (Some lc) l"
  proof (rule reps_reparent[OF rl[unfolded lc(1)] dj(4)])
    fix x assume x: "x \<in> set_tree l" "Some x \<noteq> Some lc"
    have "Some x \<noteq> parent an" using po[of x] x(1) assms(5) by auto
    moreover have "x \<noteq> b" using x(1) ins(2) dj(3) by auto
    ultimately show "heap T' x = heap T x" using x(2) by (intro oth9) auto
  next
    fix c n assume "Some lc = Some c" "heap T c = Some n"
    then show "heap T' c = Some (n\<lparr>parent := Some b\<rparr>)" using lc(2) lc9 by simp
  qed
  have rr9: "reps (heap T') (Some b) (right bn) rr'"
  proof (subst reps_frame[where h = "heap T"])
    fix x assume x: "x \<in> set_tree rr'"
    then have xr: "x \<in> set_tree r" using b(2) by simp
    have "Some x \<noteq> parent an" using po[of x] xr assms(5) by auto
    moreover have "x \<noteq> b" using x dj(5) b(2) by auto
    moreover have "x \<noteq> lc" using xr ins(1) dj(3) by auto
    ultimately show "heap T' x = heap T x" by (rule oth9)
  next
    show "reps (heap T) (Some b) (right bn) rr'" by (rule b(4))
  qed
  have s9: "reps (heap T') (parent an) (Some b) (Node l b rr')"
    using b9 rl9 rr9 by simp
  have dr: "del_root (Node l a r) = Node l b rr'"
    using assms(6,7) b(2) rl'e by simp
  have "reps (heap T') None (if parent an = None then Some b else root T) (repl t a (Node l b rr'))"
  proof (rule repl_wrapper[OF assms(1,2,3,4) _ s9])
    fix q qn assume q: "parent an = Some q" "heap T q = Some qn"
    have "heap T7 q = Some (if left qn = Some a then qn\<lparr>left := Some b\<rparr> else qn\<lparr>right := Some b\<rparr>)"
      unfolding T7_def using q ne by (intro shift_parent) (auto simp: pu)
    moreover have "q \<noteq> b" "q \<noteq> lc" using q(1) ne by auto
    ultimately show "heap T' q = Some (if left qn = Some a then qn\<lparr>left := Some b\<rparr> else qn\<lparr>right := Some b\<rparr>)"
      by (simp add: T'_def h9_def)
  next
    fix x assume x: "x \<in> set_tree t" "x \<notin> set_tree (sub t a)" "Some x \<noteq> parent an"
    have "x \<noteq> b" "x \<noteq> lc" using x(2) ins assms(5) by auto
    with x(3) show "heap T' x = heap T x" by (intro oth9)
  qed
  moreover have "root T' = (if parent an = None then Some b else root T)"
    by (simp add: T'_def T7_def shift_fields pu)
  ultimately have r': "reps (heap T') None (root T') (del_tree t a)"
    using assms(5) dr by (simp add: del_tree_def del: del_root.simps)
  have sp7: "map_option pair (heap T7 x) = map_option pair (heap T x)" for x
    unfolding T7_def using po b(1) by (intro shift_pairs) (auto simp: pu)
  have sp: "same_pairs (heap T) (heap T')"
    unfolding same_pairs_def
  proof
    fix x show "map_option pair (heap T' x) = map_option pair (heap T x)"
      using sp7[of x] b(1) lc(2) by (simp add: T'_def h9_def)
  qed
  have fr: "\<forall>x. x \<notin> set_tree t \<longrightarrow> heap T' x = heap T x"
  proof (intro allI impI)
    fix x assume x: "x \<notin> set_tree t"
    have "Some x \<noteq> parent an" using po[of x] x by auto
    moreover have "x \<noteq> b" "x \<noteq> lc" using x ins dj(6,7) by auto
    ultimately show "heap T' x = heap T x" by (rule oth9)
  qed
  have ha: "heap T' a = heap T a" using oth9[of a] ne by auto
  have "unlinked T t a T'"
    using r' sp fr ha unfolding unlinked_def
    by (simp add: T'_def T7_def shift_fields)
  with ev show ?thesis by blast
qed

lemma parent_inside:
  assumes "reps h par p t" "distinct (inorder t)" "a \<in> set_tree t" "h a = Some an" "p \<noteq> Some a"
  shows "\<exists>q qn. parent an = Some q \<and> q \<in> set_tree t \<and> q \<notin> set_tree (sub t a) \<and> q \<noteq> a \<and> h q = Some qn"
proof -
  from child_of_parent[OF assms] obtain q qn l r where
    q: "parent an = Some q" "q \<in> set_tree t" "h q = Some qn" "sub t q = Node l q r"
       "sub t a = l \<or> sub t a = r"
    by blast
  have "distinct (inorder (Node l q r))" using distinct_sub[OF assms(2), of q] q(4) by simp
  then have "q \<notin> set_tree l" "q \<notin> set_tree r" by auto
  then have n: "q \<notin> set_tree (sub t a)" using q(5) by auto
  moreover have "a \<in> set_tree (sub t a)" using sub_root[OF assms(3)] by auto
  ultimately have "q \<noteq> a" by auto
  then show ?thesis using q(1,2,3) n by blast
qed

lemma unlink_succ_deep:
  fixes T :: "('k::linorder, 'v) sgt"
  assumes "reps (heap T) None (root T) t" "distinct (inorder t)" "a \<in> set_tree t"
    "heap T a = Some an" "sub t a = Node l a r" "l \<noteq> Leaf" "r \<noteq> Leaf" "hd (inorder r) = y"
    "right an = Some b" "y \<noteq> b"
  shows "\<exists>T'. erase_unlink T (Some a) = ret T' \<and> unlinked T t a T'"
proof -
  note dj = sub_sub_disj[OF assms(2,5)]
  from reps_sub[OF assms(1,3,4)] assms(5,4)
  have rl: "reps (heap T) (Some a) (left an) l" and rr: "reps (heap T) (Some a) (Some b) r"
    using assms(9) by auto
  from reps_root[OF rl] assms(6) obtain lc lcn where
    lc: "left an = Some lc" "heap T lc = Some lcn" "lc \<in> set_tree l"
    by blast
  from reps_root[OF rr] obtain bn where b: "heap T b = Some bn" "b \<in> set_tree r" by auto
  have po: "q \<in> set_tree t \<and> q \<notin> set_tree (sub t a) \<and> q \<noteq> a \<and> (\<exists>qn. heap T q = Some qn)"
    if "parent an = Some q" for q
    using parent_outside[OF assms(1,2,3,4) that] by blast
  have pu: "parent (the (heap T a)) = parent an" using assms(4) by simp
  have yf: "y = fst (take_min r)" using take_min_hd[OF assms(7)] assms(8) by simp
  from take_min_repl[OF assms(7) dj(5)] obtain ryt where
    ry: "sub r y = Node Leaf y ryt" "snd (take_min r) = repl r y ryt" "y \<in> set_tree r"
    unfolding yf[symmetric] by blast
  from reps_alloc[OF rr ry(3)] obtain yn where yn: "heap T y = Some yn" by auto
  from reps_sub[OF rr ry(3) yn] ry(1) yn
  have ly: "left yn = None" and rry: "reps (heap T) (Some y) (right yn) ryt" by auto
  have by': "Some b \<noteq> Some y" using assms(10) by simp
  from parent_inside[OF rr dj(5) ry(3) yn by'] obtain py pyn where
    py: "parent yn = Some py" "py \<in> set_tree r" "py \<notin> set_tree (sub r y)" "py \<noteq> y" "heap T py = Some pyn"
    by blast
  have io: "inorder r = y # inorder (repl r y ryt)"
    using take_min_inorder[OF assms(7)] yf ry(2) by simp
  define r' where "r' = repl r y ryt"
  have r'p: "y \<notin> set_tree r'" "distinct (inorder r')" "set_tree r' \<subseteq> set_tree r" "b \<in> set_tree r'"
  proof -
    have d: "distinct (y # inorder r')" using dj(5) io by (simp add: r'_def)
    then show "y \<notin> set_tree r'" "distinct (inorder r')" by auto
    have "set (inorder r) = set (y # inorder r')" using io by (simp add: r'_def)
    then have s: "set_tree r = insert y (set_tree r')" by simp
    then show "set_tree r' \<subseteq> set_tree r" by auto
    show "b \<in> set_tree r'" using s b(2) assms(10) by auto
  qed
  have ryin: "set_tree ryt \<subseteq> set_tree (sub r y)" "y \<notin> set_tree ryt" "distinct (inorder ryt)"
    using ry(1) distinct_sub[OF dj(5), of y] by auto
  have ryr: "set_tree ryt \<subseteq> set_tree r" using ryin(1) set_tree_sub[of r y] by auto
  have vc: "c \<in> set_tree ryt \<and> (\<exists>cn. heap T c = Some cn)" if "right yn = Some c" for c
    using reps_root[OF rry] that by auto
  have ina: "set_tree r \<subseteq> set_tree (sub t a)" "set_tree l \<subseteq> set_tree (sub t a)" "a \<in> set_tree (sub t a)"
    using assms(5) by auto
  have qout: "q \<notin> set_tree r \<and> q \<notin> set_tree l \<and> q \<noteq> a" if "parent an = Some q" for q
    using po[OF that] ina by auto
  have ne: "lc \<noteq> a" "b \<noteq> a" "y \<noteq> a" "py \<noteq> a" "lc \<noteq> y" "lc \<noteq> b" "lc \<noteq> py"
    "Some a \<noteq> parent an" "Some y \<noteq> parent an" "Some lc \<noteq> parent an" "Some b \<noteq> parent an"
    "Some py \<noteq> parent an" "Some a \<noteq> right yn" "Some lc \<noteq> right yn" "Some y \<noteq> right yn"
    "Some py \<noteq> right yn"
    using lc(3) b(2) ry(3) py(2,3) dj(1,2,3) qout[of a] qout[of y] qout[of lc] qout[of b] qout[of py]
      vc[of a] vc[of lc] vc[of y] vc[of py] ryr ryin
    by auto
  have puy: "parent (the (heap T y)) = Some py" using yn py(1) by simp
  define T3 where "T3 = shift T y (right yn)"
  have e3: "subtree_shift T (Some y) (right yn) = ret T3"
    unfolding T3_def using py vc by (intro subtree_shift_eval[OF yn]) auto
  have oth3: "heap T3 x = heap T x" if "x \<noteq> py" "Some x \<noteq> right yn" for x
    unfolding T3_def using that by (intro shift_other) (simp_all add: puy)
  have sp3: "map_option pair (heap T3 x) = map_option pair (heap T x)" for x
    unfolding T3_def using py(5) vc by (intro shift_pairs) (auto simp: puy)
  have a3: "heap T3 a = Some an" using oth3[of a] ne assms(4) by simp
  have y3: "heap T3 y = Some yn" using oth3[of y] ne py(4) yn by simp
  have lc3: "heap T3 lc = Some lcn" using oth3[of lc] ne lc(2) by simp
  from sp3[of b] b(1) obtain bn3 where b3: "heap T3 b = Some bn3" by auto
  have f3: "first T3 = first T" "last_node T3 = last_node T" "tree_size T3 = tree_size T"
    "max_size T3 = max_size T" "nxt T3 = nxt T" "root T3 = root T"
    by (simp_all add: T3_def shift_fields puy)
  have rep3: "reps (heap T3) (Some a) (Some b) r'"
  proof -
    have "reps (heap T3) (Some py) (right yn) ryt"
    proof (rule reps_reparent[OF rry ryin(3)])
      fix x assume x: "x \<in> set_tree ryt" "Some x \<noteq> right yn"
      have "x \<noteq> py" using x(1) ryin(1) py(3) by auto
      then show "heap T3 x = heap T x" using x(2) by (rule oth3)
    next
      fix c n assume c: "right yn = Some c" "heap T c = Some n"
      have cin: "c \<in> set_tree ryt" using vc[OF c(1)] by simp
      have n1: "Some c \<noteq> parent (the (heap T y))" using cin ryin(1) py(3) by (auto simp: puy)
      have n2: "c \<noteq> y" using cin ryin(2) by auto
      have n3: "Some y \<noteq> parent (the (heap T y))" using py(4) by (simp add: puy)
      show "heap T3 c = Some (n\<lparr>parent := Some py\<rparr>)"
        using shift_child[OF c(2) n1 n2 n3] by (simp add: T3_def c(1) puy)
    qed
    moreover have "heap T3 py = Some (if left pyn = Some y then pyn\<lparr>left := right yn\<rparr> else pyn\<lparr>right := right yn\<rparr>)"
      unfolding T3_def using py(5) ne(16) by (intro shift_parent) (simp_all add: puy)
    moreover have "\<And>x. x \<in> set_tree r \<Longrightarrow> x \<notin> set_tree (sub r y) \<Longrightarrow> x \<noteq> py \<Longrightarrow> heap T3 x = heap T x"
    proof -
      fix x assume x: "x \<in> set_tree r" "x \<notin> set_tree (sub r y)" "x \<noteq> py"
      have "Some x \<noteq> right yn" using vc[of x] ryin(1) x(2) by auto
      with x(3) show "heap T3 x = heap T x" by (rule oth3)
    qed
    ultimately have "reps (heap T3) (Some a) (if Some b = Some y then right yn else Some b) (repl r y ryt)"
      by (intro reps_replace[where h = "heap T" and h' = "heap T3" and q = py and qn = pyn and an = yn,
            OF rr dj(5) ry(3) yn py(1) py(5)])
    then show ?thesis using assms(10) by (simp add: r'_def)
  qed
  define h5 where "h5 = (heap T3)(y \<mapsto> yn\<lparr>right := Some b\<rparr>, b \<mapsto> bn3\<lparr>parent := Some y\<rparr>)"
  define T6 where "T6 = T3\<lparr>heap := h5\<rparr>"
  have a6: "heap T6 a = Some an" using a3 ne by (simp add: T6_def h5_def)
  have y6: "heap T6 y = Some (yn\<lparr>right := Some b\<rparr>)" using assms(10) by (simp add: T6_def h5_def)
  have pu6: "parent (the (heap T6 a)) = parent an" using a6 by simp
  have q6: "heap T6 q = heap T q" if "parent an = Some q" for q
  proof -
    have "q \<noteq> y" "q \<noteq> b" "q \<noteq> py" using qout[OF that] ry(3) b(2) py(2) by auto
    moreover have "Some q \<noteq> right yn" using vc[of q] qout[OF that] ryr by auto
    ultimately show ?thesis using oth3[of q] by (simp add: T6_def h5_def)
  qed
  define T7 where "T7 = shift T6 a (Some y)"
  have e7: "subtree_shift T6 (Some a) (Some y) = ret T7"
    unfolding T7_def using po q6 y6 by (intro subtree_shift_eval[OF a6]) auto
  have oth7: "heap T7 x = heap T6 x" if "Some x \<noteq> parent an" "x \<noteq> y" for x
    unfolding T7_def using that by (intro shift_other) (simp_all add: pu6)
  have a7: "heap T7 a = Some an" using oth7[of a] ne a6 by simp
  have y7: "heap T7 y = Some (yn\<lparr>right := Some b, parent := parent an\<rparr>)"
    using shift_child[OF y6, where u = a] ne by (simp add: T7_def pu6)
  have lc7: "heap T7 lc = Some lcn" using oth7[of lc] ne lc3 by (simp add: T6_def h5_def)
  define h9 where "h9 = (heap T7)(y \<mapsto> yn\<lparr>right := Some b, parent := parent an, left := Some lc\<rparr>,
                                     lc \<mapsto> lcn\<lparr>parent := Some y\<rparr>)"
  define T' where "T' = T7\<lparr>heap := h9\<rparr>"
  have nx: "next_node (heap T) (Some a) = ret (Some y)"
    using assms(4,8,9) leftmost_reps[OF rr] by (simp add: next_node_def)
  have pya: "parent yn \<noteq> Some a" using py(1) ne by simp
  have ev: "erase_unlink T (Some a) = ret T'"
    using assms(4) lc(1) assms(9) nx yn pya e3 a3 y3 b3 assms(10)
      e7[unfolded T6_def h5_def] a7 y7 lc7 ne(5)
    by (simp add: erase_unlink_def T'_def h9_def)
  have oth9: "heap T' x = heap T3 x" if "Some x \<noteq> parent an" "x \<noteq> y" "x \<noteq> b" "x \<noteq> lc" for x
    using that oth7[of x] by (simp add: T'_def h9_def T6_def h5_def)
  have y9: "heap T' y = Some (yn\<lparr>right := Some b, parent := parent an, left := Some lc\<rparr>)"
    using ne by (simp add: T'_def h9_def)
  have lc9: "heap T' lc = Some (lcn\<lparr>parent := Some y\<rparr>)" by (simp add: T'_def h9_def)
  have b9: "heap T' b = Some (bn3\<lparr>parent := Some y\<rparr>)"
    using oth7[of b] ne assms(10) by (simp add: T'_def h9_def T6_def h5_def)
  have rl9: "reps (heap T') (Some y) (Some lc) l"
  proof (rule reps_reparent[OF rl[unfolded lc(1)] dj(4)])
    fix x assume x: "x \<in> set_tree l" "Some x \<noteq> Some lc"
    have xr: "x \<notin> set_tree r" using x(1) dj(3) by auto
    have "Some x \<noteq> parent an" using qout[of x] x(1) by auto
    moreover have "x \<noteq> y" "x \<noteq> b" "x \<noteq> py" using xr ry(3) b(2) py(2) by auto
    moreover have "Some x \<noteq> right yn" using vc[of x] ryr xr by auto
    ultimately show "heap T' x = heap T x" using x(2) oth9[of x] oth3[of x] by auto
  next
    fix c n assume "Some lc = Some c" "heap T c = Some n"
    then show "heap T' c = Some (n\<lparr>parent := Some y\<rparr>)" using lc(2) lc9 by simp
  qed
  have rr9: "reps (heap T') (Some y) (Some b) r'"
  proof (rule reps_reparent[OF rep3 r'p(2)])
    fix x assume x: "x \<in> set_tree r'" "Some x \<noteq> Some b"
    have xr: "x \<in> set_tree r" using x(1) r'p(3) by auto
    have "Some x \<noteq> parent an" using qout[of x] xr by auto
    moreover have "x \<noteq> y" using x(1) r'p(1) by auto
    moreover have "x \<noteq> lc" using xr lc(3) dj(3) by auto
    ultimately show "heap T' x = heap T3 x" using x(2) by (intro oth9) auto
  next
    fix c n assume "Some b = Some c" "heap T3 c = Some n"
    then show "heap T' c = Some (n\<lparr>parent := Some y\<rparr>)" using b3 b9 by simp
  qed
  have s9: "reps (heap T') (parent an) (Some y) (Node l y r')"
    using y9 rl9 rr9 by simp
  have dr: "del_root (Node l a r) = Node l y r'"
    using assms(6,7) yf ry(2) by (simp add: r'_def)
  have "reps (heap T') None (if parent an = None then Some y else root T) (repl t a (Node l y r'))"
  proof (rule repl_wrapper[OF assms(1,2,3,4) _ s9])
    fix q qn assume q: "parent an = Some q" "heap T q = Some qn"
    have "heap T7 q = Some (if left qn = Some a then qn\<lparr>left := Some y\<rparr> else qn\<lparr>right := Some y\<rparr>)"
      unfolding T7_def using q q6[OF q(1)] ne by (intro shift_parent) (auto simp: pu6)
    moreover have "q \<noteq> y" "q \<noteq> lc" using q(1) ne by auto
    ultimately show "heap T' q = Some (if left qn = Some a then qn\<lparr>left := Some y\<rparr> else qn\<lparr>right := Some y\<rparr>)"
      by (simp add: T'_def h9_def)
  next
    fix x assume x: "x \<in> set_tree t" "x \<notin> set_tree (sub t a)" "Some x \<noteq> parent an"
    have "x \<noteq> y" "x \<noteq> b" "x \<noteq> lc" "x \<noteq> py" using x(2) ina ry(3) b(2) lc(3) py(2) by auto
    moreover have "Some x \<noteq> right yn" using vc[of x] ryr ina x(2) by auto
    ultimately show "heap T' x = heap T x" using x(3) oth9[of x] oth3[of x] by auto
  qed
  moreover have "root T' = (if parent an = None then Some y else root T)"
  proof -
    have "root T7 = (if parent an = None then Some y else root T6)"
      unfolding T7_def shift_fields pu6 by (rule refl)
    moreover have "root T6 = root T" by (simp add: T6_def f3)
    ultimately show ?thesis by (simp add: T'_def)
  qed
  ultimately have r': "reps (heap T') None (root T') (del_tree t a)"
    using assms(5) dr by (simp add: del_tree_def del: del_root.simps)
  have sp6: "map_option pair (heap T6 x) = map_option pair (heap T x)" for x
    using sp3[of x] sp3[of b] b3 yn by (auto simp: T6_def h5_def)
  have sp7: "map_option pair (heap T7 x) = map_option pair (heap T6 x)" for x
    unfolding T7_def using po q6 y6 by (intro shift_pairs) (auto simp: pu6)
  have sp: "same_pairs (heap T) (heap T')"
    unfolding same_pairs_def
  proof
    fix x show "map_option pair (heap T' x) = map_option pair (heap T x)"
      using sp7[of x] sp6[of x] yn lc(2) by (auto simp: T'_def h9_def)
  qed
  have fr: "\<forall>x. x \<notin> set_tree t \<longrightarrow> heap T' x = heap T x"
  proof (intro allI impI)
    fix x assume x: "x \<notin> set_tree t"
    have "Some x \<noteq> parent an" using po[of x] x by auto
    moreover have "x \<noteq> y" "x \<noteq> b" "x \<noteq> lc" "x \<noteq> py" using x ry(3) b(2) lc(3) py(2) dj(6,7) by auto
    moreover have "Some x \<noteq> right yn" using vc[of x] ryr dj(7) x by auto
    ultimately show "heap T' x = heap T x" using oth9[of x] oth3[of x] by auto
  qed
  have ha: "heap T' a = heap T a" using oth9[of a] oth3[of a] ne by auto
  have "unlinked T t a T'"
    using r' sp fr ha unfolding unlinked_def
    by (simp add: T'_def T7_def shift_fields T6_def f3)
  with ev show ?thesis by blast
qed

lemma unlink_correct:
  fixes T :: "('k::linorder, 'v) sgt"
  assumes "reps (heap T) None (root T) t" "distinct (inorder t)" "a \<in> set_tree t"
  shows "\<exists>T'. erase_unlink T (Some a) = ret T' \<and> unlinked T t a T'"
proof -
  from reps_alloc[OF assms(1,3)] obtain an where an: "heap T a = Some an" by auto
  from sub_root[OF assms(3)] obtain l r where s: "sub t a = Node l a r" by blast
  from reps_sub[OF assms(1,3) an] s an
  have rl: "reps (heap T) (Some a) (left an) l" and rr: "reps (heap T) (Some a) (right an) r"
    by auto
  show ?thesis
  proof (cases "l = Leaf")
    case True
    then have la: "left an = None" using rl by simp
    have "del_root (Node l a r) = r" using True by simp
    from unlink_one_child[OF assms an s rr _ this]
    have "subtree_shift T (Some a) (right an) = ret (shift T a (right an))"
      "unlinked T t a (shift T a (right an))" by simp_all
    moreover have "erase_unlink T (Some a) = subtree_shift T (Some a) (right an)"
      using an la by (simp add: erase_unlink_def)
    ultimately show ?thesis by simp
  next
    case lf: False
    then have la: "left an \<noteq> None" using rl by (cases "left an") auto
    show ?thesis
    proof (cases "r = Leaf")
      case True
      then have ra: "right an = None" using rr by simp
      have "del_root (Node l a r) = l" using True lf by simp
      from unlink_one_child[OF assms an s rl _ this]
      have "subtree_shift T (Some a) (left an) = ret (shift T a (left an))"
        "unlinked T t a (shift T a (left an))" by simp_all
      moreover have "erase_unlink T (Some a) = subtree_shift T (Some a) (left an)"
        using an la ra by (simp add: erase_unlink_def)
      ultimately show ?thesis by simp
    next
      case rf: False
      with reps_root[OF rr] obtain b where b: "right an = Some b" by auto
      show ?thesis
      proof (cases "hd (inorder r) = b")
        case True
        show ?thesis by (rule unlink_succ_child[OF assms an s lf rf True b])
      next
        case False
        show ?thesis by (rule unlink_succ_deep[OF assms an s lf rf refl b False])
      qed
    qed
  qed
qed

lemma hd_remove1: "xs \<noteq> [] \<Longrightarrow> a \<noteq> hd xs \<Longrightarrow> remove1 a xs \<noteq> [] \<and> hd (remove1 a xs) = hd xs"
  by (cases xs) auto

lemma remove1_hd: "xs \<noteq> [] \<Longrightarrow> remove1 (hd xs) xs = tl xs"
  by (cases xs) auto

lemma last_remove1: "xs \<noteq> [] \<Longrightarrow> a \<noteq> last xs \<Longrightarrow> remove1 a xs \<noteq> [] \<and> last (remove1 a xs) = last xs"
  by (induction xs) (auto split: if_splits)

lemma remove1_last: "distinct xs \<Longrightarrow> xs \<noteq> [] \<Longrightarrow> remove1 (last xs) xs = butlast xs"
  by (cases xs rule: rev_cases) (auto simp: remove1_append)

lemma sorted_wrt_map_remove1: "sorted_wrt P (map f xs) \<Longrightarrow> sorted_wrt P (map f (remove1 a xs))"
proof (induction xs)
  case Nil
  then show ?case by simp
next
  case (Cons x xs)
  have "set (remove1 a xs) \<subseteq> set xs" by (rule set_remove1_subset)
  with Cons show ?case by auto
qed

lemma rebuild_all_correct:
  fixes T :: "('k::{linorder,default}, 'v::default) sgt"
  assumes inv: "tree_inv T t"
  shows "\<exists>T'. (let (T14, w) = new_node default default T in rebuild_root T14 w (tree_size T14)) = ret T' \<and>
           tree_inv T' (build_tree (size t) (inorder t)) \<and> same_pairs (heap T) (heap T') \<and>
           nxt T' = nxt T + 1 \<and> max_size T' = tree_size T \<and> tree_size T' = tree_size T"
proof -
  define h where "h = heap T"
  define w where "w = nxt T"
  define wn :: "('k, 'v) node" where "wn = \<lparr>parent = None, left = None, right = None, pair = (default, default)\<rparr>"
  define h1 where "h1 = h(w \<mapsto> wn)"
  define T1 where "T1 = T\<lparr>heap := h1, nxt := nxt T + 1\<rparr>"
  define s' where "s' = build_tree (size t) (inorder t)"
  have nn: "new_node default default T = (T1, Some w)"
    by (simp add: new_node_def T1_def h1_def h_def w_def wn_def)
  from inv have r: "reps h None (root T) t" and d: "distinct (inorder t)"
    and al: "\<forall>a. nxt T \<le> a \<longrightarrow> h a = None" and sz: "tree_size T = int (size t)"
    by (simp_all add: tree_inv_def h_def)
  have wt: "w \<notin> set_tree t" using inv by (simp add: w_def tree_inv_fresh)
  have hw: "h w = None" using al by (simp add: w_def)
  have r1: "reps h1 None (root T) t"
    using r wt by (subst reps_frame[where h = h]) (auto simp: h1_def)
  have h1w: "h1 w = Some wn" by (simp add: h1_def)
  have wr: "right wn = None" by (simp add: wn_def)
  have io': "inorder s' = inorder t" by (simp add: s'_def inorder_build_tree length_inorder)
  have r1': "reps (heap T1) None (root T1) t" using r1 by (simp add: T1_def)
  have "heap T1 w = Some wn" using h1w by (simp add: T1_def)
  from rebuild_root_correct[OF r1' d wt this wr] obtain h' rr where
    1: "rebuild_root T1 (Some w) (int (size t)) = ret (T1\<lparr>heap := h', root := rr, max_size := tree_size T1\<rparr>)"
       "reps h' None rr (build_tree (size t) (inorder t))" "h' w = None"
       "\<forall>a. a \<noteq> w \<longrightarrow> map_option pair (h' a) = map_option pair (heap T1 a)"
       "\<forall>a. a \<notin> set_tree t \<longrightarrow> a \<noteq> w \<longrightarrow> h' a = heap T1 a"
    by blast
  define T' where "T' = T1\<lparr>heap := h', root := rr, max_size := tree_size T1\<rparr>"
  have run: "(let (T14, w) = new_node default default T in rebuild_root T14 w (tree_size T14)) = ret T'"
    using 1(1) sz by (simp add: nn T'_def T1_def)
  have sp: "same_pairs (heap T) h'"
    unfolding same_pairs_def
  proof
    fix a show "map_option pair (h' a) = map_option pair (heap T a)"
      using 1(3,4) hw by (cases "a = w") (auto simp: T1_def h1_def h_def)
  qed
  have al': "\<forall>a. nxt T' \<le> a \<longrightarrow> heap T' a = None"
  proof (intro allI impI)
    fix a assume "nxt T' \<le> a"
    then have a: "nxt T \<le> a" "a \<noteq> w" by (auto simp: T'_def T1_def w_def)
    then have "h a = None" using al by simp
    then have "a \<notin> set_tree t" using reps_alloc[OF r, of a] by blast
    then show "heap T' a = None" using 1(5) a \<open>h a = None\<close> by (simp add: T'_def T1_def h1_def)
  qed
  have "tree_inv T' s'"
  proof (rule tree_inv_transfer[OF inv])
    show "reps (heap T') None (root T') s'" using 1(2) by (simp add: T'_def s'_def)
    show "inorder s' = inorder t" using io' by simp
    show "\<forall>a\<in>set_tree t. map_option pair (heap T' a) = map_option pair (heap T a)"
      using sp by (simp add: same_pairs_def T'_def)
    show "tree_size T' = tree_size T" by (simp add: T'_def T1_def)
    show "tree_size T' \<le> max_size T'" by (simp add: T'_def T1_def)
    show "first T' = first T" by (simp add: T'_def T1_def)
    show "last_node T' = last_node T" by (simp add: T'_def T1_def)
    show "\<forall>a. nxt T' \<le> a \<longrightarrow> heap T' a = None" by (rule al')
  qed
  then show ?thesis
    using run sp by (auto simp: T'_def T1_def s'_def)
qed

lemma erase_correct:
  fixes T :: "('k::{linorder,default}, 'v::default) sgt"
  assumes inv: "tree_inv T t" and at: "a \<in> set_tree t"
  shows "\<exists>T' t'. erase T (Some a) = ret T' \<and> tree_inv T' t' \<and> inorder t' = remove1 a (inorder t) \<and>
           (\<forall>x. x \<noteq> a \<longrightarrow> map_option pair (heap T' x) = map_option pair (heap T x)) \<and>
           heap T' a = None \<and> tree_size T' = tree_size T - 1 \<and> nxt T \<le> nxt T' \<and>
           (if of_int (tree_size T - 1) < alpha * of_int (max_size T)
            then t' = build_tree (size (del_tree t a)) (inorder (del_tree t a))
            else t' = del_tree t a)"
proof -
  define xs where "xs = inorder t"
  define t' where "t' = del_tree t a"
  from inv have r: "reps (heap T) None (root T) t" and d: "distinct xs"
    and so: "sorted_wrt (<) (keys (heap T) t)" and sz: "tree_size T = int (size t)"
    and ms: "tree_size T \<le> max_size T"
    and fi: "first T = (if xs = [] then None else Some (hd xs))"
    and la: "last_node T = (if xs = [] then None else Some (last xs))"
    and fr: "\<forall>x. nxt T \<le> x \<longrightarrow> heap T x = None"
    by (simp_all add: tree_inv_def xs_def)
  have d': "distinct (inorder t)" using d by (simp add: xs_def)
  have ne: "xs \<noteq> []" "a \<in> set xs" "t \<noteq> Leaf" using at by (auto simp: xs_def)
  have io: "inorder t' = remove1 a xs" unfolding t'_def xs_def by (rule inorder_del_tree[OF at d'])
  define F where "F = (if remove1 a xs = [] then None else Some (hd (remove1 a xs)))"
  define L where "L = (if remove1 a xs = [] then None else Some (last (remove1 a xs)))"
  have ph1: "(if first T = Some a then bindE (next_node (heap T) (Some a)) (\<lambda>f. ret (T\<lparr>first := f\<rparr>)) else ret T)
             = ret (T\<lparr>first := F\<rparr>)"
  proof (cases "first T = Some a")
    case True
    then have h: "a = hd xs" using fi ne by simp
    then have "remove1 a xs = tl xs" using remove1_hd[OF ne(1)] by simp
    then have "F = (if tl (inorder t) = [] then None else Some (hd (tl (inorder t))))"
      by (simp add: F_def xs_def)
    with next_node_first[OF r d' so ne(3) h[unfolded xs_def]] True show ?thesis by simp
  next
    case False
    then have "a \<noteq> hd xs" using fi ne by auto
    from hd_remove1[OF ne(1) this] have "F = first T" using fi ne by (simp add: F_def)
    then show ?thesis using False by simp
  qed
  define T1 where "T1 = T\<lparr>first := F\<rparr>"
  have ph2: "(if last_node T1 = Some a then bindE (prev_node (heap T1) (Some a)) (\<lambda>l. ret (T1\<lparr>last_node := l\<rparr>)) else ret T1)
             = ret (T1\<lparr>last_node := L\<rparr>)"
  proof (cases "last_node T = Some a")
    case True
    then have h: "a = last xs" using la ne by simp
    then have "remove1 a xs = butlast xs" using remove1_last[OF d ne(1)] by simp
    then have "L = (if butlast (inorder t) = [] then None else Some (last (butlast (inorder t))))"
      by (simp add: L_def xs_def)
    with prev_node_last[OF r d' so ne(3) h[unfolded xs_def]] True show ?thesis by (simp add: T1_def)
  next
    case False
    then have "a \<noteq> last xs" using la ne by auto
    from last_remove1[OF ne(1) this] have "L = last_node T" using la ne by (simp add: L_def)
    then show ?thesis using False by (simp add: T1_def)
  qed
  define T2 where "T2 = T1\<lparr>last_node := L\<rparr>"
  have T2f: "heap T2 = heap T" "root T2 = root T" "first T2 = F" "last_node T2 = L"
    "tree_size T2 = tree_size T" "max_size T2 = max_size T" "nxt T2 = nxt T"
    by (simp_all add: T2_def T1_def)
  have r2: "reps (heap T2) None (root T2) t" using r by (simp add: T2f)
  from unlink_correct[OF r2 d' at] obtain T10 where
    u: "erase_unlink T2 (Some a) = ret T10" "unlinked T2 t a T10" by blast
  from u(2) have u10: "reps (heap T10) None (root T10) t'" "same_pairs (heap T) (heap T10)"
    "\<forall>x. x \<notin> set_tree t \<longrightarrow> heap T10 x = heap T x" "heap T10 a = heap T a"
    "first T10 = F" "last_node T10 = L" "tree_size T10 = tree_size T" "max_size T10 = max_size T"
    "nxt T10 = nxt T"
    by (simp_all add: unlinked_def T2f t'_def)
  from reps_alloc[OF r at] obtain an where an: "heap T a = Some an" by auto
  define T13 where "T13 = T10\<lparr>tree_size := tree_size T10 - 1, heap := (heap T10)(a := None)\<rparr>"
  have dl: "delete_node ((heap T10)(a \<mapsto> an\<lparr>left := None, right := None\<rparr>)) (Some a) = ret ((heap T10)(a := None))"
    using delete_single[of "(heap T10)(a \<mapsto> an\<lparr>left := None, right := None\<rparr>)" a "an\<lparr>left := None, right := None\<rparr>"]
    by simp
  have fin: "erase_finish T10 (Some a) =
      (if of_int (tree_size T13) < alpha * of_int (max_size T13) then
        (let (T14, w) = new_node default default T13 in rebuild_root T14 w (tree_size T14))
      else ret T13)"
    unfolding erase_finish_def Let_def using u10(4) an dl
    by (simp add: T13_def cong: if_cong)
  have run: "erase T (Some a) = (if of_int (tree_size T13) < alpha * of_int (max_size T13) then
        (let (T14, w) = new_node default default T13 in rebuild_root T14 w (tree_size T14))
      else ret T13)"
    unfolding erase_phases ph1 T1_def[symmetric] using ph2 u(1) fin
    by (simp add: T2_def)
  have at': "a \<notin> set_tree t'"
  proof -
    have "a \<notin> set (remove1 a xs)" using d by simp
    then show ?thesis using io by (metis set_inorder)
  qed
  have st': "set_tree t' \<subseteq> set_tree t"
  proof -
    have "set (inorder t') \<subseteq> set xs" unfolding io by (rule set_remove1_subset)
    then show ?thesis by (simp add: xs_def)
  qed
  have pr: "map_option pair (heap T13 x) = map_option pair (heap T x)" if "x \<noteq> a" for x
    using u10(2) that by (simp add: T13_def same_pairs_def)
  have ko: "key_of (heap T13) x = key_of (heap T) x" if "x \<in> set_tree t'" for x
  proof -
    have "x \<noteq> a" using that at' by auto
    moreover have "heap T x \<noteq> None" using reps_alloc[OF r] that st' by auto
    ultimately show ?thesis using pr[of x] by (intro key_of_same)
  qed
  have inv13: "tree_inv T13 t'"
    unfolding tree_inv_def
  proof (intro conjI)
    show "reps (heap T13) None (root T13) t'"
      using u10(1) at' by (subst reps_frame[where h = "heap T10"]) (auto simp: T13_def)
    show "distinct (inorder t')" using d by (simp add: io)
    have "keys (heap T13) t' = map (key_of (heap T)) (remove1 a xs)"
      unfolding keys_def io[symmetric] using ko by (intro map_cong) auto
    moreover have "sorted_wrt (<) (map (key_of (heap T)) (remove1 a xs))"
      using so unfolding keys_def xs_def[symmetric] by (rule sorted_wrt_map_remove1)
    ultimately show "sorted_wrt (<) (keys (heap T13) t')" by simp
    have "length (inorder t') = length xs - 1" using ne(2) by (simp add: io length_remove1)
    then have "size t' = size t - 1" by (simp add: xs_def length_inorder[symmetric] del: length_inorder)
    moreover have "size t > 0" using ne(3) by (cases t) auto
    ultimately show "tree_size T13 = int (size t')" using sz u10(7) by (simp add: T13_def)
    show "tree_size T13 \<le> max_size T13" using ms u10(7,8) by (simp add: T13_def)
    show "first T13 = (if inorder t' = [] then None else Some (hd (inorder t')))"
      using u10(5) by (simp add: T13_def F_def io)
    show "last_node T13 = (if inorder t' = [] then None else Some (last (inorder t')))"
      using u10(6) by (simp add: T13_def L_def io)
    show "\<forall>x. nxt T13 \<le> x \<longrightarrow> heap T13 x = None"
    proof (intro allI impI)
      fix x assume "nxt T13 \<le> x"
      then have "nxt T \<le> x" using u10(9) by (simp add: T13_def)
      then have n: "heap T x = None" using fr by simp
      then have "x \<notin> set_tree t" using reps_alloc[OF r, of x] by blast
      then show "heap T13 x = None" using u10(3) n by (simp add: T13_def)
    qed
  qed
  have f13: "heap T13 a = None" "tree_size T13 = tree_size T - 1" "nxt T13 = nxt T"
    "max_size T13 = max_size T"
    using u10(7,8,9) by (simp_all add: T13_def)
  show ?thesis
  proof (cases "of_int (tree_size T13) < alpha * of_int (max_size T13)")
    case False
    then have "erase T (Some a) = ret T13" using run by simp
    moreover have "\<not> of_int (tree_size T - 1) < alpha * of_int (max_size T)"
      using False f13(2,4) by simp
    moreover have "\<forall>x. x \<noteq> a \<longrightarrow> map_option pair (heap T13 x) = map_option pair (heap T x)"
      using pr by simp
    moreover have "nxt T \<le> nxt T13" using f13(3) by simp
    moreover have "inorder t' = remove1 a (inorder t)" using io by (simp add: xs_def)
    ultimately show ?thesis using inv13 f13(1,2) unfolding t'_def[symmetric]
      by (intro exI[of _ T13] exI[of _ t']) simp
  next
    case True
    from rebuild_all_correct[OF inv13] obtain T' where
      rb: "(let (T14, w) = new_node default default T13 in rebuild_root T14 w (tree_size T14)) = ret T'"
          "tree_inv T' (build_tree (size t') (inorder t'))" "same_pairs (heap T13) (heap T')"
          "nxt T' = nxt T13 + 1" "tree_size T' = tree_size T13"
      by blast
    have e: "erase T (Some a) = ret T'" using run True rb(1) by simp
    have "inorder (build_tree (size t') (inorder t')) = inorder t'"
      by (rule inorder_build_tree) (simp add: length_inorder)
    then have i: "inorder (build_tree (size t') (inorder t')) = remove1 a (inorder t)"
      using io by (simp add: xs_def)
    have p: "map_option pair (heap T' x) = map_option pair (heap T13 x)" for x
      using rb(3) by (simp add: same_pairs_def)
    have "\<forall>x. x \<noteq> a \<longrightarrow> map_option pair (heap T' x) = map_option pair (heap T x)"
      using p pr by simp
    moreover have "heap T' a = None" using p[of a] f13(1) by simp
    moreover have "tree_size T' = tree_size T - 1" "nxt T \<le> nxt T'" using rb(4,5) f13 by simp_all
    moreover have "of_int (tree_size T - 1) < alpha * of_int (max_size T)"
      using True f13(2,4) by simp
    ultimately show ?thesis using e rb(2) i unfolding t'_def[symmetric]
      by (intro exI[of _ T'] exI[of _ "build_tree (size t') (inorder t')"]) simp
  qed
qed

lemma insert_found:
  fixes T :: "('k::{linorder,default}, 'v::default) sgt"
  assumes "tree_inv T t" "a \<in> set_tree t" "heap T a = Some an" "fst (pair an) = k"
  shows "insert_kv T k v =
              ret (T\<lparr>nxt := nxt T + 1, heap := (heap T)(a \<mapsto> an\<lparr>pair := (k, v)\<rparr>)\<rparr>,
                   Some a, v \<noteq> snd (pair an)) \<and>
            tree_inv (T\<lparr>nxt := nxt T + 1, heap := (heap T)(a \<mapsto> an\<lparr>pair := (k, v)\<rparr>)\<rparr>) t"
proof -
  have ka: "key_of (heap T) a = k" using assms(3,4) by (simp add: key_of_def)
  have e: "(if v \<noteq> snd (pair an) then (heap T)(a \<mapsto> an\<lparr>pair := (fst (pair an), v)\<rparr>) else heap T)
           = (heap T)(a \<mapsto> an\<lparr>pair := (k, v)\<rparr>)"
  proof (cases "v = snd (pair an)")
    case True
    then have "an\<lparr>pair := (k, v)\<rparr> = an" using assms(4) by (cases an) auto
    then show ?thesis using True assms(3) by (auto simp: fun_eq_iff)
  next
    case False
    then show ?thesis using assms(4) by simp
  qed
  show ?thesis
    using insert_dup[OF assms(1,2) ka assms(3), of v] insert_dup_inv[OF assms(1,2,3), of v]
    unfolding e by simp
qed

lemma insert_kv_result:
  fixes T :: "('k::{linorder,default}, 'v::default) sgt"
  assumes "tree_inv T t"
  shows "\<exists>T1 a b t1 an. insert_kv T k v = ret (T1, Some a, b) \<and> tree_inv T1 t1 \<and>
            a \<in> set_tree t1 \<and> heap T1 a = Some an \<and> pair an = (k, v) \<and>
            set (keys (heap T1) t1) = insert k (set (keys (heap T) t))"
proof (cases "k \<in> set (keys (heap T) t)")
  case True
  then obtain a where a: "a \<in> set_tree t" "key_of (heap T) a = k" by (auto simp: keys_def)
  from assms a(1) obtain an where an: "heap T a = Some an"
    using reps_alloc[of "heap T" None "root T" t a] by (auto simp: tree_inv_def)
  then have fk: "fst (pair an) = k" using a(2) by (simp add: key_of_def)
  define T1 where "T1 = T\<lparr>nxt := nxt T + 1, heap := (heap T)(a \<mapsto> an\<lparr>pair := (k, v)\<rparr>)\<rparr>"
  from insert_found[OF assms a(1) an fk, of v]
  have 1: "insert_kv T k v = ret (T1, Some a, v \<noteq> snd (pair an))" "tree_inv T1 t"
    by (simp_all add: T1_def)
  have 2: "heap T1 a = Some (an\<lparr>pair := (k, v)\<rparr>)" "pair (an\<lparr>pair := (k, v)\<rparr>) = (k, v)"
    by (simp_all add: T1_def)
  have "key_of (heap T1) x = key_of (heap T) x" for x
    using an fk by (simp add: T1_def key_of_def)
  then have "keys (heap T1) t = keys (heap T) t" by (simp add: keys_def)
  then have 3: "set (keys (heap T1) t) = insert k (set (keys (heap T) t))" using True by auto
  show ?thesis using 1 2 3 a(1) by blast
next
  case False
  from insert_new[OF assms False, of v] obtain T' t' where
    n: "insert_kv T k v = ret (T', Some (nxt T), True)" "tree_inv T' t'"
       "inorder t' = inorder (ins_tree (heap T) k (nxt T) t)"
       "map_option pair (heap T' (nxt T)) = Some (k, v)"
       "\<forall>a. a \<noteq> nxt T \<longrightarrow> map_option pair (heap T' a) = map_option pair (heap T a)"
    by blast
  have st: "set_tree t' = insert (nxt T) (set_tree t)"
    using n(3) set_ins_tree[of "heap T" k "nxt T" t] by (metis set_inorder)
  from n(4) obtain z where z: "heap T' (nxt T) = Some z" "pair z = (k, v)" by auto
  have fr: "nxt T \<notin> set_tree t" by (rule tree_inv_fresh[OF assms])
  have kx: "key_of (heap T') (nxt T) = k" using z by (simp add: key_of_def)
  have ko: "key_of (heap T') x = key_of (heap T) x" if "x \<in> set_tree t" for x
  proof -
    have "x \<noteq> nxt T" using that fr by auto
    moreover have "heap T x \<noteq> None"
      using assms that reps_alloc[of "heap T" None "root T" t x] by (auto simp: tree_inv_def)
    ultimately show ?thesis using n(5) by (intro key_of_same) auto
  qed
  have "set (keys (heap T') t') = key_of (heap T') ` set_tree t'" by (simp add: keys_def)
  also have "\<dots> = insert k (key_of (heap T') ` set_tree t)" using st kx by simp
  also have "key_of (heap T') ` set_tree t = key_of (heap T) ` set_tree t"
    using ko by (intro image_cong) auto
  finally have 3: "set (keys (heap T') t') = insert k (set (keys (heap T) t))" by (simp add: keys_def)
  have "nxt T \<in> set_tree t'" using st by simp
  then show ?thesis using n(1,2) z 3 by blast
qed

lemma erase_None: "erase T None = fail NullDeref"
  by (simp add: erase_def next_node_def prev_node_def)

lemma erase_key_missing:
  "tree_inv T t \<Longrightarrow> k \<notin> set (keys (heap T) t) \<Longrightarrow> erase_key T k = fail NullDeref"
  by (simp add: erase_key_def find_key_absent end_it_def erase_None)

lemma erase_key_present:
  fixes T :: "('k::{linorder,default}, 'v::default) sgt"
  assumes "tree_inv T t" "k \<in> set (keys (heap T) t)"
  shows "\<exists>T' t'. erase_key T k = ret T' \<and> tree_inv T' t' \<and>
           set (keys (heap T') t') = set (keys (heap T) t) - {k} \<and>
           find_key T' k = ret (end_it T') \<and> tree_size T' = tree_size T - 1"
proof -
  from assms(2) obtain a where a: "a \<in> set_tree t" "key_of (heap T) a = k" by (auto simp: keys_def)
  from assms(1) have r: "reps (heap T) None (root T) t" and d: "distinct (inorder t)"
    by (simp_all add: tree_inv_def)
  have f: "find_key T k = ret (Some a)" by (rule find_key_present[OF assms(1) a])
  from erase_correct[OF assms(1) a(1)] obtain T' t' where
    e: "erase T (Some a) = ret T'" "tree_inv T' t'" "inorder t' = remove1 a (inorder t)"
       "\<forall>x. x \<noteq> a \<longrightarrow> map_option pair (heap T' x) = map_option pair (heap T x)"
       "tree_size T' = tree_size T - 1"
    by blast
  have st: "set_tree t' = set_tree t - {a}"
  proof -
    have "set (inorder t') = set (inorder t) - {a}" using e(3) d by simp
    then show ?thesis by simp
  qed
  have ko: "key_of (heap T') x = key_of (heap T) x" if "x \<in> set_tree t'" for x
  proof -
    have "x \<noteq> a" "x \<in> set_tree t" using that st by auto
    moreover have "heap T x \<noteq> None" using reps_alloc[OF r calculation(2)] .
    ultimately show ?thesis using e(4) by (intro key_of_same) auto
  qed
  have nk: "key_of (heap T) x \<noteq> k" if "x \<in> set_tree t'" for x
  proof
    assume "key_of (heap T) x = k"
    then have "key_of (heap T) x = key_of (heap T) a" using a(2) by simp
    from tree_inv_keys_distinct[OF assms(1) _ a(1) this] that st show False by auto
  qed
  have "set (keys (heap T') t') = key_of (heap T') ` set_tree t'" by (simp add: keys_def)
  also have "\<dots> = key_of (heap T) ` (set_tree t - {a})" using ko st by (auto intro!: image_cong)
  also have "\<dots> = set (keys (heap T) t) - {k}"
    using nk st a by (auto simp: keys_def)
  finally have ks: "set (keys (heap T') t') = set (keys (heap T) t) - {k}" .
  then have "k \<notin> set (keys (heap T') t')" by simp
  from find_key_absent[OF e(2) this] have "find_key T' k = ret (end_it T')" .
  moreover have "erase_key T k = ret T'" using f e(1) by (simp add: erase_key_def)
  ultimately show ?thesis using e(2,5) ks by blast
qed

lemma Tree_new_inv: "tree_inv Tree_new Leaf"
  by (simp add: tree_inv_def Tree_new_def keys_def)

lemma run_correct:
  fixes T :: "('k::{linorder,default}, 'v::default) sgt"
  assumes "tree_inv T t"
  shows "case present_keys (set (keys (heap T) t)) ops of
           Some K \<Rightarrow> \<exists>T' t'. run T ops = ret T' \<and> tree_inv T' t' \<and> set (keys (heap T') t') = K
         | None \<Rightarrow> run T ops = fail NullDeref"
  using assms
proof (induction ops arbitrary: T t)
  case Nil
  then show ?case by auto
next
  case (Cons op ops)
  show ?case
  proof (cases op)
    case (Insert k v)
    from insert_kv_result[OF Cons.prems, of k v] obtain T1 a b t1 where
      1: "insert_kv T k v = ret (T1, Some a, b)" "tree_inv T1 t1"
         "set (keys (heap T1) t1) = insert k (set (keys (heap T) t))"
      by blast
    from Cons.IH[OF 1(2), unfolded 1(3)] show ?thesis using Insert 1(1) by (simp cong: option.case_cong)
  next
    case (Erase k)
    show ?thesis
    proof (cases "k \<in> set (keys (heap T) t)")
      case True
      from erase_key_present[OF Cons.prems True] obtain T1 t1 where
        1: "erase_key T k = ret T1" "tree_inv T1 t1"
           "set (keys (heap T1) t1) = set (keys (heap T) t) - {k}"
        by blast
      from Cons.IH[OF 1(2), unfolded 1(3)] show ?thesis using Erase True 1(1) by (simp cong: option.case_cong)
    next
      case False
      then show ?thesis using Erase erase_key_missing[OF Cons.prems False] by simp
    qed
  qed
qed

section \<open>A rebuilt subtree is balanced\<close>

lemma build_tree_balanced: "length as = n \<Longrightarrow> weight_balanced (build_tree n as)"
proof (induction n as rule: build_tree.induct)
  case (1 n as)
  show ?case
  proof (cases "n = 0")
    case True
    then show ?thesis by (subst build_tree.simps) simp
  next
    case False
    have l1: "length (take (n div 2) as) = n div 2" using 1(3) by simp
    have l2: "length (drop (n div 2 + 1) as) = (n - 1) div 2" using 1(3) False by (simp; presburger)
    have s1: "size (build_tree (n div 2) (take (n div 2) as)) = n div 2"
      by (rule size_build_tree[OF l1])
    have s2: "size (build_tree ((n - 1) div 2) (drop (n div 2 + 1) as)) = (n - 1) div 2"
      by (rule size_build_tree[OF l2])
    have a1: "real (n div 2) \<le> alpha * real (n div 2 + (n - 1) div 2 + 1)"
    proof -
      have "n div 2 + (n - 1) div 2 + 1 = n" using False by presburger
      moreover have "2 * real (n div 2) \<le> real n"
        using of_nat_mono[of "2 * (n div 2)" n, where 'a = real] by simp
      ultimately show ?thesis by (simp add: alpha_def)
    qed
    have a2: "real ((n - 1) div 2) \<le> alpha * real (n div 2 + (n - 1) div 2 + 1)"
    proof -
      have "n div 2 + (n - 1) div 2 + 1 = n" using False by presburger
      moreover have "2 * real ((n - 1) div 2) \<le> real n"
        using of_nat_mono[of "2 * ((n - 1) div 2)" n, where 'a = real] by simp
      ultimately show ?thesis by (simp add: alpha_def)
    qed
    show ?thesis
      using False 1(1)[OF False l1] 1(2)[OF False l2] s1 s2 a1 a2
      by (subst build_tree.simps) (simp add: Let_def)
  qed
qed

lemma scapegoat_Some:
  "distinct (inorder t) \<Longrightarrow> scapegoat t x = Some s \<Longrightarrow>
   s \<in> set_tree t \<and> \<not> node_balanced (sub t s)"
proof (induction t)
  case Leaf
  then show ?case by simp
next
  case (Node l b r)
  from Node.prems(1) have d: "distinct (inorder l)" "distinct (inorder r)" "b \<notin> set_tree l"
    "b \<notin> set_tree r" "set_tree l \<inter> set_tree r = {}" by auto
  from Node.prems(2) have xb: "x \<noteq> b" by (auto split: if_splits)
  show ?case
  proof (cases "x \<in> set_tree l")
    case True
    show ?thesis
    proof (cases "scapegoat l x")
      case None
      with Node.prems(2) xb True have "s = b" "\<not> node_balanced (Node l b r)"
        by (auto split: if_splits)
      then show ?thesis by simp
    next
      case (Some c)
      with Node.prems(2) xb True have "c = s" by simp
      with Node.IH(1)[OF d(1)] Some have "s \<in> set_tree l" "\<not> node_balanced (sub l s)" by auto
      moreover have "s \<noteq> b" using calculation(1) d(3) by auto
      ultimately show ?thesis by simp
    qed
  next
    case False
    show ?thesis
    proof (cases "scapegoat r x")
      case None
      with Node.prems(2) xb False have "s = b" "\<not> node_balanced (Node l b r)"
        by (auto split: if_splits)
      then show ?thesis by simp
    next
      case (Some c)
      with Node.prems(2) xb False have "c = s" by simp
      with Node.IH(2)[OF d(2)] Some have sr: "s \<in> set_tree r" "\<not> node_balanced (sub r s)" by auto
      moreover have "s \<noteq> b" "s \<notin> set_tree l" using sr(1) d(4,5) by auto
      ultimately show ?thesis by simp
    qed
  qed
qed


section \<open>Sequences of operations\<close>

text \<open>Every sequence of \<^verbatim>\<open>insert\<close> and \<^verbatim>\<open>erase(key)\<close> calls on the empty tree ends in
  one of two ways. When every \<^verbatim>\<open>erase\<close> asks for a key that is held at that moment, all
  calls return, the nodes reachable from the root form a binary tree \<open>t\<close> with correct
  parent pointers, the keys read in order are strictly increasing, they are the keys inserted
  and not erased since, and \<^verbatim>\<open>size()\<close> is their number. Otherwise the first \<^verbatim>\<open>erase\<close> of
  a key that is not held follows the null pointer and the sequence goes no further.\<close>

lemma order_invariant:
  fixes ops :: "('k::{linorder,default}, 'v::default) operation list"
  shows "case present_keys {} ops of
           Some K \<Rightarrow> \<exists>T t. run Tree_new ops = ret T \<and> reps (heap T) None (root T) t \<and>
                       sorted_wrt (<) (keys (heap T) t) \<and> distinct (keys (heap T) t) \<and>
                       set (keys (heap T) t) = K \<and> tree_size T = int (length (keys (heap T) t))
         | None \<Rightarrow> run Tree_new ops = fail NullDeref"
proof (cases "present_keys {} ops")
  case None
  then show ?thesis using run_correct[OF Tree_new_inv, of ops] by (simp add: keys_def)
next
  case (Some K)
  with run_correct[OF Tree_new_inv, of ops] obtain T t where
    1: "run Tree_new ops = ret T" "tree_inv T t" "set (keys (heap T) t) = K"
    by (auto simp: keys_def)
  from 1(2) have 2: "reps (heap T) None (root T) t" "sorted_wrt (<) (keys (heap T) t)"
    "tree_size T = int (length (keys (heap T) t))"
    by (simp_all add: tree_inv_def keys_def)
  from 2(2) have "distinct (keys (heap T) t)" by (simp add: strict_sorted_iff)
  with 1 2 Some show ?thesis by auto
qed

lemma order_invariant_witness:
  "present_keys {} [Insert (2::int) ''b'', Insert 1 ''a'', Insert 2 ''c'', Erase 1] = Some {2} \<and>
   (\<exists>T t. run Tree_new [Insert (2::int) ''b'', Insert 1 ''a'', Insert 2 ''c'', Erase 1] = ret T \<and>
      reps (heap T) None (root T) t \<and>
      sorted_wrt (<) (keys (heap T) t) \<and> distinct (keys (heap T) t) \<and>
      set (keys (heap T) t) = {2} \<and> tree_size T = int (length (keys (heap T) t)))"
proof -
  have p: "present_keys {} [Insert (2::int) ''b'', Insert 1 ''a'', Insert 2 ''c'', Erase 1] = Some {2}"
    by (simp add: insert_Diff_if)
  show ?thesis
    using order_invariant [of "[Insert (2::int) ''b'', Insert 1 ''a'', Insert 2 ''c'', Erase 1]"]
    unfolding p by simp
qed

text \<open>In a tree that satisfies its invariant, \<^verbatim>\<open>insert(key, value)\<close> returns, and
  \<^verbatim>\<open>find(key)\<close> on the result returns the position that \<^verbatim>\<open>insert\<close> returned, which is not
  past-the-end and holds the pair of the key and the value. Whenever \<^verbatim>\<open>erase(key)\<close>
  returns, \<^verbatim>\<open>find(key)\<close> on the result returns the past-the-end position; and
  \<^verbatim>\<open>erase(key)\<close> returns when the tree holds the key.\<close>

lemma find_after_insert_erase:
  fixes T :: "('k::{linorder,default}, 'v::default) sgt"
  assumes "tree_inv T t"
  shows "(\<exists>T' a b an. insert_kv T k v = ret (T', Some a, b) \<and> find_key T' k = ret (Some a) \<and>
            Some a \<noteq> end_it T' \<and> heap T' a = Some an \<and> pair an = (k, v)) \<and>
         (\<forall>T'. erase_key T k = ret T' \<longrightarrow> find_key T' k = ret (end_it T')) \<and>
         (k \<in> set (keys (heap T) t) \<longrightarrow> (\<exists>T'. erase_key T k = ret T'))"
proof (intro conjI allI impI)
  from insert_kv_result[OF assms, of k v] obtain T1 a b t1 an where
    1: "insert_kv T k v = ret (T1, Some a, b)" "tree_inv T1 t1" "a \<in> set_tree t1"
       "heap T1 a = Some an" "pair an = (k, v)"
    by blast
  have "key_of (heap T1) a = k" using 1(4,5) by (simp add: key_of_def)
  from find_key_present[OF 1(2,3) this] have "find_key T1 k = ret (Some a)" .
  moreover have "Some a \<noteq> end_it T1" by (simp add: end_it_def)
  ultimately show "\<exists>T' a b an. insert_kv T k v = ret (T', Some a, b) \<and> find_key T' k = ret (Some a) \<and>
            Some a \<noteq> end_it T' \<and> heap T' a = Some an \<and> pair an = (k, v)"
    using 1(1,4,5) by blast
next
  fix T' assume e: "erase_key T k = ret T'"
  show "find_key T' k = ret (end_it T')"
  proof (cases "k \<in> set (keys (heap T) t)")
    case True
    from erase_key_present[OF assms True] e show ?thesis by auto
  next
    case False
    from erase_key_missing[OF assms False] e show ?thesis by simp
  qed
next
  assume "k \<in> set (keys (heap T) t)"
  from erase_key_present[OF assms this] show "\<exists>T'. erase_key T k = ret T'" by blast
qed

lemma find_after_insert_erase_witness:
  "tree_inv one_node \<langle>\<langle>\<rangle>, 0, \<langle>\<rangle>\<rangle> \<and>
   (\<exists>T' a b an. insert_kv one_node 1 ''x'' = ret (T', Some a, b) \<and> find_key T' 1 = ret (Some a) \<and>
            Some a \<noteq> end_it T' \<and> heap T' a = Some an \<and> pair an = (1, ''x'')) \<and>
   1 \<in> set (keys (heap one_node) \<langle>\<langle>\<rangle>, 0, \<langle>\<rangle>\<rangle>) \<and>
   (\<exists>T'. erase_key one_node 1 = ret T' \<and> find_key T' 1 = ret (end_it T'))"
proof -
  note w = find_after_insert_erase [OF one_node_inv, of 1 "''x''"]
  have k: "1 \<in> set (keys (heap one_node) \<langle>\<langle>\<rangle>, 0, \<langle>\<rangle>\<rangle>)"
    by (simp add: keys_def key_of_def one_node_def)
  from w[THEN conjunct2, THEN conjunct2, rule_format, OF k] obtain T' where
    e: "erase_key one_node 1 = ret T'" by blast
  from w[THEN conjunct2, THEN conjunct1, rule_format, OF e] e
  have "\<exists>T'. erase_key one_node 1 = ret T' \<and> find_key T' 1 = ret (end_it T')" by blast
  with w[THEN conjunct1] one_node_inv k show ?thesis by blast
qed

section \<open>The claims\<close>

text \<open>
  C3. The scenario of the specification: the keys 5, 3, 8, 1, 4, 7, 9, 2, 6, 0 are inserted
  in this order into the empty tree (with any values), then the tree is read from
  \<^verbatim>\<open>begin()\<close> to \<^verbatim>\<open>end()\<close> by incrementing an iterator, and every key is looked
  up. The traversal sees the ten pairs in the order of the keys 0 to 9, \<^verbatim>\<open>size()\<close> is
  10, and every \<^verbatim>\<open>find\<close> returns a node (the nodes are numbered in the order of their
  creation), not the past-the-end position, which is the last component.
\<close>

theorem scenario_ten_keys:
  "bindE (inserts Tree_new [(5::int, v5::'v::default), (3, v3), (8, v8), (1, v1), (4, v4),
                            (7, v7), (9, v9), (2, v2), (6, v6), (0, v0)]) (\<lambda>T.
   bindE (traverse (heap T) (begin_it T)) (\<lambda>ps.
   bindE (find_key T 5) (\<lambda>i5. bindE (find_key T 3) (\<lambda>i3.
   bindE (find_key T 8) (\<lambda>i8. bindE (find_key T 1) (\<lambda>i1.
   bindE (find_key T 4) (\<lambda>i4. bindE (find_key T 7) (\<lambda>i7.
   bindE (find_key T 9) (\<lambda>i9. bindE (find_key T 2) (\<lambda>i2.
   bindE (find_key T 6) (\<lambda>i6. bindE (find_key T 0) (\<lambda>i0.
   ret (ps, tree_size T, [i5, i3, i8, i1, i4, i7, i9, i2, i6, i0], end_it T)))))))))))))
   = ret ([(0, v0), (1, v1), (2, v2), (3, v3), (4, v4), (5, v5), (6, v6), (7, v7), (8, v8), (9, v9)],
          10,
          [Some 0, Some 1, Some 2, Some 3, Some 4, Some 5, Some 6, Some 7, Some 8, Some 9],
          None)"
  by (simp add: run_simps split del: if_split cong: bindE_weak_cong)

text \<open>
  C1. The successor operation looks at the parent and at the parent's parent only. In
  the tree that the inserts of 50, 10, 80, 5, 20, 70, 90, 30 build (no rebuild happens),
  the node of key 30 is the right child of 20, which is the right child of 10, which is
  the left child of the root 50. The successor of 30 is the root; \<^verbatim>\<open>next()\<close> returns
  the null pointer, and the traversal from \<^verbatim>\<open>begin()\<close> ends after 5, 10, 20, 30.
  The theorem gives the node of 30, its \<^verbatim>\<open>next()\<close>, the node of 50, the node of the
  greatest key 90, and what the traversal sees.
\<close>

theorem next_node_misses_ancestor:
  "bindE (inserts Tree_new [(50::int, []::string), (10, []), (80, []), (5, []), (20, []),
                            (70, []), (90, []), (30, [])]) (\<lambda>T.
   bindE (find_key T 30) (\<lambda>x.
   bindE (next_node (heap T) x) (\<lambda>y.
   bindE (find_key T 50) (\<lambda>r.
   bindE (find_key T 90) (\<lambda>m.
   bindE (traverse (heap T) (begin_it T)) (\<lambda>ps.
   ret (x, y, r, m, map fst ps)))))))
   = ret (Some 7, None, Some 0, Some 6, [5, 10, 20, 30])"
  by (simp add: run_simps split del: if_split cong: bindE_weak_cong)

text \<open>
  C2. When \<^verbatim>\<open>find\<close> does not find the key, \<^verbatim>\<open>erase(key)\<close> passes the past-the-end
  iterator on to \<^verbatim>\<open>erase(pos)\<close>, which follows its null pointer: the call is
  undefined behaviour, for every tree.
\<close>

theorem erase_key_absent:
  "find_key T key = ret (end_it T) \<Longrightarrow> erase_key T key = fail NullDeref"
  by (simp add: erase_key_def erase_def end_it_def next_node_def prev_node_def)

theorem erase_key_absent_witness:
  "find_key one_node 7 = ret (end_it one_node) \<and> erase_key one_node 7 = fail NullDeref"
proof -
  have "find_key one_node 7 = ret (end_it one_node)"
    by (simp add: run_simps one_node_def split del: if_split cong: bindE_weak_cong)
  then show ?thesis
    using erase_key_absent [of one_node 7] by simp
qed

text \<open>
  C9. The loop of \<^verbatim>\<open>operator==\<close> walks the other tree with \<^verbatim>\<open>next()\<close> and stops
  when that returns the null pointer. Two trees built by the same eight inserts, but for
  the value stored under the key 80, have the same size; the walk ends after the keys
  5, 10, 20, 30 (see C1) and never reaches 80: the trees compare equal.
\<close>

theorem tree_eq_stops_early:
  "bindE (inserts Tree_new [(50::int, ''a''), (10, ''a''), (80, ''a''), (5, ''a''), (20, ''a''),
                            (70, ''a''), (90, ''a''), (30, ''a'')]) (\<lambda>T.
   bindE (inserts Tree_new [(50, ''a''), (10, ''a''), (80, ''b''), (5, ''a''), (20, ''a''),
                            (70, ''a''), (90, ''a''), (30, ''a'')]) (\<lambda>other.
   tree_eq T other))
   = ret True"
  by (simp add: run_simps split del: if_split cong: bindE_weak_cong)

text \<open>
  C10. The copy constructor and the copy assignment leave \<^verbatim>\<open>root\<close> null when the other
  tree has no root, and then scan from it: \<^verbatim>\<open>n = root; while(n->left)\<close> follows the null
  pointer. (The assignment deletes the nodes of this tree first.)
\<close>

theorem copy_of_empty_tree:
  "root other = None \<Longrightarrow>
     Tree_copy other = fail NullDeref \<and>
     (delete_node (heap T) (root T) = ret h \<longrightarrow> assign_copy T other = fail NullDeref)"
  by (simp add: Tree_copy_def assign_copy_def copy_from_def Tree_new_def leftmost.simps)

theorem copy_of_empty_tree_witness:
  "root (Tree_new :: (int, string) sgt) = None \<and>
   Tree_copy (Tree_new :: (int, string) sgt) = fail NullDeref \<and>
   delete_node (heap one_node) (root one_node) = ret (\<lambda>a. None) \<and>
   assign_copy one_node Tree_new = fail NullDeref"
proof -
  have r: "root (Tree_new :: (int, string) sgt) = None"
    by (simp add: Tree_new_def)
  have d: "delete_node (heap one_node) (root one_node) = ret (\<lambda>a. None)"
    by (simp add: run_simps one_node_def split del: if_split cong: bindE_weak_cong)
  show ?thesis
    using copy_of_empty_tree [OF r, of one_node "\<lambda>a. None"] r d by simp
qed

text \<open>
  C8. A subtree of the shape \<open>t\<close> at \<open>x\<close> with fewer than \<open>2^24\<close> nodes (the counts that
  the \<^verbatim>\<open>float\<close> parameter of \<^verbatim>\<open>build\<close> holds exactly, and on which \<^verbatim>\<open>(n-1)/2\<close>,
  \<^verbatim>\<open>ceil\<close> and \<^verbatim>\<open>floor\<close> are exact), and a fresh sentinel \<open>w\<close>. \<^verbatim>\<open>flatten\<close>
  returns the chain of the nodes of \<open>t\<close> in order, followed by the given tail.
  \<^verbatim>\<open>flatten_wrapper\<close> and then \<^verbatim>\<open>build\<close>, as the source calls them, return the sentinel,
  whose left child is the root of a tree over the same nodes in the same order (so the
  same keys in the same order), of the shape \<open>build_tree\<close>: left part
  \<open>\<lceil>(n-1)/2\<rceil>\<close>, root, right part \<open>\<lfloor>(n-1)/2\<rfloor>\<close>. Every leaf of it is at the depth
  \<open>\<lfloor>log2 n\<rfloor>\<close> or \<open>\<lfloor>log2 n\<rfloor> - 1\<close>. (The claim says \<open>\<lfloor>log2 n\<rfloor>\<close> or \<open>\<lceil>log2 n\<rceil>\<close>; see
  the counterexample.)
\<close>

theorem flatten_build_shape:
  fixes h :: "('k, 'v) heap"
  assumes "reps h par x t" "distinct (inorder t)" "w \<notin> set_tree t" "h w = Some wn" "right wn = None"
    and "size t < 2 ^ 24"
  shows "(\<exists>h0 z0. flatten h x y = ret (h0, z0) \<and> chain h0 z0 (inorder t) y) \<and>
         (\<exists>h1 z h2 sn. flatten_wrapper h x (Some w) = ret (h1, z) \<and>
            build h1 (int (size t)) z = ret (h2, Some w) \<and> h2 w = Some sn \<and>
            reps h2 None (left sn) (build_tree (size t) (inorder t)) \<and>
            inorder (build_tree (size t) (inorder t)) = inorder t \<and>
            keys h2 (build_tree (size t) (inorder t)) = keys h t \<and>
            (\<forall>d\<in>set (leaf_depths (build_tree (size t) (inorder t))).
               int d = \<lfloor>log 2 (real (size t))\<rfloor> \<or> int d = \<lfloor>log 2 (real (size t))\<rfloor> - 1))"
proof -
  let ?t = "build_tree (size t) (inorder t)"
  have io: "inorder ?t = inorder t" by (simp add: inorder_build_tree length_inorder)
  from flatten_reps[OF assms(1,2), of y] have 1: "\<exists>h0 z0. flatten h x y = ret (h0, z0) \<and> chain h0 z0 (inorder t) y"
    by blast
  from flatten_build[OF assms(1-5)] obtain h1 z h2 r wn' where
    2: "flatten_wrapper h x (Some w) = ret (h1, z)" "build h1 (int (size t)) z = ret (h2, Some w)"
       "h2 w = Some wn'" "left wn' = r" "reps h2 None r ?t" "same_pairs h h2"
    by blast
  have k: "keys h2 ?t = keys h t"
    using keys_same_pairs[OF 2(6), of ?t] io by (simp add: keys_def)
  have d: "\<forall>d\<in>set (leaf_depths ?t). int d = \<lfloor>log 2 (real (size t))\<rfloor> \<or> int d = \<lfloor>log 2 (real (size t))\<rfloor> - 1"
    using build_tree_leaf_depths leaf_depth_log by blast
  show ?thesis using 1 2 io k d by blast
qed

theorem flatten_build_shape_witness:
  "reps four_nodes None (Some 1) four_shape \<and> distinct (inorder four_shape) \<and>
   4 \<notin> set_tree four_shape \<and> size four_shape < 2 ^ 24 \<and>
   four_nodes 4 = Some \<lparr>parent = None, left = None, right = None, pair = (0, [])\<rparr> \<and>
   right \<lparr>parent = None, left = None, right = None, pair = (0::int, []::string)\<rparr> = None \<and>
   (\<exists>h1 z h2 sn. flatten_wrapper four_nodes (Some 1) (Some 4) = ret (h1, z) \<and>
      build h1 (int (size four_shape)) z = ret (h2, Some 4) \<and> h2 4 = Some sn \<and>
      reps h2 None (left sn) (build_tree (size four_shape) (inorder four_shape)) \<and>
      inorder (build_tree (size four_shape) (inorder four_shape)) = inorder four_shape \<and>
      keys h2 (build_tree (size four_shape) (inorder four_shape)) = keys four_nodes four_shape \<and>
      (\<forall>d\<in>set (leaf_depths (build_tree (size four_shape) (inorder four_shape))).
         int d = \<lfloor>log 2 (real (size four_shape))\<rfloor> \<or> int d = \<lfloor>log 2 (real (size four_shape))\<rfloor> - 1))"
proof -
  have r: "reps four_nodes None (Some 1) four_shape" by (simp add: four_nodes_def four_shape_def)
  have w: "four_nodes 4 = Some \<lparr>parent = None, left = None, right = None, pair = (0, [])\<rparr>"
    by (simp add: four_nodes_def)
  have d: "distinct (inorder four_shape)" "4 \<notin> set_tree four_shape" by (simp_all add: four_shape_def)
  have n: "right \<lparr>parent = None, left = None, right = None, pair = (0::int, []::string)\<rparr> = None" by simp
  have b: "size four_shape < 2 ^ 24" by (simp add: four_shape_def)
  note c = flatten_build_shape[OF r d w n b, of None, THEN conjunct2]
  show ?thesis
    by (rule conjI[OF r], rule conjI[OF d(1)], rule conjI[OF d(2)], rule conjI[OF b], rule conjI[OF w],
        rule conjI[OF n], rule c)
qed

text \<open>
  C8, as stated, fails for four nodes: \<^verbatim>\<open>build\<close> puts two nodes left of the root and
  one right of it, so there is a leaf at the depth 2 and a leaf at the depth 1, and
  \<open>\<lfloor>log2 4\<rfloor> = \<lceil>log2 4\<rceil> = 2\<close>.
\<close>

theorem flatten_build_counterexample:
  "bindE (flatten_wrapper four_nodes (Some 1) (Some 4)) (\<lambda>(h1, z).
   bindE (build h1 4 z) (\<lambda>(h2, s).
   bindE (get h2 s) (\<lambda>sn.
   ret (reps h2 None (left sn) \<langle>\<langle>\<langle>\<langle>\<rangle>, 0, \<langle>\<rangle>\<rangle>, 1, \<langle>\<rangle>\<rangle>, 2, \<langle>\<langle>\<rangle>, 3, \<langle>\<rangle>\<rangle>\<rangle>))))
   = ret True \<and>
   leaf_depths \<langle>\<langle>\<langle>\<langle>\<rangle>, 0::nat, \<langle>\<rangle>\<rangle>, 1, \<langle>\<rangle>\<rangle>, 2, \<langle>\<langle>\<rangle>, 3, \<langle>\<rangle>\<rangle>\<rangle> = [2, 1] \<and>
   \<lfloor>log 2 (4::real)\<rfloor> = 2 \<and> \<lceil>log 2 (4::real)\<rceil> = 2"
  by (simp add: run_simps half_simps four_nodes_def floor_log_2_4 split del: if_split cong: bindE_weak_cong)


text \<open>
  C6. In a tree that satisfies its invariant, \<^verbatim>\<open>insert(key, value)\<close> called twice in a row:
  the second call returns the same position with the flag false, and leaves the tree
  object as the first call left it (the same nodes, pointers, root, sizes and shape
  \<open>t1\<close>), but for the address that the next allocation will use. More generally, when
  a node \<open>a\<close> holds the key, the call returns \<open>a\<close>, the only node whose contents change
  is \<open>a\<close>, which now holds the new value, the flag says whether the stored value differed
  from the new one, and the shape \<open>t\<close> is unchanged: nothing is rebuilt.
\<close>

theorem insert_existing_key:
  fixes T :: "('k::{linorder,default}, 'v::default) sgt"
  assumes "tree_inv T t"
  shows "(\<exists>T1 it b t1. insert_kv T k v = ret (T1, it, b) \<and> tree_inv T1 t1 \<and>
            insert_kv T1 k v = ret (T1\<lparr>nxt := nxt T1 + 1\<rparr>, it, False) \<and>
            tree_inv (T1\<lparr>nxt := nxt T1 + 1\<rparr>) t1) \<and>
         (\<forall>a an. a \<in> set_tree t \<and> heap T a = Some an \<and> fst (pair an) = k \<longrightarrow>
            insert_kv T k v =
              ret (T\<lparr>nxt := nxt T + 1, heap := (heap T)(a \<mapsto> an\<lparr>pair := (k, v)\<rparr>)\<rparr>,
                   Some a, v \<noteq> snd (pair an)) \<and>
            tree_inv (T\<lparr>nxt := nxt T + 1, heap := (heap T)(a \<mapsto> an\<lparr>pair := (k, v)\<rparr>)\<rparr>) t)"
proof -
  from insert_kv_result[OF assms, of k v] obtain T1 a b t1 an where
    1: "insert_kv T k v = ret (T1, Some a, b)" "tree_inv T1 t1" "a \<in> set_tree t1"
       "heap T1 a = Some an" "pair an = (k, v)"
    by blast
  have "an\<lparr>pair := (k, v)\<rparr> = an" using 1(5) by (cases an) auto
  then have "(heap T1)(a \<mapsto> an\<lparr>pair := (k, v)\<rparr>) = heap T1" using 1(4) by (auto simp: fun_eq_iff)
  with insert_found[OF 1(2,3,4), of k v] 1(5)
  have "insert_kv T1 k v = ret (T1\<lparr>nxt := nxt T1 + 1\<rparr>, Some a, False)"
    "tree_inv (T1\<lparr>nxt := nxt T1 + 1\<rparr>) t1"
    by simp_all
  with 1(1,2) have twice: "\<exists>T1 it b t1. insert_kv T k v = ret (T1, it, b) \<and> tree_inv T1 t1 \<and>
            insert_kv T1 k v = ret (T1\<lparr>nxt := nxt T1 + 1\<rparr>, it, False) \<and>
            tree_inv (T1\<lparr>nxt := nxt T1 + 1\<rparr>) t1"
    by blast
  show ?thesis using twice insert_found[OF assms] by blast
qed

theorem insert_existing_key_witness:
  "tree_inv one_node \<langle>\<langle>\<rangle>, 0, \<langle>\<rangle>\<rangle> \<and>
   (\<exists>T1 it b t1. insert_kv one_node 1 ''x'' = ret (T1, it, b) \<and> tree_inv T1 t1 \<and>
            insert_kv T1 1 ''x'' = ret (T1\<lparr>nxt := nxt T1 + 1\<rparr>, it, False) \<and>
            tree_inv (T1\<lparr>nxt := nxt T1 + 1\<rparr>) t1) \<and>
   0 \<in> set_tree \<langle>\<langle>\<rangle>, 0::nat, \<langle>\<rangle>\<rangle> \<and>
   heap one_node 0 = Some \<lparr>parent = None, left = None, right = None, pair = (1, [])\<rparr> \<and>
   insert_kv one_node 1 ''x'' =
     ret (one_node\<lparr>nxt := 2,
            heap := (heap one_node)(0 \<mapsto> \<lparr>parent = None, left = None, right = None, pair = (1, ''x'')\<rparr>)\<rparr>,
          Some 0, True)"
proof -
  have h: "heap one_node 0 = Some \<lparr>parent = None, left = None, right = None, pair = (1, [])\<rparr>"
    by (simp add: one_node_def)
  have n: "Suc (nxt one_node) = 2" by (simp add: one_node_def)
  note w = insert_existing_key [OF one_node_inv, of 1 "''x''"]
  from w[THEN conjunct2, rule_format, of 0 "\<lparr>parent = None, left = None, right = None, pair = (1, [])\<rparr>"] h
  have "insert_kv one_node 1 ''x'' =
     ret (one_node\<lparr>nxt := 2,
            heap := (heap one_node)(0 \<mapsto> \<lparr>parent = None, left = None, right = None, pair = (1, ''x'')\<rparr>)\<rparr>,
          Some 0, True)"
    by (simp add: n)
  with w[THEN conjunct1] one_node_inv h show ?thesis by simp
qed

text \<open>
  C5. A sequence of operations that the driver can issue: \<^verbatim>\<open>insert 1\<close>, \<^verbatim>\<open>erase 7\<close>,
  \<^verbatim>\<open>insert 2\<close>. The key 7 is not held, \<^verbatim>\<open>erase(key)\<close> follows the null pointer (the defect
  of C2), and the sequence has no resulting tree whose keys could be in order. (For the
  sequences in which every \<^verbatim>\<open>erase\<close> asks for a key that is held, see
  \<open>order_invariant\<close>.)
\<close>

theorem run_ends_at_absent_erase:
  "run Tree_new [Insert (1::int) ([]::string), Erase 7, Insert 2 []] = fail NullDeref"
  by (simp add: run_simps split del: if_split cong: bindE_weak_cong)

text \<open>
  C7. The tree holds the key 1 only, so \<^verbatim>\<open>find(7)\<close> returns the past-the-end position.
  \<^verbatim>\<open>erase(7)\<close> does not return: it follows the null pointer (the defect of C2), and there
  is no tree on which \<^verbatim>\<open>find(7)\<close> could be called afterwards. (For the keys that are
  held, and for \<^verbatim>\<open>insert\<close>, see \<open>find_after_insert_erase\<close>.)
\<close>

theorem find_after_absent_erase:
  "bindE (insert_kv Tree_new (1::int) ([]::string)) (\<lambda>(T, it, b).
     bindE (find_key T 7) (\<lambda>i. ret (i = end_it T))) = ret True \<and>
   bindE (insert_kv Tree_new (1::int) ([]::string)) (\<lambda>(T, it, b).
     bindE (erase_key T 7) (\<lambda>T'. find_key T' 7)) = fail NullDeref"
  by (simp add: run_simps split del: if_split cong: bindE_weak_cong)

text \<open>
  C4. The inequalities hold in what a rebuild builds, and a rebuild happens as follows. The
  tree satisfies its invariant and has had fewer than \<open>2^18\<close> nodes (below that size the
  \<^verbatim>\<open>float\<close> computations of the source and the exact ones of the model decide every test
  alike). The shape \<open>t0\<close> is the shape with the new node \<open>x\<close> attached.

  \<^item> An \<^verbatim>\<open>insert\<close> of a new key returns. When the depth of the new node is not above
    \<^verbatim>\<open>h_alpha()\<close>, or the tree has at most 2 nodes, the shape of the result is \<open>t0\<close>. When
    it is above and the tree has more than 2 nodes, and no proper ancestor of \<open>x\<close> fails
    the test, the shape is \<open>t0\<close> again; otherwise \<open>scn\<close> is the deepest proper
    ancestor of \<open>x\<close> that fails the test, and the result is \<open>t0\<close> with the subtree at
    \<open>scn\<close> replaced by a shape \<open>s\<close> of the same nodes in the same order in which every
    node satisfies the two inequalities.
  \<^item> An \<^verbatim>\<open>insert\<close> of a key that is held leaves the shape as it is.
  \<^item> An \<^verbatim>\<open>erase\<close> of a node of the tree returns; when \<^verbatim>\<open>tree_size < alpha * max_size\<close>
    holds after the removal, every node of the resulting tree satisfies the two
    inequalities, and otherwise the shape is the old one without the node.

  Nodes outside a rebuilt subtree may violate the inequalities, as the second theorem after
  this one shows.
\<close>

theorem rebuilt_subtree_balanced:
  fixes T :: "('k::{linorder,default}, 'v::default) sgt"
  assumes "tree_inv T t" "max_size T < 2 ^ 18"
  shows "(k \<notin> set (keys (heap T) t) \<longrightarrow>
           (let t0 = ins_tree (heap T) k (nxt T) t; x = nxt T in
            \<exists>T' t'. insert_kv T k v = ret (T', Some x, True) \<and> tree_inv T' t' \<and>
              tree_size T' = int (size t0) \<and>
              (if h_alpha T' < int (depth t0 x) \<and> 2 < tree_size T'
               then (case scapegoat t0 x of
                       None \<Rightarrow> t' = t0
                     | Some scn \<Rightarrow> \<not> node_balanced (sub t0 scn) \<and>
                         (\<exists>s. t' = repl t0 scn s \<and> inorder s = inorder (sub t0 scn) \<and>
                              weight_balanced s))
               else t' = t0))) \<and>
         (k \<in> set (keys (heap T) t) \<longrightarrow>
           (\<exists>T' it b. insert_kv T k v = ret (T', it, b) \<and> tree_inv T' t)) \<and>
         (\<forall>a. a \<in> set_tree t \<longrightarrow>
           (\<exists>T' t'. erase T (Some a) = ret T' \<and> tree_inv T' t' \<and>
              inorder t' = remove1 a (inorder t) \<and>
              (if of_int (tree_size T - 1) < alpha * of_int (max_size T)
               then weight_balanced t' else t' = del_tree t a)))"
proof (intro conjI allI impI)
  assume k: "k \<notin> set (keys (heap T) t)"
  define t0 where "t0 = ins_tree (heap T) k (nxt T) t"
  define x where "x = nxt T"
  have d0: "distinct (inorder t0)"
    unfolding t0_def using assms(1) tree_inv_fresh[OF assms(1)]
    by (intro distinct_ins_tree) (simp_all add: tree_inv_def)
  from insert_new[OF assms(1) k, of v] obtain T' t' where
    n: "insert_kv T k v = ret (T', Some x, True)" "tree_inv T' t'" "inorder t' = inorder t0"
       "t' = (if h_alpha_search (int (size t0)) 0 < int (depth t0 x) \<and> 2 < size t0
              then rebuilt t0 x else t0)"
    unfolding t0_def x_def by blast
  have "size t' = size t0" using n(3) by (metis length_inorder)
  then have sz: "tree_size T' = int (size t0)" using n(2) by (simp add: tree_inv_def)
  have c: "(h_alpha T' < int (depth t0 x) \<and> 2 < tree_size T') =
           (h_alpha_search (int (size t0)) 0 < int (depth t0 x) \<and> 2 < size t0)"
    by (simp add: h_alpha_def sz)
  have "if h_alpha T' < int (depth t0 x) \<and> 2 < tree_size T'
        then (case scapegoat t0 x of
                None \<Rightarrow> t' = t0
              | Some scn \<Rightarrow> \<not> node_balanced (sub t0 scn) \<and>
                  (\<exists>s. t' = repl t0 scn s \<and> inorder s = inorder (sub t0 scn) \<and> weight_balanced s))
        else t' = t0"
  proof (cases "h_alpha T' < int (depth t0 x) \<and> 2 < tree_size T'")
    case False
    have "t' = t0" using n(4) by (simp only: if_not_P[OF False[unfolded c]])
    then show ?thesis by (simp only: if_not_P[OF False])
  next
    case True
    have r: "t' = rebuilt t0 x" using n(4) by (simp only: if_P[OF True[unfolded c]])
    show ?thesis
    proof (cases "scapegoat t0 x")
      case None
      then have "t' = t0" using r by (simp add: rebuilt_def)
      then show ?thesis using None by (simp only: if_P[OF True] option.case)
    next
      case (Some scn)
      have l: "length (inorder (sub t0 scn)) = size (sub t0 scn)" by (simp add: length_inorder)
      have "t' = repl t0 scn (build_tree (size (sub t0 scn)) (inorder (sub t0 scn)))"
        using r Some by (simp add: rebuilt_def)
      with inorder_build_tree[OF l] build_tree_balanced[OF l]
      have "\<exists>s. t' = repl t0 scn s \<and> inorder s = inorder (sub t0 scn) \<and> weight_balanced s"
        by blast
      moreover have "\<not> node_balanced (sub t0 scn)" using scapegoat_Some[OF d0 Some] by simp
      ultimately show ?thesis using Some by (simp only: if_P[OF True] option.case simp_thms)
    qed
  qed
  with n(1,2) sz show "let t0 = ins_tree (heap T) k (nxt T) t; x = nxt T in
            \<exists>T' t'. insert_kv T k v = ret (T', Some x, True) \<and> tree_inv T' t' \<and>
              tree_size T' = int (size t0) \<and>
              (if h_alpha T' < int (depth t0 x) \<and> 2 < tree_size T'
               then (case scapegoat t0 x of
                       None \<Rightarrow> t' = t0
                     | Some scn \<Rightarrow> \<not> node_balanced (sub t0 scn) \<and>
                         (\<exists>s. t' = repl t0 scn s \<and> inorder s = inorder (sub t0 scn) \<and>
                              weight_balanced s))
               else t' = t0)"
    unfolding Let_def t0_def x_def by blast
next
  assume "k \<in> set (keys (heap T) t)"
  then obtain a where a: "a \<in> set_tree t" "key_of (heap T) a = k" by (auto simp: keys_def)
  from assms(1) a(1) obtain an where an: "heap T a = Some an"
    using reps_alloc[of "heap T" None "root T" t a] by (auto simp: tree_inv_def)
  then have fk: "fst (pair an) = k" using a(2) by (simp add: key_of_def)
  from insert_found[OF assms(1) a(1) an fk, of v]
  show "\<exists>T' it b. insert_kv T k v = ret (T', it, b) \<and> tree_inv T' t" by blast
next
  fix a assume a: "a \<in> set_tree t"
  from erase_correct[OF assms(1) a] obtain T' t' where
    e: "erase T (Some a) = ret T'" "tree_inv T' t'" "inorder t' = remove1 a (inorder t)"
       "if of_int (tree_size T - 1) < alpha * of_int (max_size T)
            then t' = build_tree (size (del_tree t a)) (inorder (del_tree t a))
            else t' = del_tree t a"
    by blast
  have l: "length (inorder (del_tree t a)) = size (del_tree t a)" by (simp add: length_inorder)
  have "if of_int (tree_size T - 1) < alpha * of_int (max_size T)
               then weight_balanced t' else t' = del_tree t a"
    using e(4) build_tree_balanced[OF l] by (simp split: if_splits)
  with e(1,2,3) show "\<exists>T' t'. erase T (Some a) = ret T' \<and> tree_inv T' t' \<and>
              inorder t' = remove1 a (inorder t) \<and>
              (if of_int (tree_size T - 1) < alpha * of_int (max_size T)
               then weight_balanced t' else t' = del_tree t a)"
    by blast
qed

text \<open>Two instances: the insert of the key 3 into the tree of the keys 1 and 2 puts the new
  node at the depth 2, above \<^verbatim>\<open>h_alpha()\<close>; its parent passes the test, the root fails it
  and the three nodes are rebuilt. The erase of the key 3 from the tree of the keys 1, 2, 3
  that once held 4 nodes leaves 2 nodes, fewer than \<open>0.57 * 4\<close>, and they are rebuilt.\<close>

theorem rebuilt_subtree_balanced_witness:
  "tree_inv two_nodes \<langle>\<langle>\<rangle>, 0, \<langle>\<langle>\<rangle>, 1, \<langle>\<rangle>\<rangle>\<rangle> \<and> max_size two_nodes < 2 ^ 18 \<and>
   3 \<notin> set (keys (heap two_nodes) \<langle>\<langle>\<rangle>, 0, \<langle>\<langle>\<rangle>, 1, \<langle>\<rangle>\<rangle>\<rangle>) \<and>
   scapegoat \<langle>\<langle>\<rangle>, 0, \<langle>\<langle>\<rangle>, 1, \<langle>\<langle>\<rangle>, 2, \<langle>\<rangle>\<rangle>\<rangle>\<rangle> 2 = Some 0 \<and>
   (\<exists>T' t' s. insert_kv two_nodes 3 ''x'' = ret (T', Some 2, True) \<and> tree_inv T' t' \<and>
      tree_size T' = 3 \<and> h_alpha T' < 2 \<and>
      t' = repl \<langle>\<langle>\<rangle>, 0, \<langle>\<langle>\<rangle>, 1, \<langle>\<langle>\<rangle>, 2, \<langle>\<rangle>\<rangle>\<rangle>\<rangle> 0 s \<and> inorder s = [0, 1, 2] \<and> weight_balanced s) \<and>
   tree_inv three_nodes \<langle>\<langle>\<langle>\<rangle>, 1, \<langle>\<rangle>\<rangle>, 0, \<langle>\<langle>\<rangle>, 2, \<langle>\<rangle>\<rangle>\<rangle> \<and> max_size three_nodes < 2 ^ 18 \<and>
   real_of_int (tree_size three_nodes - 1) < alpha * real_of_int (max_size three_nodes) \<and>
   (\<exists>T' t'. erase three_nodes (Some 2) = ret T' \<and> tree_inv T' t' \<and> inorder t' = [1, 0] \<and>
      weight_balanced t')"
proof -
  have inv2: "tree_inv two_nodes \<langle>\<langle>\<rangle>, 0, \<langle>\<langle>\<rangle>, 1, \<langle>\<rangle>\<rangle>\<rangle>"
    by (simp add: tree_inv_def two_nodes_def keys_def key_of_def)
  have b2: "max_size two_nodes < 2 ^ 18" by (simp add: two_nodes_def)
  have k: "3 \<notin> set (keys (heap two_nodes) \<langle>\<langle>\<rangle>, 0, \<langle>\<langle>\<rangle>, 1, \<langle>\<rangle>\<rangle>\<rangle>)"
    by (simp add: keys_def key_of_def two_nodes_def)
  have n: "nxt two_nodes = 2" by (simp add: two_nodes_def)
  have t0: "ins_tree (heap two_nodes) 3 2 \<langle>\<langle>\<rangle>, 0, \<langle>\<langle>\<rangle>, 1, \<langle>\<rangle>\<rangle>\<rangle> = \<langle>\<langle>\<rangle>, 0, \<langle>\<langle>\<rangle>, 1, \<langle>\<langle>\<rangle>, 2, \<langle>\<rangle>\<rangle>\<rangle>\<rangle>"
    by (simp add: key_of_def two_nodes_def)
  have sg: "scapegoat \<langle>\<langle>\<rangle>, 0, \<langle>\<langle>\<rangle>, 1, \<langle>\<langle>\<rangle>, 2, \<langle>\<rangle>\<rangle>\<rangle>\<rangle> 2 = Some 0"
    by (simp add: alpha_def)
  have ha: "h_alpha_search 3 0 = 1"
    by (simp add: h_alpha_search.simps alpha_def)
  from rebuilt_subtree_balanced [OF inv2 b2, of 3 "''x''", THEN conjunct1, rule_format, OF k,
      unfolded Let_def n t0]
  obtain T' t' where
    1: "insert_kv two_nodes 3 ''x'' = ret (T', Some 2, True)" "tree_inv T' t'"
       "tree_size T' = int (size \<langle>\<langle>\<rangle>, 0::nat, \<langle>\<langle>\<rangle>, 1, \<langle>\<langle>\<rangle>, 2, \<langle>\<rangle>\<rangle>\<rangle>\<rangle>)"
       "if h_alpha T' < int (depth \<langle>\<langle>\<rangle>, 0, \<langle>\<langle>\<rangle>, 1, \<langle>\<langle>\<rangle>, 2, \<langle>\<rangle>\<rangle>\<rangle>\<rangle> 2) \<and> 2 < tree_size T'
        then (case scapegoat \<langle>\<langle>\<rangle>, 0, \<langle>\<langle>\<rangle>, 1, \<langle>\<langle>\<rangle>, 2, \<langle>\<rangle>\<rangle>\<rangle>\<rangle> 2 of
                None \<Rightarrow> t' = \<langle>\<langle>\<rangle>, 0, \<langle>\<langle>\<rangle>, 1, \<langle>\<langle>\<rangle>, 2, \<langle>\<rangle>\<rangle>\<rangle>\<rangle>
              | Some scn \<Rightarrow> \<not> node_balanced (sub \<langle>\<langle>\<rangle>, 0, \<langle>\<langle>\<rangle>, 1, \<langle>\<langle>\<rangle>, 2, \<langle>\<rangle>\<rangle>\<rangle>\<rangle> scn) \<and>
                  (\<exists>s. t' = repl \<langle>\<langle>\<rangle>, 0, \<langle>\<langle>\<rangle>, 1, \<langle>\<langle>\<rangle>, 2, \<langle>\<rangle>\<rangle>\<rangle>\<rangle> scn s \<and>
                       inorder s = inorder (sub \<langle>\<langle>\<rangle>, 0, \<langle>\<langle>\<rangle>, 1, \<langle>\<langle>\<rangle>, 2, \<langle>\<rangle>\<rangle>\<rangle>\<rangle> scn) \<and>
                       weight_balanced s))
        else t' = \<langle>\<langle>\<rangle>, 0, \<langle>\<langle>\<rangle>, 1, \<langle>\<langle>\<rangle>, 2, \<langle>\<rangle>\<rangle>\<rangle>\<rangle>"
    by blast
  have sz: "tree_size T' = 3" using 1(3) by simp
  have h: "h_alpha T' < 2" by (simp add: h_alpha_def sz ha)
  have c: "h_alpha T' < int (depth \<langle>\<langle>\<rangle>, 0, \<langle>\<langle>\<rangle>, 1, \<langle>\<langle>\<rangle>, 2, \<langle>\<rangle>\<rangle>\<rangle>\<rangle> 2) \<and> 2 < tree_size T'"
    using h sz by simp
  from 1(4) have "\<exists>s. t' = repl \<langle>\<langle>\<rangle>, 0, \<langle>\<langle>\<rangle>, 1, \<langle>\<langle>\<rangle>, 2, \<langle>\<rangle>\<rangle>\<rangle>\<rangle> 0 s \<and>
      inorder s = inorder (sub \<langle>\<langle>\<rangle>, 0::nat, \<langle>\<langle>\<rangle>, 1, \<langle>\<langle>\<rangle>, 2, \<langle>\<rangle>\<rangle>\<rangle>\<rangle> 0) \<and> weight_balanced s"
    unfolding if_P[OF c] sg by simp
  then obtain s where s: "t' = repl \<langle>\<langle>\<rangle>, 0, \<langle>\<langle>\<rangle>, 1, \<langle>\<langle>\<rangle>, 2, \<langle>\<rangle>\<rangle>\<rangle>\<rangle> 0 s" "inorder s = [0, 1, 2]"
    "weight_balanced s" by auto
  have i1: "\<exists>T' t' s. insert_kv two_nodes 3 ''x'' = ret (T', Some 2, True) \<and> tree_inv T' t' \<and>
      tree_size T' = 3 \<and> h_alpha T' < 2 \<and>
      t' = repl \<langle>\<langle>\<rangle>, 0, \<langle>\<langle>\<rangle>, 1, \<langle>\<langle>\<rangle>, 2, \<langle>\<rangle>\<rangle>\<rangle>\<rangle> 0 s \<and> inorder s = [0, 1, 2] \<and> weight_balanced s"
    using 1(1,2) sz h s by blast
  have inv3: "tree_inv three_nodes \<langle>\<langle>\<langle>\<rangle>, 1, \<langle>\<rangle>\<rangle>, 0, \<langle>\<langle>\<rangle>, 2, \<langle>\<rangle>\<rangle>\<rangle>"
    by (simp add: tree_inv_def three_nodes_def keys_def key_of_def)
  have b3: "max_size three_nodes < 2 ^ 18" by (simp add: three_nodes_def)
  have c3: "real_of_int (tree_size three_nodes - 1) < alpha * real_of_int (max_size three_nodes)"
    by (simp add: three_nodes_def alpha_def)
  have a3: "2 \<in> set_tree \<langle>\<langle>\<langle>\<rangle>, 1, \<langle>\<rangle>\<rangle>, 0::nat, \<langle>\<langle>\<rangle>, 2, \<langle>\<rangle>\<rangle>\<rangle>" by simp
  from rebuilt_subtree_balanced [OF inv3 b3, of 0 "[]", THEN conjunct2, THEN conjunct2, rule_format, OF a3,
      unfolded if_P[OF c3]]
  have i2: "\<exists>T' t'. erase three_nodes (Some 2) = ret T' \<and> tree_inv T' t' \<and> inorder t' = [1, 0] \<and>
      weight_balanced t'"
    by simp
  from inv2 b2 k sg i1 inv3 b3 c3 i2 show ?thesis by blast
qed

text \<open>
  C4, as stated, fails after the inserts of 4, 2, 5, 1, 3 into the empty tree: no new node
  was deeper than \<^verbatim>\<open>h_alpha()\<close>, so nothing was rebuilt (\<^verbatim>\<open>max_size\<close> is still 5); the
  tree has 5 nodes, \<^verbatim>\<open>node_size\<close> of the root is 5 and of its left child 3, and 3 is more
  than \<open>0.57 * 5\<close>.
\<close>

theorem balance_counterexample:
  "bindE (inserts Tree_new [(4::int, []::string), (2, []), (5, []), (1, []), (3, [])]) (\<lambda>T.
   bindE (get (heap T) (root T)) (\<lambda>x.
   bindE (node_size (heap T) (root T)) (\<lambda>n.
   bindE (node_size (heap T) (left x)) (\<lambda>l.
   ret (tree_size T, max_size T, n, l, real_of_int l \<le> alpha * real_of_int n)))))
   = ret (5, 5, 5, 3, False)"
  by (simp add: run_simps node_size.simps split del: if_split cong: bindE_weak_cong)

end
